(* ===== verification/Cab_Prelude.thy ===== *)
theory Cab_Prelude
  imports Main "HOL-Library.Word" "HOL-Library.Multiset"
begin

section \<open>Shared types, checked arithmetic and generic lemmas\<close>

text \<open>
  This theory holds what every component of the development shares.

  \<^item> \<open>outcome\<close> is the result of a Rust function: \<open>Ok\<close> and \<open>Err\<close> are the two
    constructors of \<^verbatim>\<open>Result\<close>, and \<open>Panic\<close> is a panic of the kernel, that is a
    failed \<^verbatim>\<open>unwrap\<close>, \<^verbatim>\<open>assert!\<close>, index out of range, or an arithmetic
    overflow of the development profile, where overflow checks are on.
  \<^item> \<open>usize\<close> values are natural numbers below \<open>2 ^ 64\<close>. Every addition,
    subtraction or multiplication whose overflow matters is written with
    \<open>uadd\<close>, \<open>usub\<close>, \<open>umul\<close>, which panic as the source does.
  \<^item> byte strings are lists of 8-bit words, with the little-endian readers of
    the integer types.
\<close>

named_theorems outcome_simps \<open>rewriting of outcomes and of checked arithmetic\<close>
named_theorems byte_simps \<open>rewriting of byte-level slices and encodings\<close>

type_synonym byte = "8 word"
type_synonym usize = nat
type_synonym addr = nat

subsection \<open>Outcomes\<close>

datatype ('e, 'a) outcome = Ok 'a | Err 'e | Panic

fun obind :: "('e, 'a) outcome \<Rightarrow> ('a \<Rightarrow> ('e, 'b) outcome) \<Rightarrow> ('e, 'b) outcome" where
  "obind (Ok x) f = f x"
| "obind (Err e) f = Err e"
| "obind Panic f = Panic"

fun omap :: "('a \<Rightarrow> 'b) \<Rightarrow> ('e, 'a) outcome \<Rightarrow> ('e, 'b) outcome" where
  "omap f (Ok x) = Ok (f x)"
| "omap f (Err e) = Err e"
| "omap f Panic = Panic"

definition unwrap :: "'a option \<Rightarrow> ('e, 'a) outcome" where
  "unwrap x = (case x of None \<Rightarrow> Panic | Some y \<Rightarrow> Ok y)"

definition ok_or :: "'e \<Rightarrow> 'a option \<Rightarrow> ('e, 'a) outcome" where
  "ok_or e x = (case x of None \<Rightarrow> Err e | Some y \<Rightarrow> Ok y)"

definition index_get :: "'a list \<Rightarrow> nat \<Rightarrow> ('e, 'a) outcome" where
  "index_get xs i = (if i < length xs then Ok (xs ! i) else Panic)"

fun is_ok :: "('e, 'a) outcome \<Rightarrow> bool" where
  "is_ok (Ok _) = True"
| "is_ok _ = False"

subsection \<open>Checked machine arithmetic\<close>

definition USIZE_MAX :: nat where
  "USIZE_MAX = 2 ^ 64 - 1"

definition uadd :: "usize \<Rightarrow> usize \<Rightarrow> ('e, usize) outcome" where
  "uadd a b = (if a + b \<le> USIZE_MAX then Ok (a + b) else Panic)"

definition usub :: "usize \<Rightarrow> usize \<Rightarrow> ('e, usize) outcome" where
  "usub a b = (if b \<le> a then Ok (a - b) else Panic)"

definition umul :: "usize \<Rightarrow> usize \<Rightarrow> ('e, usize) outcome" where
  "umul a b = (if a * b \<le> USIZE_MAX then Ok (a * b) else Panic)"

definition wrapping_add :: "usize \<Rightarrow> usize \<Rightarrow> usize" where
  "wrapping_add a b = (a + b) mod 2 ^ 64"

definition div_ceil :: "nat \<Rightarrow> nat \<Rightarrow> nat" where
  "div_ceil a b = (if a mod b = 0 then a div b else a div b + 1)"

definition PAGE_SIZE :: nat where
  "PAGE_SIZE = 4096"

subsection \<open>Bytes\<close>

fun le_nat :: "byte list \<Rightarrow> nat" where
  "le_nat [] = 0"
| "le_nat (b # bs) = unat b + 256 * le_nat bs"

fun nat_le :: "nat \<Rightarrow> nat \<Rightarrow> byte list" where
  "nat_le 0 v = []"
| "nat_le (Suc n) v = word_of_nat (v mod 256) # nat_le n (v div 256)"

definition subslice :: "nat \<Rightarrow> nat \<Rightarrow> 'a list \<Rightarrow> 'a list" where
  "subslice start len xs = take len (drop start xs)"

definition blit :: "nat \<Rightarrow> 'a list \<Rightarrow> 'a list \<Rightarrow> 'a list" where
  "blit start ys xs = take start xs @ ys @ drop (start + length ys) xs"

subsection \<open>Lemmas on outcomes\<close>

lemma obind_Ok_iff [outcome_simps]:
  "obind x f = Ok y \<longleftrightarrow> (\<exists>z. x = Ok z \<and> f z = Ok y)"
  by (cases x) auto

lemma obind_Err_iff [outcome_simps]:
  "obind x f = Err e \<longleftrightarrow> x = Err e \<or> (\<exists>z. x = Ok z \<and> f z = Err e)"
  by (cases x) auto

lemma obind_Panic_iff [outcome_simps]:
  "obind x f = Panic \<longleftrightarrow> x = Panic \<or> (\<exists>z. x = Ok z \<and> f z = Panic)"
  by (cases x) auto

lemma omap_Ok_iff [outcome_simps]: "omap f x = Ok y \<longleftrightarrow> (\<exists>z. x = Ok z \<and> y = f z)"
  by (cases x) auto

lemma omap_Err_iff [outcome_simps]: "omap f x = Err e \<longleftrightarrow> x = Err e"
  by (cases x) auto

lemma omap_Panic_iff [outcome_simps]: "omap f x = Panic \<longleftrightarrow> x = Panic"
  by (cases x) auto

lemma unwrap_simps [simp]: "unwrap None = Panic" "unwrap (Some x) = Ok x"
  by (simp_all add: unwrap_def)

lemma ok_or_simps [simp]: "ok_or e None = Err e" "ok_or e (Some x) = Ok x"
  by (simp_all add: ok_or_def)

lemma unwrap_Ok_iff [outcome_simps]: "unwrap x = Ok y \<longleftrightarrow> x = Some y"
  by (cases x) auto

lemma ok_or_Ok_iff [outcome_simps]: "ok_or e x = Ok y \<longleftrightarrow> x = Some y"
  by (cases x) auto

lemma index_get_Ok_iff [outcome_simps]: "index_get xs i = Ok x \<longleftrightarrow> i < length xs \<and> x = xs ! i"
  by (auto simp: index_get_def)

lemma index_get_in [simp]: "i < length xs \<Longrightarrow> index_get xs i = Ok (xs ! i)"
  by (simp add: index_get_def)

lemma is_ok_iff: "is_ok x \<longleftrightarrow> (\<exists>y. x = Ok y)"
  by (cases x) auto

lemma uadd_Ok_iff [outcome_simps]: "uadd a b = Ok c \<longleftrightarrow> c = a + b \<and> a + b \<le> USIZE_MAX"
  by (auto simp: uadd_def)

lemma uadd_not_Err [simp]: "uadd a b \<noteq> Err e"
  by (simp add: uadd_def)

lemma uadd_fits [simp]: "a + b \<le> USIZE_MAX \<Longrightarrow> uadd a b = Ok (a + b)"
  by (simp add: uadd_def)

lemma usub_Ok_iff [outcome_simps]: "usub a b = Ok c \<longleftrightarrow> c = a - b \<and> b \<le> a"
  by (auto simp: usub_def)

lemma usub_fits [simp]: "b \<le> a \<Longrightarrow> usub a b = Ok (a - b)"
  by (simp add: usub_def)

lemma umul_Ok_iff [outcome_simps]: "umul a b = Ok c \<longleftrightarrow> c = a * b \<and> a * b \<le> USIZE_MAX"
  by (auto simp: umul_def)

lemma umul_fits [simp]: "a * b \<le> USIZE_MAX \<Longrightarrow> umul a b = Ok (a * b)"
  by (simp add: umul_def)

subsection \<open>Lemmas on bytes, slices and blits\<close>

lemma length_slice [simp, byte_simps]: "length (subslice s n xs) = min n (length xs - s)"
  by (simp add: subslice_def min.commute)

lemma length_blit [simp, byte_simps]:
  "s + length ys \<le> length xs \<Longrightarrow> length (blit s ys xs) = length xs"
  by (simp add: blit_def)

lemma nth_slice [byte_simps]: "i < n \<Longrightarrow> s + i < length xs \<Longrightarrow> subslice s n xs ! i = xs ! (s + i)"
  by (simp add: subslice_def)

lemma nth_blit [byte_simps]:
  assumes "s + length ys \<le> length xs" "i < length xs"
  shows "blit s ys xs ! i = (if s \<le> i \<and> i < s + length ys then ys ! (i - s) else xs ! i)"
  using assms by (auto simp: blit_def nth_append min_def)

lemma slice_blit_same:
  "s + length ys \<le> length xs \<Longrightarrow> subslice s (length ys) (blit s ys xs) = ys"
  by (simp add: subslice_def blit_def)

lemma slice_blit_other:
  assumes "s + length ys \<le> length xs" "a + n \<le> s \<or> s + length ys \<le> a"
  shows "subslice a n (blit s ys xs) = subslice a n xs"
  using assms by (intro nth_equalityI) (auto simp: nth_slice nth_blit)

lemma blit_Nil [simp]: "blit s [] xs = xs"
  by (simp add: blit_def)

lemma slice_0 [simp]: "subslice s 0 xs = []"
  by (simp add: subslice_def)

lemma slice_append_slice:
  "subslice s a xs @ subslice (s + a) b xs = subslice s (a + b) xs"
  by (simp add: subslice_def take_add drop_drop add.commute)

lemma length_nat_le [simp, byte_simps]: "length (nat_le n v) = n"
  by (induction n v rule: nat_le.induct) auto

lemma unat_byte: "unat (b :: byte) < 256"
  using unsigned_less [of b] by simp

lemma le_nat_bound: "le_nat bs < 256 ^ length bs"
proof (induction bs)
  case Nil
  then show ?case by simp
next
  case (Cons b bs)
  then show ?case using unat_byte [of b] by simp
qed

lemma le_nat_nat_le: "le_nat (nat_le n v) = v mod 256 ^ n"
proof (induction n v rule: nat_le.induct)
  case (1 v)
  then show ?case by simp
next
  case (2 n v)
  have "unat (word_of_nat (v mod 256) :: byte) = v mod 256"
    by (simp add: unat_of_nat)
  with 2 show ?case by (simp add: mod_mult2_eq)
qed

lemma nat_le_le_nat: "nat_le (length bs) (le_nat bs) = bs"
proof (induction bs)
  case Nil
  then show ?case by simp
next
  case (Cons b bs)
  then show ?case using unat_byte [of b] by simp
qed

subsection \<open>Searching lists\<close>

lemma find_SomeD: "List.find P xs = Some x \<Longrightarrow> x \<in> set xs \<and> P x"
  by (auto simp: find_Some_iff)

subsection \<open>Rounding\<close>

lemma div_ceil_ge: "0 < b \<Longrightarrow> a \<le> div_ceil a b * b"
proof -
  assume "0 < b"
  then have "a mod b < b" by simp
  moreover have "a = a div b * b + a mod b" by simp
  ultimately show ?thesis
    unfolding div_ceil_def by (simp only: if_distrib add_mult_distrib split: if_split) linarith
qed

lemma div_ceil_less: "0 < b \<Longrightarrow> div_ceil a b * b < a + b"
proof -
  assume "0 < b"
  moreover have "a = a div b * b + a mod b" by simp
  ultimately show ?thesis
    unfolding div_ceil_def by (simp only: if_distrib add_mult_distrib split: if_split) linarith
qed

end
