(* ===== verification/Free_Set.thy ===== *)
theory Free_Set
  imports Cab_Prelude
begin

section \<open>The set of free address ranges\<close>

text \<open>
  Model of \<^verbatim>\<open>src/src/memory/freeset.rs\<close>. A \<open>FreeSet\<close> keeps the free ranges of
  an address space in two intrusive red-black trees that share their nodes, one
  keyed by base and one by length.

  The tree is code of another package, so it is a parameter here: the record
  \<open>rbtree_ops\<close> holds the operations the code calls, and the locale
  \<open>rb_tree\<close> states their documented behaviour in terms of the in-order
  sequence of the nodes. The operations of the free set are written once over
  any such record. The last section gives the operations on a sorted list,
  which satisfy the laws.

  The lemmas show that every operation keeps the two trees equal as sets of
  nodes and the ranges non-empty, disjoint and maximal, and that seen as a set
  of addresses \<open>add_range\<close> is union, \<open>remove_range_by_base\<close> is difference
  and \<open>remove_range_by_length\<close> takes a range out of the smallest range that
  is long enough.
\<close>

subsection \<open>State and operations\<close>

record Free =
  f_base :: usize
  f_length :: usize

record 't rbtree_ops =
  rb_new :: 't
  rb_insert :: "Free \<Rightarrow> 't \<Rightarrow> 't"
  rb_find :: "usize \<Rightarrow> 't \<Rightarrow> Free option"
  rb_remove :: "Free \<Rightarrow> 't \<Rightarrow> 't"
  rb_upper_bound :: "usize \<Rightarrow> 't \<Rightarrow> Free option"
  rb_lower_bound :: "usize \<Rightarrow> 't \<Rightarrow> Free option"
  rb_cursor_get :: "nat \<Rightarrow> 't \<Rightarrow> Free option"

record ('b, 'l) FreeSet =
  base_set :: 'b
  length_set :: 'l

type_synonym err = string

definition freeset_new :: "'b rbtree_ops \<Rightarrow> 'l rbtree_ops \<Rightarrow> ('b, 'l) FreeSet" where
  "freeset_new B L = \<lparr> base_set = rb_new B, length_set = rb_new L \<rparr>"

definition add_to_sets ::
  "'b rbtree_ops \<Rightarrow> 'l rbtree_ops \<Rightarrow> usize \<Rightarrow> usize \<Rightarrow> ('b, 'l) FreeSet \<Rightarrow> ('b, 'l) FreeSet" where
  "add_to_sets B L base len s =
    (let free = \<lparr> f_base = base, f_length = len \<rparr>
     in \<lparr> base_set = rb_insert B free (base_set s), length_set = rb_insert L free (length_set s) \<rparr>)"

definition remove_from_sets ::
  "'b rbtree_ops \<Rightarrow> 'l rbtree_ops \<Rightarrow> usize \<Rightarrow> ('b, 'l) FreeSet \<Rightarrow> (err, ('b, 'l) FreeSet) outcome" where
  "remove_from_sets B L base s =
    (case rb_find B base (base_set s) of
       None \<Rightarrow> Panic
     | Some free \<Rightarrow> Ok \<lparr> base_set = rb_remove B free (base_set s),
                          length_set = rb_remove L free (length_set s) \<rparr>)"

definition coalesce_left ::
  "'b rbtree_ops \<Rightarrow> usize \<Rightarrow> ('b, 'l) FreeSet \<Rightarrow> (err, (usize \<times> usize) option) outcome" where
  "coalesce_left B base s =
    (case rb_upper_bound B base (base_set s) of
       None \<Rightarrow> Ok None
     | Some free \<Rightarrow>
         obind (uadd (f_base free) (f_length free)) (\<lambda>e.
           if base < e then Err ''added range conflicts with upper part of existing range''
           else if e = base then Ok (Some (f_base free, f_length free))
           else Ok None))"

definition coalesce_right ::
  "'b rbtree_ops \<Rightarrow> usize \<Rightarrow> usize \<Rightarrow> ('b, 'l) FreeSet \<Rightarrow> (err, (usize \<times> usize) option) outcome" where
  "coalesce_right B base len s =
    (case rb_lower_bound B base (base_set s) of
       None \<Rightarrow> Ok None
     | Some free \<Rightarrow>
         obind (uadd base len) (\<lambda>e.
           if f_base free < e then Err ''added range conflicts with lower part of existing range''
           else if e = f_base free then Ok (Some (f_base free, f_length free))
           else Ok None))"

definition add_range ::
  "'b rbtree_ops \<Rightarrow> 'l rbtree_ops \<Rightarrow> usize \<Rightarrow> usize \<Rightarrow> ('b, 'l) FreeSet \<Rightarrow> (err, ('b, 'l) FreeSet) outcome" where
  "add_range B L base len s =
    (if len = 0 then Err ''trying to add an empty range''
     else obind (coalesce_left B base s) (\<lambda>left.
       obind (coalesce_right B base len s) (\<lambda>right.
       obind (case left of
                None \<Rightarrow> Ok (base, len, s)
              | Some (free_base, free_length) \<Rightarrow>
                  obind (uadd len free_length) (\<lambda>cl.
                  obind (remove_from_sets B L free_base s) (\<lambda>s'.
                    Ok (free_base, cl, s')))) (\<lambda>(cb, cl, s1).
       obind (case right of
                None \<Rightarrow> Ok (cl, s1)
              | Some (free_base, free_length) \<Rightarrow>
                  obind (uadd cl free_length) (\<lambda>cl'.
                  obind (remove_from_sets B L free_base s1) (\<lambda>s'.
                    Ok (cl', s')))) (\<lambda>(cl', s2).
       Ok (add_to_sets B L cb cl' s2))))))"

definition remove_range_by_base_unchecked ::
  "'b rbtree_ops \<Rightarrow> 'l rbtree_ops \<Rightarrow> usize \<Rightarrow> usize \<Rightarrow> usize \<Rightarrow> usize \<Rightarrow> ('b, 'l) FreeSet
    \<Rightarrow> (err, ('b, 'l) FreeSet) outcome" where
  "remove_range_by_base_unchecked B L cut_base cut_length whole_base whole_length s =
    obind (remove_from_sets B L whole_base s) (\<lambda>s0.
    let s1 = (if whole_base < cut_base
              then add_to_sets B L whole_base (cut_base - whole_base) s0 else s0)
    in obind (uadd cut_base cut_length) (\<lambda>cut_end.
       obind (uadd whole_length whole_base) (\<lambda>whole_end.
       Ok (if cut_end < whole_end
           then add_to_sets B L cut_end (whole_end - cut_end) s1 else s1))))"

definition remove_range_by_base ::
  "'b rbtree_ops \<Rightarrow> 'l rbtree_ops \<Rightarrow> usize \<Rightarrow> usize \<Rightarrow> ('b, 'l) FreeSet \<Rightarrow> (err, ('b, 'l) FreeSet) outcome" where
  "remove_range_by_base B L base len s =
    (case rb_upper_bound B base (base_set s) of
       Some free \<Rightarrow>
         obind (uadd (f_base free) (f_length free)) (\<lambda>free_end.
         obind (uadd base len) (\<lambda>range_end.
           if free_end < range_end then Err ''range can't be cleanly removed''
           else remove_range_by_base_unchecked B L base len (f_base free) (f_length free) s))
     | None \<Rightarrow> Err ''there is no free range <= base'')"

definition remove_range_by_length ::
  "'b rbtree_ops \<Rightarrow> 'l rbtree_ops \<Rightarrow> usize \<Rightarrow> ('b, 'l) FreeSet \<Rightarrow> (err, usize \<times> ('b, 'l) FreeSet) outcome" where
  "remove_range_by_length B L len s =
    (case rb_lower_bound L len (length_set s) of
       None \<Rightarrow> Err ''there is no free range big enough''
     | Some free \<Rightarrow>
         omap (Pair (f_base free))
           (remove_range_by_base_unchecked B L (f_base free) len (f_base free) (f_length free) s))"

text \<open>
  \<open>rb_cursor_get n t\<close> is what \<^verbatim>\<open>get\<close> returns on the cursor that
  \<^verbatim>\<open>RBTree::cursor\<close> makes, after \<open>n\<close> calls of \<^verbatim>\<open>move_next\<close>. The loop of
  \<^verbatim>\<open>Clone\<close> runs until it is \<open>None\<close>.
\<close>

partial_function (option) clone_loop ::
  "'b rbtree_ops \<Rightarrow> 'l rbtree_ops \<Rightarrow> 'b \<Rightarrow> nat \<Rightarrow> ('b, 'l) FreeSet \<Rightarrow> ('b, 'l) FreeSet option" where
  "clone_loop B L t n new =
    (case rb_cursor_get B n t of
       None \<Rightarrow> Some new
     | Some free \<Rightarrow> clone_loop B L t (n + 1) (add_to_sets B L (f_base free) (f_length free) new))"

definition freeset_clone ::
  "'b rbtree_ops \<Rightarrow> 'l rbtree_ops \<Rightarrow> ('b, 'l) FreeSet \<Rightarrow> ('b, 'l) FreeSet option" where
  "freeset_clone B L s = clone_loop B L (base_set s) 0 (freeset_new B L)"

subsection \<open>Abstraction and invariant\<close>

definition range_of :: "Free \<Rightarrow> addr set" where
  "range_of f = {f_base f ..< f_base f + f_length f}"

definition free_addrs :: "Free set \<Rightarrow> addr set" where
  "free_addrs F = (\<Union>f\<in>F. range_of f)"

definition apart :: "Free \<Rightarrow> Free \<Rightarrow> bool" where
  "apart f g \<longleftrightarrow> f_base f + f_length f \<le> f_base g \<or> f_base g + f_length g \<le> f_base f"

definition ranges_ok :: "Free set \<Rightarrow> bool" where
  "ranges_ok F \<longleftrightarrow> finite F \<and>
     (\<forall>f\<in>F. 0 < f_length f \<and> f_base f + f_length f \<le> USIZE_MAX) \<and>
     (\<forall>f\<in>F. \<forall>g\<in>F. f \<noteq> g \<longrightarrow> apart f g)"

definition coalesced :: "Free set \<Rightarrow> bool" where
  "coalesced F \<longleftrightarrow> (\<forall>f\<in>F. \<forall>g\<in>F. f_base f + f_length f \<noteq> f_base g)"

definition freeset_inv ::
  "('b \<Rightarrow> Free list) \<Rightarrow> ('l \<Rightarrow> Free list) \<Rightarrow> ('b, 'l) FreeSet \<Rightarrow> bool" where
  "freeset_inv eb el s \<longleftrightarrow>
     mset (eb (base_set s)) = mset (el (length_set s)) \<and>
     distinct (eb (base_set s)) \<and> ranges_ok (set (eb (base_set s)))"

definition free_nodes :: "('b \<Rightarrow> Free list) \<Rightarrow> ('b, 'l) FreeSet \<Rightarrow> Free set" where
  "free_nodes eb s = set (eb (base_set s))"

subsection \<open>Facts about sets of ranges\<close>

lemma ranges_okD:
  assumes "ranges_ok F" "f \<in> F"
  shows "0 < f_length f" "f_base f + f_length f \<le> USIZE_MAX"
  using assms by (auto simp: ranges_ok_def)

lemma ranges_ok_apart: "ranges_ok F \<Longrightarrow> f \<in> F \<Longrightarrow> g \<in> F \<Longrightarrow> f \<noteq> g \<Longrightarrow> apart f g"
  by (auto simp: ranges_ok_def)

lemma apart_sym: "apart f g \<Longrightarrow> apart g f"
  by (auto simp: apart_def)

lemma ranges_ok_same_base:
  assumes "ranges_ok F" "f \<in> F" "g \<in> F" "f_base f = f_base g"
  shows "f = g"
proof (rule ccontr)
  assume "f \<noteq> g"
  then have "apart f g" using assms ranges_ok_apart by blast
  with assms(4) show False
    using ranges_okD(1) [OF assms(1,2)] ranges_okD(1) [OF assms(1,3)] by (simp add: apart_def)
qed

lemma ranges_ok_insert:
  assumes "ranges_ok F" "0 < f_length f" "f_base f + f_length f \<le> USIZE_MAX"
    "\<And>g. g \<in> F \<Longrightarrow> apart f g"
  shows "ranges_ok (insert f F)"
  using assms by (auto simp: ranges_ok_def dest: apart_sym)

lemma ranges_ok_subset: "ranges_ok F \<Longrightarrow> G \<subseteq> F \<Longrightarrow> ranges_ok G"
  by (auto simp: ranges_ok_def finite_subset subset_iff)

lemma coalesced_subset: "coalesced F \<Longrightarrow> G \<subseteq> F \<Longrightarrow> coalesced G"
  unfolding coalesced_def by blast

lemma apart_disjoint:
  "0 < f_length f \<Longrightarrow> 0 < f_length g \<Longrightarrow> apart f g \<longleftrightarrow> range_of f \<inter> range_of g = {}"
  by (auto simp: apart_def range_of_def)

lemma free_addrs_insert [simp]: "free_addrs (insert f F) = range_of f \<union> free_addrs F"
  by (simp add: free_addrs_def)

lemma free_addrs_empty [simp]: "free_addrs {} = {}"
  by (simp add: free_addrs_def)

lemma free_addrs_remove:
  assumes "ranges_ok F" "f \<in> F"
  shows "free_addrs (F - {f}) = free_addrs F - range_of f"
proof -
  have "range_of g \<inter> range_of f = {}" if "g \<in> F" "g \<noteq> f" for g
    using ranges_ok_apart [OF assms(1) that(1) assms(2) that(2)] apart_disjoint
      ranges_okD(1) [OF assms] ranges_okD(1) [OF assms(1) that(1)] by simp
  with assms(2) show ?thesis unfolding free_addrs_def by blast
qed

lemma coalesced_cut:
  assumes c: "coalesced F" and ok: "ranges_ok F" and f: "f \<in> F"
    and cut: "f_base f \<le> cb" "cb + cl \<le> f_base f + f_length f" and cl: "0 < cl"
  shows "coalesced (F - {f} \<union>
    (if f_base f < cb then {\<lparr>f_base = f_base f, f_length = cb - f_base f\<rparr>} else {}) \<union>
    (if cb + cl < f_base f + f_length f
     then {\<lparr>f_base = cb + cl, f_length = f_base f + f_length f - (cb + cl)\<rparr>} else {}))"
    (is "coalesced (_ \<union> (if ?c1 then {?lo} else {}) \<union> (if ?c2 then {?hi} else {}))")
  unfolding coalesced_def
proof (intro ballI)
  fix x y
  assume x: "x \<in> F - {f} \<union> (if ?c1 then {?lo} else {}) \<union> (if ?c2 then {?hi} else {})"
    and y: "y \<in> F - {f} \<union> (if ?c1 then {?lo} else {}) \<union> (if ?c2 then {?hi} else {})"
  have end_ne: "f_base g + f_length g \<noteq> f_base f" "f_base f + f_length f \<noteq> f_base g" if "g \<in> F - {f}" for g
    using c f that by (auto simp: coalesced_def)
  have cut_ne: "f_base g + f_length g \<noteq> cb + cl" "cb \<noteq> f_base g" if "g \<in> F - {f}" for g
    using ranges_ok_apart [OF ok _ f, of g] ranges_okD(1) [OF ok, of g] that cut cl
    by (auto simp: apart_def)
  from x have "x \<in> F - {f} \<or> ?c1 \<and> x = ?lo \<or> ?c2 \<and> x = ?hi" by (simp split: if_splits)
  moreover from y have "y \<in> F - {f} \<or> ?c1 \<and> y = ?lo \<or> ?c2 \<and> y = ?hi" by (simp split: if_splits)
  moreover have "f_base x + f_length x \<noteq> f_base y" if "x \<in> F - {f}" "y \<in> F - {f}"
    using c that by (simp add: coalesced_def)
  ultimately show "f_base x + f_length x \<noteq> f_base y"
    using end_ne cut_ne cut cl by (elim disjE conjE) simp_all
qed

lemma mem_free_addrs: "a \<in> free_addrs F \<longleftrightarrow> (\<exists>f\<in>F. f_base f \<le> a \<and> a < f_base f + f_length f)"
  by (auto simp: free_addrs_def range_of_def)

lemma one_node:
  assumes "ranges_ok F" "coalesced F" "0 < len" "{base ..< base + len} \<subseteq> free_addrs F"
  shows "\<exists>f\<in>F. f_base f \<le> base \<and> base + len \<le> f_base f + f_length f"
proof (rule ccontr)
  assume no: "\<not> ?thesis"
  have "base \<in> free_addrs F" using assms(3,4) by auto
  then obtain f where f: "f \<in> F" "f_base f \<le> base" "base < f_base f + f_length f"
    by (auto simp: mem_free_addrs)
  then have "f_base f + f_length f \<in> {base ..< base + len}" using no by force
  then obtain g where g: "g \<in> F" "f_base g \<le> f_base f + f_length f"
    "f_base f + f_length f < f_base g + f_length g"
    using assms(4) mem_free_addrs by blast
  then have "f \<noteq> g" by auto
  then have "apart f g" using ranges_ok_apart [OF assms(1) f(1) g(1)] by blast
  then have "f_base f + f_length f = f_base g"
    using g(2,3) f ranges_okD(1) [OF assms(1) f(1)] by (auto simp: apart_def)
  then show False using assms(2) f(1) g(1) by (auto simp: coalesced_def)
qed

subsection \<open>The documented behaviour of the tree\<close>

locale rb_tree =
  fixes key :: "Free \<Rightarrow> usize" and ops :: "'t rbtree_ops" and elems :: "'t \<Rightarrow> Free list"
  assumes elems_sorted: "sorted (map key (elems t))"
    and elems_new: "elems (rb_new ops) = []"
    and elems_insert: "mset (elems (rb_insert ops f t)) = add_mset f (mset (elems t))"
    and elems_remove: "f \<in> set (elems t) \<Longrightarrow> mset (elems (rb_remove ops f t)) = mset (elems t) - {#f#}"
    and find_None: "rb_find ops k t = None \<Longrightarrow> f \<in> set (elems t) \<Longrightarrow> key f \<noteq> k"
    and find_Some: "rb_find ops k t = Some f \<Longrightarrow> f \<in> set (elems t) \<and> key f = k"
    and upper_bound: "rb_upper_bound ops k t =
      (let below = filter (\<lambda>f. key f \<le> k) (elems t) in if below = [] then None else Some (last below))"
    and lower_bound: "rb_lower_bound ops k t = List.find (\<lambda>f. k \<le> key f) (elems t)"
    and cursor_null: "rb_cursor_get ops 0 t = None"
begin

lemma upper_None: "rb_upper_bound ops k t = None \<Longrightarrow> f \<in> set (elems t) \<Longrightarrow> k < key f"
  by (auto simp: upper_bound Let_def filter_empty_conv split: if_splits)

lemma upper_Some:
  assumes "rb_upper_bound ops k t = Some f"
  shows "f \<in> set (elems t)" "key f \<le> k"
    "\<And>g. g \<in> set (elems t) \<Longrightarrow> key g \<le> k \<Longrightarrow> key g \<le> key f"
proof -
  let ?below = "filter (\<lambda>f. key f \<le> k) (elems t)"
  have ne: "?below \<noteq> []" and f: "f = last ?below"
    using assms by (auto simp: upper_bound Let_def split: if_splits)
  have "f \<in> set ?below" using last_in_set [OF ne] f by simp
  then show "f \<in> set (elems t)" "key f \<le> k" by auto
  have "sorted (map key ?below)"
    by (rule sorted_filter [OF elems_sorted])
  then have "key g \<le> key f" if "g \<in> set ?below" for g
    using ne f that by (cases ?below rule: rev_cases) (auto simp: sorted_append)
  then show "\<And>g. g \<in> set (elems t) \<Longrightarrow> key g \<le> k \<Longrightarrow> key g \<le> key f" by simp
qed

lemma lower_None: "rb_lower_bound ops k t = None \<Longrightarrow> f \<in> set (elems t) \<Longrightarrow> key f < k"
  by (auto simp: lower_bound find_None_iff)

lemma lower_Some:
  assumes "rb_lower_bound ops k t = Some f"
  shows "f \<in> set (elems t)" "k \<le> key f"
    "\<And>g. g \<in> set (elems t) \<Longrightarrow> k \<le> key g \<Longrightarrow> key f \<le> key g"
proof -
  obtain i where i: "i < length (elems t)" "k \<le> key (elems t ! i)" "f = elems t ! i"
    "\<And>j. j < i \<Longrightarrow> \<not> k \<le> key (elems t ! j)"
    using assms unfolding lower_bound find_Some_iff by blast
  then show "f \<in> set (elems t)" "k \<le> key f" by auto
  fix g assume "g \<in> set (elems t)" "k \<le> key g"
  then obtain j where j: "j < length (elems t)" "g = elems t ! j" "i \<le> j"
    using i(4) by (metis in_set_conv_nth not_less)
  then show "key f \<le> key g"
    using i sorted_nth_mono [OF elems_sorted, of i j t] by simp
qed

end

locale freeset_trees =
  B: rb_tree f_base B eb + L: rb_tree f_length L el
  for B :: "'b rbtree_ops" and eb :: "'b \<Rightarrow> Free list"
    and L :: "'l rbtree_ops" and el :: "'l \<Rightarrow> Free list"
begin

lemma inv_ranges: "freeset_inv eb el s \<Longrightarrow> ranges_ok (free_nodes eb s)"
  by (simp add: freeset_inv_def free_nodes_def)

lemma inv_length_set: "freeset_inv eb el s \<Longrightarrow> set (el (length_set s)) = free_nodes eb s"
  unfolding freeset_inv_def free_nodes_def by (metis mset_eq_setD)

lemma new_inv: "freeset_inv eb el (freeset_new B L)" "free_nodes eb (freeset_new B L) = {}"
  by (simp_all add: freeset_new_def freeset_inv_def free_nodes_def B.elems_new L.elems_new ranges_ok_def)

lemma add_to_sets_inv:
  assumes "freeset_inv eb el s" "0 < len" "base + len \<le> USIZE_MAX"
    "\<And>g. g \<in> free_nodes eb s \<Longrightarrow> apart \<lparr>f_base = base, f_length = len\<rparr> g"
  shows "freeset_inv eb el (add_to_sets B L base len s)"
    "free_nodes eb (add_to_sets B L base len s) = insert \<lparr>f_base = base, f_length = len\<rparr> (free_nodes eb s)"
proof -
  let ?f = "\<lparr>f_base = base, f_length = len\<rparr>"
  let ?s = "add_to_sets B L base len s"
  have mb: "mset (eb (base_set ?s)) = add_mset ?f (mset (eb (base_set s)))"
    and ml: "mset (el (length_set ?s)) = add_mset ?f (mset (el (length_set s)))"
    by (simp_all add: add_to_sets_def B.elems_insert L.elems_insert Let_def)
  have mb': "mset (eb (base_set ?s)) = mset (?f # eb (base_set s))"
    using mb by simp
  show nodes: "free_nodes eb ?s = insert ?f (free_nodes eb s)"
    unfolding free_nodes_def using mset_eq_setD [OF mb'] by simp
  have "?f \<notin> free_nodes eb s"
    using assms(2) assms(4) [of ?f] by (auto simp: apart_def)
  then have "distinct (eb (base_set ?s))"
    using mset_eq_imp_distinct_iff [OF mb'] assms(1) by (simp add: free_nodes_def freeset_inv_def)
  moreover have "ranges_ok (free_nodes eb ?s)"
    unfolding nodes using assms inv_ranges by (intro ranges_ok_insert) auto
  ultimately show "freeset_inv eb el ?s"
    using mb ml assms(1) by (simp add: freeset_inv_def free_nodes_def)
qed

lemma remove_from_sets_inv:
  assumes "freeset_inv eb el s" "f \<in> free_nodes eb s"
  obtains s' where "remove_from_sets B L (f_base f) s = Ok s'" "freeset_inv eb el s'"
    "free_nodes eb s' = free_nodes eb s - {f}"
proof -
  let ?s = "\<lparr>base_set = rb_remove B f (base_set s), length_set = rb_remove L f (length_set s)\<rparr>"
  have "rb_find B (f_base f) (base_set s) = Some f"
  proof (cases "rb_find B (f_base f) (base_set s)")
    case None
    with B.find_None assms(2) show ?thesis unfolding free_nodes_def by blast
  next
    case (Some g)
    then have "g \<in> free_nodes eb s" "f_base g = f_base f"
      using B.find_Some [OF Some] by (auto simp: free_nodes_def)
    with Some assms show ?thesis
      using ranges_ok_same_base [OF inv_ranges] by blast
  qed
  then have ok: "remove_from_sets B L (f_base f) s = Ok ?s"
    by (simp add: remove_from_sets_def)
  have inl: "f \<in> set (el (length_set s))" using assms inv_length_set by simp
  have mb: "mset (eb (base_set ?s)) = mset (eb (base_set s)) - {#f#}"
    and ml: "mset (el (length_set ?s)) = mset (el (length_set s)) - {#f#}"
    using B.elems_remove [of f "base_set s"] L.elems_remove [OF inl] assms(2)
    by (simp_all add: free_nodes_def)
  have d: "distinct (eb (base_set s))" using assms(1) by (simp add: freeset_inv_def)
  have mb': "mset (eb (base_set ?s)) = mset (remove1 f (eb (base_set s)))"
    using mb by simp
  have nodes: "free_nodes eb ?s = free_nodes eb s - {f}"
    unfolding free_nodes_def using mset_eq_setD [OF mb'] d by (simp add: set_remove1_eq)
  have "distinct (eb (base_set ?s))"
    using mset_eq_imp_distinct_iff [OF mb'] d by simp
  moreover have "ranges_ok (free_nodes eb ?s)"
    unfolding nodes using inv_ranges [OF assms(1)] by (rule ranges_ok_subset) auto
  ultimately have "freeset_inv eb el ?s"
    using mb ml assms(1) by (simp add: freeset_inv_def free_nodes_def)
  then show thesis using that ok nodes by blast
qed

lemma coalesce_left_cases [consumes 1, case_names conflict none left]:
  assumes "freeset_inv eb el s"
  obtains (conflict) e where "base \<in> free_addrs (free_nodes eb s)" "coalesce_left B base s = Err e"
  | (none) "base \<notin> free_addrs (free_nodes eb s)" "coalesce_left B base s = Ok None"
      "\<And>f. f \<in> free_nodes eb s \<Longrightarrow> f_base f + f_length f \<noteq> base"
  | (left) f where "base \<notin> free_addrs (free_nodes eb s)" "f \<in> free_nodes eb s"
      "f_base f + f_length f = base" "coalesce_left B base s = Ok (Some (f_base f, f_length f))"
proof (cases "rb_upper_bound B base (base_set s)")
  case None
  then have "base < f_base f" if "f \<in> free_nodes eb s" for f
    using B.upper_None [OF None] that by (simp add: free_nodes_def)
  then show thesis
    using none None by (force simp: coalesce_left_def mem_free_addrs)
next
  case (Some f)
  let ?e = "f_base f + f_length f"
  have f: "f \<in> free_nodes eb s" "f_base f \<le> base"
    and max: "\<And>g. g \<in> free_nodes eb s \<Longrightarrow> f_base g \<le> base \<Longrightarrow> f_base g \<le> f_base f"
    using B.upper_Some [OF Some] by (simp_all add: free_nodes_def)
  note ok = inv_ranges [OF assms]
  note fin = ranges_okD [OF ok f(1)]
  have out: "coalesce_left B base s =
    (if base < ?e then Err ''added range conflicts with upper part of existing range''
     else if ?e = base then Ok (Some (f_base f, f_length f)) else Ok None)"
    using Some fin by (simp add: coalesce_left_def)
  have before: "f_base g + f_length g \<le> f_base f" if "g \<in> free_nodes eb s" "g \<noteq> f" "f_base g \<le> base" for g
    using ranges_ok_apart [OF ok that(1) f(1) that(2)] max [OF that(1,3)] fin by (auto simp: apart_def)
  show thesis
  proof (cases "base < ?e")
    case True
    then show thesis using conflict out f by (force simp: mem_free_addrs)
  next
    case False
    then have free: "base \<notin> free_addrs (free_nodes eb s)"
      using before f(2) by (force simp: mem_free_addrs)
    have "f_base g + f_length g \<noteq> base" if "g \<in> free_nodes eb s" "?e \<noteq> base" for g
      using before [OF that(1)] that(2) ranges_okD(1) [OF ok that(1)] fin False
      by (cases "g = f") force+
    with free show thesis using none left out f False by (cases "?e = base") auto
  qed
qed

lemma coalesce_right_cases [consumes 3, case_names conflict none right]:
  assumes "freeset_inv eb el s" "base \<notin> free_addrs (free_nodes eb s)" "base + len \<le> USIZE_MAX"
  obtains (conflict) e where "{base ..< base + len} \<inter> free_addrs (free_nodes eb s) \<noteq> {}"
      "coalesce_right B base len s = Err e"
  | (none) "{base ..< base + len} \<inter> free_addrs (free_nodes eb s) = {}"
      "coalesce_right B base len s = Ok None"
      "\<And>f. f \<in> free_nodes eb s \<Longrightarrow> f_base f \<noteq> base + len"
  | (right) f where "{base ..< base + len} \<inter> free_addrs (free_nodes eb s) = {}"
      "f \<in> free_nodes eb s" "f_base f = base + len"
      "coalesce_right B base len s = Ok (Some (f_base f, f_length f))"
proof -
  note ok = inv_ranges [OF assms(1)]
  have after: "a < base" if "g \<in> free_nodes eb s" "f_base g < base" "a < f_base g + f_length g" for a g
    using assms(2) that by (meson le_trans less_imp_le_nat mem_free_addrs not_less)
  show thesis
  proof (cases "rb_lower_bound B base (base_set s)")
    case None
    then have below: "f_base f < base" if "f \<in> free_nodes eb s" for f
      using B.lower_None [OF None] that by (simp add: free_nodes_def)
    then have "{base ..< base + len} \<inter> free_addrs (free_nodes eb s) = {}"
      using after by (force simp: mem_free_addrs)
    with below show thesis
      using none None by (force simp: coalesce_right_def)
  next
    case (Some f)
    have f: "f \<in> free_nodes eb s" "base \<le> f_base f"
      and min: "\<And>g. g \<in> free_nodes eb s \<Longrightarrow> base \<le> f_base g \<Longrightarrow> f_base f \<le> f_base g"
      using B.lower_Some [OF Some] by (simp_all add: free_nodes_def)
    have out: "coalesce_right B base len s =
      (if f_base f < base + len then Err ''added range conflicts with lower part of existing range''
       else if base + len = f_base f then Ok (Some (f_base f, f_length f)) else Ok None)"
      using Some assms(3) by (simp add: coalesce_right_def)
    show thesis
    proof (cases "f_base f < base + len")
      case True
      then have "f_base f \<in> {base ..< base + len} \<inter> free_addrs (free_nodes eb s)"
        using f ranges_okD(1) [OF ok f(1)] by (auto simp: mem_free_addrs)
      then have ne: "{base ..< base + len} \<inter> free_addrs (free_nodes eb s) \<noteq> {}" by blast
      show thesis using conflict [OF ne] out True by simp
    next
      case False
      have "a \<notin> free_addrs (free_nodes eb s)" if "base \<le> a" "a < base + len" for a
        using after min that False by (force simp: mem_free_addrs not_less)
      then have "{base ..< base + len} \<inter> free_addrs (free_nodes eb s) = {}" by auto
      moreover have "f_base g \<noteq> base + len" if "g \<in> free_nodes eb s" "base + len \<noteq> f_base f" for g
        using min [OF that(1)] that(2) False by auto
      ultimately show thesis using none right out f False by (cases "base + len = f_base f") auto
    qed
  qed
qed

lemma add_range_conflict:
  assumes "freeset_inv eb el s" "0 < len" "base + len \<le> USIZE_MAX"
    "{base ..< base + len} \<inter> free_addrs (free_nodes eb s) \<noteq> {}"
  shows "\<exists>e. add_range B L base len s = Err e"
proof -
  have right: "\<exists>e. coalesce_right B base len s = Err e" if "base \<notin> free_addrs (free_nodes eb s)"
    using assms(1) that assms(3)
  proof (cases rule: coalesce_right_cases)
    case (conflict e)
    then show ?thesis by blast
  qed (use assms(4) in blast)+
  show ?thesis
    using assms(1)
  proof (cases rule: coalesce_left_cases [where base = base])
    case (conflict e)
    then show ?thesis using assms(2) by (simp add: add_range_def)
  next
    case none
    with right assms(2) show ?thesis by (auto simp: add_range_def)
  next
    case (left f)
    with right assms(2) show ?thesis by (auto simp: add_range_def)
  qed
qed

text \<open>
  The two merging steps of \<open>add_range\<close>. A \<open>gap\<close> is a range that is apart
  from every remaining node; each step removes at most one neighbour, extends
  the gap by it and keeps the free addresses outside the gap.
\<close>

lemma merge_left:
  assumes inv: "freeset_inv eb el s" and len: "0 < len" "base + len \<le> USIZE_MAX"
    and disj: "{base ..< base + len} \<inter> free_addrs (free_nodes eb s) = {}"
    and left: "coalesce_left B base s = Ok left"
  obtains cb cl s1 where
    "(case left of None \<Rightarrow> Ok (base, len, s)
      | Some (free_base, free_length) \<Rightarrow>
          obind (uadd len free_length) (\<lambda>cl.
          obind (remove_from_sets B L free_base s) (\<lambda>s'. Ok (free_base, cl, s')))) = Ok (cb, cl, s1)"
    "freeset_inv eb el s1" "cb \<le> base" "cb + cl = base + len" "free_nodes eb s1 \<subseteq> free_nodes eb s"
    "{cb ..< base + len} \<inter> free_addrs (free_nodes eb s1) = {}"
    "free_addrs (free_nodes eb s1) \<union> {cb ..< base} = free_addrs (free_nodes eb s)"
    "\<forall>f\<in>free_nodes eb s. base + len \<le> f_base f \<longrightarrow> f \<in> free_nodes eb s1"
    "coalesced (free_nodes eb s) \<longrightarrow> (\<forall>f\<in>free_nodes eb s1. f_base f + f_length f \<noteq> cb)"
  using inv
proof (cases rule: coalesce_left_cases [where base = base])
  case (conflict e)
  with left show ?thesis by simp
next
  case none
  then have "left = None" using left by simp
  then show ?thesis using that [of base len s] none inv disj by simp
next
  case (left f)
  note f = left
  from f(2) obtain s1 where s1: "remove_from_sets B L (f_base f) s = Ok s1" "freeset_inv eb el s1"
    "free_nodes eb s1 = free_nodes eb s - {f}"
    by (rule remove_from_sets_inv [OF inv])
  note ok = inv_ranges [OF inv]
  have lf: "left = Some (f_base f, f_length f)" using f(4) assms(5) by simp
  have rem: "free_addrs (free_nodes eb s1) = free_addrs (free_nodes eb s) - {f_base f ..< base}"
    using free_addrs_remove [OF ok f(2)] s1(3) f(3) by (simp add: range_of_def)
  have sub: "{f_base f ..< base} \<subseteq> free_addrs (free_nodes eb s)"
    using f(2,3) by (auto simp: mem_free_addrs)
  have "{f_base f ..< base + len} \<inter> free_addrs (free_nodes eb s1) = {}"
    using rem disj f(3) by (auto simp: not_less)
  moreover have "coalesced (free_nodes eb s) \<Longrightarrow> g \<in> free_nodes eb s1 \<Longrightarrow> f_base g + f_length g \<noteq> f_base f" for g
    using f(2) s1(3) by (simp add: coalesced_def)
  ultimately show ?thesis
    using that [of "f_base f" "len + f_length f" s1] lf s1 rem sub f(3) len
    by (force simp: add.commute)
qed

lemma merge_right:
  assumes inv: "freeset_inv eb el s1" and cl: "0 < cl" "cb + cl \<le> USIZE_MAX"
    and disj: "{cb ..< cb + cl} \<inter> free_addrs (free_nodes eb s1) = {}"
    and right: "right = None \<and> (\<forall>f\<in>free_nodes eb s1. f_base f \<noteq> cb + cl) \<or>
      (\<exists>f\<in>free_nodes eb s1. f_base f = cb + cl \<and> right = Some (f_base f, f_length f))"
  obtains cl' s2 where
    "(case right of None \<Rightarrow> Ok (cl, s1)
      | Some (free_base, free_length) \<Rightarrow>
          obind (uadd cl free_length) (\<lambda>cl'.
          obind (remove_from_sets B L free_base s1) (\<lambda>s'. Ok (cl', s')))) = Ok (cl', s2)"
    "freeset_inv eb el s2" "cl \<le> cl'" "cb + cl' \<le> USIZE_MAX" "free_nodes eb s2 \<subseteq> free_nodes eb s1"
    "{cb ..< cb + cl'} \<inter> free_addrs (free_nodes eb s2) = {}"
    "free_addrs (free_nodes eb s2) \<union> {cb + cl ..< cb + cl'} = free_addrs (free_nodes eb s1)"
    "coalesced (free_nodes eb s1) \<longrightarrow> (\<forall>f\<in>free_nodes eb s2. f_base f \<noteq> cb + cl')"
  using right
proof (elim disjE conjE bexE)
  assume "right = None" "\<forall>f\<in>free_nodes eb s1. f_base f \<noteq> cb + cl"
  then show ?thesis using that [of cl s1] inv disj cl by simp
next
  fix f assume f: "f \<in> free_nodes eb s1" "f_base f = cb + cl" "right = Some (f_base f, f_length f)"
  from f(1) obtain s2 where s2: "remove_from_sets B L (f_base f) s1 = Ok s2" "freeset_inv eb el s2"
    "free_nodes eb s2 = free_nodes eb s1 - {f}"
    by (rule remove_from_sets_inv [OF inv])
  note ok = inv_ranges [OF inv]
  note fin = ranges_okD [OF ok f(1)]
  let ?cl = "cl + f_length f"
  have rem: "free_addrs (free_nodes eb s2) = free_addrs (free_nodes eb s1) - {cb + cl ..< cb + ?cl}"
    using free_addrs_remove [OF ok f(1)] s2(3) f(2) by (simp add: range_of_def add.assoc)
  have sub: "{cb + cl ..< cb + ?cl} \<subseteq> free_addrs (free_nodes eb s1)"
    using f(1,2) by (auto simp: mem_free_addrs intro!: bexI [of _ f])
  have "{cb ..< cb + ?cl} \<inter> free_addrs (free_nodes eb s2) = {}"
    using rem disj by (auto simp: not_less disjoint_iff)
  moreover have "coalesced (free_nodes eb s1) \<Longrightarrow> g \<in> free_nodes eb s2 \<Longrightarrow> f_base g \<noteq> cb + ?cl" for g
    using f(1,2) s2(3) unfolding coalesced_def by (metis Diff_iff add.assoc)
  ultimately show ?thesis
    using that [of ?cl s2] f s2 rem sub fin by (simp add: Un_absorb2)
qed

lemma add_node:
  assumes "freeset_inv eb el s" "0 < len" "base + len \<le> USIZE_MAX"
    "{base ..< base + len} \<inter> free_addrs (free_nodes eb s) = {}"
  shows "freeset_inv eb el (add_to_sets B L base len s)"
    "free_nodes eb (add_to_sets B L base len s) = insert \<lparr>f_base = base, f_length = len\<rparr> (free_nodes eb s)"
proof -
  have "apart \<lparr>f_base = base, f_length = len\<rparr> g" if "g \<in> free_nodes eb s" for g
  proof -
    have "range_of \<lparr>f_base = base, f_length = len\<rparr> \<inter> range_of g = {}"
      using assms(4) that unfolding range_of_def free_addrs_def by fastforce
    then show ?thesis
      using apart_disjoint ranges_okD(1) [OF inv_ranges [OF assms(1)] that] assms(2) by simp
  qed
  from add_to_sets_inv [OF assms(1-3) this]
  show "freeset_inv eb el (add_to_sets B L base len s)"
    "free_nodes eb (add_to_sets B L base len s) = insert \<lparr>f_base = base, f_length = len\<rparr> (free_nodes eb s)"
    by auto
qed

lemma add_range_ok:
  assumes inv: "freeset_inv eb el s" and len: "0 < len" "base + len \<le> USIZE_MAX"
    and disj: "{base ..< base + len} \<inter> free_addrs (free_nodes eb s) = {}"
  obtains s' where "add_range B L base len s = Ok s'" "freeset_inv eb el s'"
    "free_addrs (free_nodes eb s') = free_addrs (free_nodes eb s) \<union> {base ..< base + len}"
    "coalesced (free_nodes eb s) \<Longrightarrow> coalesced (free_nodes eb s')"
proof -
  have base: "base \<notin> free_addrs (free_nodes eb s)" using disj len(1) by (auto simp: disjoint_iff)
  obtain left where left: "coalesce_left B base s = Ok left"
    using inv base by (cases rule: coalesce_left_cases [where base = base]) auto
  obtain right where right: "coalesce_right B base len s = Ok right"
    "right = None \<and> (\<forall>f\<in>free_nodes eb s. f_base f \<noteq> base + len) \<or>
     (\<exists>f\<in>free_nodes eb s. f_base f = base + len \<and> right = Some (f_base f, f_length f))"
    using inv base len(2) disj by (cases rule: coalesce_right_cases) blast+
  obtain cb cl s1 where m1: "(case left of None \<Rightarrow> Ok (base, len, s)
      | Some (free_base, free_length) \<Rightarrow>
          obind (uadd len free_length) (\<lambda>cl.
          obind (remove_from_sets B L free_base s) (\<lambda>s'. Ok (free_base, cl, s')))) = Ok (cb, cl, s1)"
    and s1: "freeset_inv eb el s1" "cb \<le> base" "cb + cl = base + len" "free_nodes eb s1 \<subseteq> free_nodes eb s"
    "{cb ..< base + len} \<inter> free_addrs (free_nodes eb s1) = {}"
    "free_addrs (free_nodes eb s1) \<union> {cb ..< base} = free_addrs (free_nodes eb s)"
    "\<forall>f\<in>free_nodes eb s. base + len \<le> f_base f \<longrightarrow> f \<in> free_nodes eb s1"
    "coalesced (free_nodes eb s) \<longrightarrow> (\<forall>f\<in>free_nodes eb s1. f_base f + f_length f \<noteq> cb)"
    by (rule merge_left [OF inv len disj left])
  have "0 < cl" "cb + cl \<le> USIZE_MAX" "{cb ..< cb + cl} \<inter> free_addrs (free_nodes eb s1) = {}"
    "right = None \<and> (\<forall>f\<in>free_nodes eb s1. f_base f \<noteq> cb + cl) \<or>
     (\<exists>f\<in>free_nodes eb s1. f_base f = cb + cl \<and> right = Some (f_base f, f_length f))"
    using s1 len right(2) by auto
  then obtain cl' s2 where m2: "(case right of None \<Rightarrow> Ok (cl, s1)
      | Some (free_base, free_length) \<Rightarrow>
          obind (uadd cl free_length) (\<lambda>cl'.
          obind (remove_from_sets B L free_base s1) (\<lambda>s'. Ok (cl', s')))) = Ok (cl', s2)"
    and s2: "freeset_inv eb el s2" "cl \<le> cl'" "cb + cl' \<le> USIZE_MAX" "free_nodes eb s2 \<subseteq> free_nodes eb s1"
    "{cb ..< cb + cl'} \<inter> free_addrs (free_nodes eb s2) = {}"
    "free_addrs (free_nodes eb s2) \<union> {cb + cl ..< cb + cl'} = free_addrs (free_nodes eb s1)"
    "coalesced (free_nodes eb s1) \<longrightarrow> (\<forall>f\<in>free_nodes eb s2. f_base f \<noteq> cb + cl')"
    by (rule merge_right [OF s1(1)])
  let ?s' = "add_to_sets B L cb cl' s2"
  have cl': "0 < cl'" using s1(2,3) s2(2) len by simp
  note new = add_node [OF s2(1) cl' s2(3,5)]
  have "add_range B L base len s = Ok ?s'"
    using len by (simp add: add_range_def left right(1) m1 m2)
  moreover have "free_addrs (free_nodes eb ?s') = free_addrs (free_nodes eb s) \<union> {base ..< base + len}"
  proof -
    have "{cb ..< cb + cl'} = {cb ..< base} \<union> {base ..< base + len} \<union> {cb + cl ..< cb + cl'}"
      using s1(2,3) s2(2) by auto
    then show ?thesis using s1(6) s2(6) new(2) by (auto simp: range_of_def)
  qed
  moreover have "coalesced (free_nodes eb ?s')" if "coalesced (free_nodes eb s)"
  proof -
    have "coalesced (free_nodes eb s1)" "coalesced (free_nodes eb s2)"
      using coalesced_subset that s1(4) s2(4) by blast+
    then show ?thesis
      using s2(4,7) s1(8) that new(2) cl' unfolding coalesced_def by auto
  qed
  ultimately show thesis using that new(1) by blast
qed

lemma unchecked_ok:
  assumes inv: "freeset_inv eb el s" and f: "f \<in> free_nodes eb s"
    and cut: "f_base f \<le> cb" "cb + cl \<le> f_base f + f_length f"
  obtains s' where "remove_range_by_base_unchecked B L cb cl (f_base f) (f_length f) s = Ok s'"
    "freeset_inv eb el s'"
    "free_addrs (free_nodes eb s') = free_addrs (free_nodes eb s) - {cb ..< cb + cl}"
    "coalesced (free_nodes eb s) \<and> 0 < cl \<longrightarrow> coalesced (free_nodes eb s')"
proof -
  let ?e = "f_base f + f_length f"
  let ?lo = "\<lparr>f_base = f_base f, f_length = cb - f_base f\<rparr>"
  let ?hi = "\<lparr>f_base = cb + cl, f_length = ?e - (cb + cl)\<rparr>"
  note ok = inv_ranges [OF inv]
  note fin = ranges_okD [OF ok f]
  from f obtain s0 where s0: "remove_from_sets B L (f_base f) s = Ok s0" "freeset_inv eb el s0"
    "free_nodes eb s0 = free_nodes eb s - {f}"
    by (rule remove_from_sets_inv [OF inv])
  have rem: "free_addrs (free_nodes eb s0) = free_addrs (free_nodes eb s) - {f_base f ..< ?e}"
    using free_addrs_remove [OF ok f] s0(3) by (simp add: range_of_def)
  have sub: "{f_base f ..< ?e} \<subseteq> free_addrs (free_nodes eb s)"
    using f by (auto simp: mem_free_addrs)
  have disj0: "{f_base f ..< cb} \<inter> free_addrs (free_nodes eb s0) = {}"
    using rem cut by (auto simp: disjoint_iff)
  define s1 where "s1 = (if f_base f < cb then add_to_sets B L (f_base f) (cb - f_base f) s0 else s0)"
  have s1: "freeset_inv eb el s1"
    "free_nodes eb s1 = free_nodes eb s0 \<union> (if f_base f < cb then {?lo} else {})"
    using add_node [OF s0(2), of "cb - f_base f" "f_base f"] s0(2) disj0 fin cut
    by (auto simp: s1_def)
  have disj: "{cb + cl ..< ?e} \<inter> free_addrs (free_nodes eb s1) = {}"
    using rem cut s1(2) by (auto simp: range_of_def free_addrs_def disjoint_iff)
  define s2 where "s2 = (if cb + cl < ?e then add_to_sets B L (cb + cl) (?e - (cb + cl)) s1 else s1)"
  have s2: "freeset_inv eb el s2"
    "free_nodes eb s2 = free_nodes eb s1 \<union> (if cb + cl < ?e then {?hi} else {})"
    using add_node [OF s1(1), of "?e - (cb + cl)" "cb + cl"] s1(1) disj fin cut
    by (auto simp: s2_def)
  have "remove_range_by_base_unchecked B L cb cl (f_base f) (f_length f) s = Ok s2"
    using s0(1) fin cut
    by (simp add: remove_range_by_base_unchecked_def s2_def s1_def Let_def add.commute)
  moreover have "free_addrs (free_nodes eb s2) = free_addrs (free_nodes eb s) - {cb ..< cb + cl}"
  proof -
    have "free_addrs (free_nodes eb s2)
        = free_addrs (free_nodes eb s0) \<union> {f_base f ..< cb} \<union> {cb + cl ..< ?e}"
      using s1(2) s2(2) cut by (auto simp: free_addrs_def range_of_def)
    then show ?thesis using rem sub cut by auto
  qed
  moreover have "coalesced (free_nodes eb s2)" if c: "coalesced (free_nodes eb s)" and "0 < cl"
  proof -
    show ?thesis
      unfolding s2(2) s1(2) s0(3) using coalesced_cut [OF c ok f cut \<open>0 < cl\<close>] .
  qed
  ultimately show thesis using that s2(1) by blast
qed

lemma remove_by_base_cases [consumes 3, case_names removed error]:
  assumes inv: "freeset_inv eb el s" and len: "0 < len" "base + len \<le> USIZE_MAX"
  obtains (removed) s' where "remove_range_by_base B L base len s = Ok s'" "freeset_inv eb el s'"
      "{base ..< base + len} \<subseteq> free_addrs (free_nodes eb s)"
      "free_addrs (free_nodes eb s') = free_addrs (free_nodes eb s) - {base ..< base + len}"
      "coalesced (free_nodes eb s) \<longrightarrow> coalesced (free_nodes eb s')"
  | (error) e where "remove_range_by_base B L base len s = Err e"
      "\<And>f. f \<in> free_nodes eb s \<Longrightarrow> f_base f \<le> base \<Longrightarrow> f_base f + f_length f < base + len"
proof (cases "rb_upper_bound B base (base_set s)")
  case None
  then have "base < f_base f" if "f \<in> free_nodes eb s" for f
    using B.upper_None [OF None] that by (simp add: free_nodes_def)
  then show thesis using error None by (force simp: remove_range_by_base_def)
next
  case (Some f)
  have f: "f \<in> free_nodes eb s" "f_base f \<le> base"
    and max: "\<And>g. g \<in> free_nodes eb s \<Longrightarrow> f_base g \<le> base \<Longrightarrow> f_base g \<le> f_base f"
    using B.upper_Some [OF Some] by (simp_all add: free_nodes_def)
  note ok = inv_ranges [OF inv]
  note fin = ranges_okD [OF ok f(1)]
  show thesis
  proof (cases "f_base f + f_length f < base + len")
    case True
    have "f_base g + f_length g < base + len" if "g \<in> free_nodes eb s" "f_base g \<le> base" for g
      using ranges_ok_apart [OF ok that(1) f(1)] max [OF that] True f(2) fin len
      by (cases "g = f") (auto simp: apart_def)
    then show thesis using error Some True fin len by (simp add: remove_range_by_base_def)
  next
    case False
    then have cut: "base + len \<le> f_base f + f_length f" by simp
    have "{base ..< base + len} \<subseteq> free_addrs (free_nodes eb s)"
      using f cut by (force simp: mem_free_addrs)
    moreover have "remove_range_by_base B L base len s
        = remove_range_by_base_unchecked B L base len (f_base f) (f_length f) s"
      using Some False fin len by (simp add: remove_range_by_base_def)
    ultimately show thesis
      using unchecked_ok [OF inv f(1) f(2) cut] removed len(1) by metis
  qed
qed

lemma remove_by_length_cases [consumes 1, case_names removed error]:
  assumes inv: "freeset_inv eb el s"
  obtains (removed) f s' where "remove_range_by_length B L len s = Ok (f_base f, s')" "freeset_inv eb el s'"
      "f \<in> free_nodes eb s" "len \<le> f_length f"
      "\<forall>g\<in>free_nodes eb s. len \<le> f_length g \<longrightarrow> f_length f \<le> f_length g"
      "free_addrs (free_nodes eb s') = free_addrs (free_nodes eb s) - {f_base f ..< f_base f + len}"
      "coalesced (free_nodes eb s) \<and> 0 < len \<longrightarrow> coalesced (free_nodes eb s')"
  | (error) e where "remove_range_by_length B L len s = Err e"
      "\<And>f. f \<in> free_nodes eb s \<Longrightarrow> f_length f < len"
proof (cases "rb_lower_bound L len (length_set s)")
  case None
  then show thesis
    using error L.lower_None [OF None] inv_length_set [OF inv] by (simp add: remove_range_by_length_def)
next
  case (Some f)
  have f: "f \<in> free_nodes eb s" "len \<le> f_length f"
    and min: "\<forall>g\<in>free_nodes eb s. len \<le> f_length g \<longrightarrow> f_length f \<le> f_length g"
    using L.lower_Some [OF Some] inv_length_set [OF inv] by auto
  obtain s' where s': "remove_range_by_base_unchecked B L (f_base f) len (f_base f) (f_length f) s = Ok s'"
    "freeset_inv eb el s'"
    "free_addrs (free_nodes eb s') = free_addrs (free_nodes eb s) - {f_base f ..< f_base f + len}"
    "coalesced (free_nodes eb s) \<and> 0 < len \<longrightarrow> coalesced (free_nodes eb s')"
    by (rule unchecked_ok [OF inv f(1), of "f_base f" len]) (use f(2) in auto)
  then have "remove_range_by_length B L len s = Ok (f_base f, s')"
    using Some by (simp add: remove_range_by_length_def)
  with s' f min show thesis using removed by blast
qed

end

subsection \<open>The operations on a list\<close>

definition list_ops :: "(Free \<Rightarrow> usize) \<Rightarrow> Free list rbtree_ops" where
  "list_ops key = \<lparr>
     rb_new = [],
     rb_insert = Cons,
     rb_find = (\<lambda>k t. List.find (\<lambda>f. key f = k) (sort_key key t)),
     rb_remove = remove1,
     rb_upper_bound = (\<lambda>k t. let below = filter (\<lambda>f. key f \<le> k) (sort_key key t)
                              in if below = [] then None else Some (last below)),
     rb_lower_bound = (\<lambda>k t. List.find (\<lambda>f. k \<le> key f) (sort_key key t)),
     rb_cursor_get = (\<lambda>n t. if 0 < n \<and> n \<le> length t then Some (sort_key key t ! (n - 1)) else None) \<rparr>"

lemma list_ops_rb_tree: "rb_tree key (list_ops key) (sort_key key)"
  by unfold_locales
     (auto simp: list_ops_def find_None_iff dest: find_SomeD)

interpretation base_list: rb_tree f_base "list_ops f_base" "sort_key f_base"
  by (rule list_ops_rb_tree)

interpretation length_list: rb_tree f_length "list_ops f_length" "sort_key f_length"
  by (rule list_ops_rb_tree)

interpretation list_set:
  freeset_trees "list_ops f_base" "sort_key f_base" "list_ops f_length" "sort_key f_length"
  by unfold_locales

definition list_freeset :: "(usize \<times> usize) list \<Rightarrow> (Free list, Free list) FreeSet" where
  "list_freeset rs = \<lparr>base_set = map (\<lambda>(b, l). \<lparr>f_base = b, f_length = l\<rparr>) rs,
                      length_set = map (\<lambda>(b, l). \<lparr>f_base = b, f_length = l\<rparr>) rs\<rparr>"

subsection \<open>Properties\<close>

text \<open>
  C1. Adding a range to a free set that satisfies the invariant: the call
  succeeds exactly when the range is disjoint from the free addresses, and
  fails with an error otherwise, never with a panic. On success the invariant
  holds again, the free addresses are the old ones together with the range, and
  if no two ranges touched before then none touch after, so neighbours are
  merged. This holds for every tree with the documented behaviour.
\<close>

theorem add_range_is_union:
  assumes "freeset_trees B eb L el" "freeset_inv eb el s" "0 < len" "base + len \<le> USIZE_MAX"
  shows "if {base ..< base + len} \<inter> free_addrs (free_nodes eb s) = {}
    then (\<exists>s'. add_range B L base len s = Ok s' \<and> freeset_inv eb el s' \<and>
           free_addrs (free_nodes eb s') = free_addrs (free_nodes eb s) \<union> {base ..< base + len} \<and>
           (coalesced (free_nodes eb s) \<longrightarrow> coalesced (free_nodes eb s')))
    else (\<exists>e. add_range B L base len s = Err e)"
proof (cases "{base ..< base + len} \<inter> free_addrs (free_nodes eb s) = {}")
  case True
  with freeset_trees.add_range_ok [OF assms True] show ?thesis by metis
next
  case False
  with freeset_trees.add_range_conflict [OF assms False] show ?thesis by simp
qed

theorem add_range_is_union_witness:
  "\<exists>s'. add_range (list_ops f_base) (list_ops f_length) 5 5 (list_freeset [(0, 5), (10, 5)]) = Ok s' \<and>
     free_addrs (free_nodes (sort_key f_base) s') = {0 ..< 5} \<union> {10 ..< 15} \<union> {5 ..< 10} \<and>
     coalesced (free_nodes (sort_key f_base) s')"
proof -
  let ?s = "list_freeset [(0, 5), (10, 5)]"
  have inv: "freeset_inv (sort_key f_base) (sort_key f_length) ?s"
    by (simp add: freeset_inv_def list_freeset_def ranges_ok_def apart_def USIZE_MAX_def)
  have free: "free_nodes (sort_key f_base) ?s
      = {\<lparr>f_base = 0, f_length = 5\<rparr>, \<lparr>f_base = 10, f_length = 5\<rparr>}"
    by (simp add: free_nodes_def list_freeset_def)
  have "{5 ..< 5 + (5::nat)} \<inter> free_addrs (free_nodes (sort_key f_base) ?s) = {}"
    "coalesced (free_nodes (sort_key f_base) ?s)"
    unfolding free by (auto simp: range_of_def coalesced_def)
  then show ?thesis
    using add_range_is_union [OF list_set.freeset_trees_axioms inv, of 5 5]
    by (auto simp: free range_of_def USIZE_MAX_def)
qed

text \<open>
  C2. Removing a given range from a free set with the invariant and with no two
  touching ranges: the call succeeds exactly when every address of the range is
  free, and fails with an error otherwise. On success the range is no longer
  free, every other free address stays free, and the invariant and the
  merging of neighbours are kept.
\<close>

theorem remove_range_by_base_is_difference:
  assumes "freeset_trees B eb L el" "freeset_inv eb el s" "coalesced (free_nodes eb s)"
    "0 < len" "base + len \<le> USIZE_MAX"
  shows "if {base ..< base + len} \<subseteq> free_addrs (free_nodes eb s)
    then (\<exists>s'. remove_range_by_base B L base len s = Ok s' \<and> freeset_inv eb el s' \<and>
           free_addrs (free_nodes eb s') = free_addrs (free_nodes eb s) - {base ..< base + len} \<and>
           coalesced (free_nodes eb s'))
    else (\<exists>e. remove_range_by_base B L base len s = Err e)"
proof (rule freeset_trees.remove_by_base_cases [OF assms(1,2,4,5)], goal_cases)
  case (1 s')
  then show ?case using assms(3) by simp
next
  case error: (2 e)
  have "ranges_ok (free_nodes eb s)"
    using freeset_trees.inv_ranges [OF assms(1,2)] .
  then have "\<not> {base ..< base + len} \<subseteq> free_addrs (free_nodes eb s)"
    using one_node assms(3,4) error(2) by (meson not_less)
  with error(1) show ?case by simp
qed

theorem remove_range_by_base_is_difference_witness:
  "\<exists>s'. remove_range_by_base (list_ops f_base) (list_ops f_length) 6 2 (list_freeset [(0, 3), (5, 5)]) = Ok s' \<and>
     free_addrs (free_nodes (sort_key f_base) s') = {0 ..< 3} \<union> {5 ..< 10} - {6 ..< 8}"
proof -
  let ?s = "list_freeset [(0, 3), (5, 5)]"
  have inv: "freeset_inv (sort_key f_base) (sort_key f_length) ?s"
    by (simp add: freeset_inv_def list_freeset_def ranges_ok_def apart_def USIZE_MAX_def)
  have free: "free_nodes (sort_key f_base) ?s
      = {\<lparr>f_base = 0, f_length = 3\<rparr>, \<lparr>f_base = 5, f_length = 5\<rparr>}"
    by (simp add: free_nodes_def list_freeset_def)
  have "{6 ..< 6 + (2::nat)} \<subseteq> free_addrs (free_nodes (sort_key f_base) ?s)"
    and c: "coalesced (free_nodes (sort_key f_base) ?s)"
    unfolding free by (auto simp: range_of_def coalesced_def)
  then show ?thesis
    using remove_range_by_base_is_difference [OF list_set.freeset_trees_axioms inv c, of 2 6]
    by (auto simp: free range_of_def USIZE_MAX_def)
qed

text \<open>
  C3. Removing a range by length is best fit: the call succeeds exactly when
  some free range is at least as long as asked, the address it returns is the
  start of a shortest such range, and exactly the returned range stops being
  free. When every free range is shorter it fails with an error.
\<close>

theorem remove_range_by_length_best_fit:
  assumes "freeset_trees B eb L el" "freeset_inv eb el s"
  shows "if \<exists>f\<in>free_nodes eb s. len \<le> f_length f
    then (\<exists>f\<in>free_nodes eb s. \<exists>s'. remove_range_by_length B L len s = Ok (f_base f, s') \<and>
           len \<le> f_length f \<and> (\<forall>g\<in>free_nodes eb s. len \<le> f_length g \<longrightarrow> f_length f \<le> f_length g) \<and>
           freeset_inv eb el s' \<and>
           free_addrs (free_nodes eb s') = free_addrs (free_nodes eb s) - {f_base f ..< f_base f + len} \<and>
           (coalesced (free_nodes eb s) \<and> 0 < len \<longrightarrow> coalesced (free_nodes eb s')))
    else (\<exists>e. remove_range_by_length B L len s = Err e)"
proof (rule freeset_trees.remove_by_length_cases [OF assms, of len], goal_cases)
  case (1 f s')
  then show ?case by auto
next
  case (2 e)
  then show ?case using not_less by auto
qed

theorem remove_range_by_length_best_fit_witness:
  "\<exists>s'. remove_range_by_length (list_ops f_base) (list_ops f_length) 2 (list_freeset [(0, 9), (10, 2), (20, 3)])
     = Ok (10, s') \<and> free_addrs (free_nodes (sort_key f_base) s') = {0 ..< 9} \<union> {10 ..< 12} \<union> {20 ..< 23} - {10 ..< 12}"
proof -
  let ?s = "list_freeset [(0, 9), (10, 2), (20, 3)]"
  have inv: "freeset_inv (sort_key f_base) (sort_key f_length) ?s"
    by (simp add: freeset_inv_def list_freeset_def ranges_ok_def apart_def USIZE_MAX_def)
  have free: "free_nodes (sort_key f_base) ?s
      = {\<lparr>f_base = 0, f_length = 9\<rparr>, \<lparr>f_base = 10, f_length = 2\<rparr>, \<lparr>f_base = 20, f_length = 3\<rparr>}"
    by (simp add: free_nodes_def list_freeset_def)
  show ?thesis
    using remove_range_by_length_best_fit [OF list_set.freeset_trees_axioms inv, of 2]
    by (simp add: free range_of_def Un_assoc) blast
qed

text \<open>
  Cloning a free set gives the empty set, whatever the original holds: the
  loop starts at the null cursor that \<^verbatim>\<open>RBTree::cursor\<close> returns and ends at once.
\<close>

theorem freeset_clone_is_empty:
  assumes "freeset_trees B eb L el"
  shows "\<exists>s'. freeset_clone B L s = Some s' \<and> free_nodes eb s' = {}"
proof -
  have "freeset_clone B L s = Some (freeset_new B L)"
    using rb_tree.cursor_null [OF freeset_trees.axioms(1) [OF assms]]
    by (subst freeset_clone_def, subst clone_loop.simps) simp
  then show ?thesis using freeset_trees.new_inv(2) [OF assms] by blast
qed

theorem freeset_clone_is_empty_witness:
  "\<exists>s'. freeset_clone (list_ops f_base) (list_ops f_length) (list_freeset [(0, 5)]) = Some s' \<and>
     free_nodes (sort_key f_base) s' = {} \<and> free_nodes (sort_key f_base) (list_freeset [(0, 5)]) \<noteq> {}"
  using freeset_clone_is_empty [OF list_set.freeset_trees_axioms, of "list_freeset [(0, 5)]"]
  by (simp add: free_nodes_def list_freeset_def)

end
