(* ===== verification/Buddy.thy ===== *)
theory Buddy
  imports Cab_Prelude
begin

unbundle bit_operations_syntax

section \<open>The buddy page allocator\<close>

text \<open>
  Model of \<open>BuddyPageAllocator\<close> of \<^verbatim>\<open>src/src/memory/heap.rs\<close>. The free blocks
  of each order form a doubly linked list whose nodes are stored in the free
  blocks themselves. The memory is kept with one map per field of the node, by
  the virtual address of the node; the magic word is the first field of both
  views of a page (a free block and a slab page), so it is one map for both.
  The fields of the slab view are used by the slab allocator.

  The abstraction of a state is a function from orders to the list of the
  physical addresses of the free blocks of that order. The lemmas show that
  \<open>push_free\<close>, \<open>pop_free\<close> and \<open>try_remove_buddy\<close> are the list operations of
  the same name, and with them that \<open>alloc_pages\<close> takes exactly one aligned
  block out of the free memory, that \<open>free_pages\<close> gives exactly the block
  back, and that \<open>add_range\<close> makes exactly the given range free.
\<close>

subsection \<open>State\<close>

definition MAX_ORDER :: nat where "MAX_ORDER = 18"
definition BUDDY_NONE :: nat where "BUDDY_NONE = 2 ^ 64 - 1"
definition BUDDY_FREE_MAGIC :: nat where "BUDDY_FREE_MAGIC = 0xBDDFFACE"
definition MAX_REGIONS :: nat where "MAX_REGIONS = 256"

record Mem =
  bn_magic :: "addr \<Rightarrow> nat"
  bn_order :: "addr \<Rightarrow> nat"
  bn_next :: "addr \<Rightarrow> nat"
  bn_prev :: "addr \<Rightarrow> nat"
  sp_class_index :: "addr \<Rightarrow> nat"
  sp_in_use :: "addr \<Rightarrow> nat"
  sp_capacity :: "addr \<Rightarrow> nat"
  sp_free_list :: "addr \<Rightarrow> nat"
  sp_next :: "addr \<Rightarrow> nat"
  slot_next :: "addr \<Rightarrow> nat"

record PhysRegion =
  r_base :: nat
  r_end :: nat

record BuddyPageAllocator =
  free_heads :: "nat list"
  regions :: "PhysRegion list"
  region_count :: nat

definition EMPTY_REGION :: PhysRegion where
  "EMPTY_REGION = \<lparr>r_base = 0, r_end = 0\<rparr>"

definition buddy_new :: BuddyPageAllocator where
  "buddy_new = \<lparr>free_heads = replicate (MAX_ORDER + 1) BUDDY_NONE,
                regions = replicate MAX_REGIONS EMPTY_REGION, region_count = 0\<rparr>"

subsection \<open>Operations\<close>

definition add_region :: "nat \<Rightarrow> nat \<Rightarrow> BuddyPageAllocator \<Rightarrow> BuddyPageAllocator" where
  "add_region base end_addr b =
    (if MAX_REGIONS \<le> region_count b then b
     else b\<lparr>regions := (regions b)[region_count b := \<lparr>r_base = base, r_end = end_addr\<rparr>],
            region_count := region_count b + 1\<rparr>)"

definition block_size_bytes :: "nat \<Rightarrow> nat" where
  "block_size_bytes order = PAGE_SIZE * 2 ^ order"

function next_power_from :: "nat \<Rightarrow> nat \<Rightarrow> nat" where
  "next_power_from p n = (if n \<le> p \<or> p = 0 then p else next_power_from (2 * p) n)"
  by pat_completeness auto
termination by (relation "measure (\<lambda>(p, n). n - p)") auto

definition next_power_of_two :: "nat \<Rightarrow> nat" where
  "next_power_of_two n = next_power_from 1 n"

fun trailing_zeros :: "nat \<Rightarrow> nat" where
  "trailing_zeros n = (if n = 0 then 64 else if odd n then 0 else 1 + trailing_zeros (n div 2))"

definition order_for_pages :: "nat \<Rightarrow> nat option" where
  "order_for_pages pages =
    (if pages = 0 then None
     else let order = trailing_zeros (next_power_of_two pages)
          in if MAX_ORDER < order then None else Some order)"

definition contains_in_same_region :: "nat \<Rightarrow> nat \<Rightarrow> BuddyPageAllocator \<Rightarrow> bool" where
  "contains_in_same_region a sz b =
    (let e = wrapping_add a sz
     in \<exists>i\<in>{..<region_count b}. r_base (regions b ! i) \<le> a \<and> e \<le> r_end (regions b ! i))"

definition push_free ::
  "nat \<Rightarrow> nat \<Rightarrow> nat \<Rightarrow> BuddyPageAllocator \<times> Mem \<Rightarrow> (unit, BuddyPageAllocator \<times> Mem) outcome" where
  "push_free hhdm_offset order phys = (\<lambda>(b, m).
    obind (index_get (free_heads b) order) (\<lambda>old_head.
    obind (uadd phys hhdm_offset) (\<lambda>virt.
    let m1 = m\<lparr>bn_magic := (bn_magic m)(virt := BUDDY_FREE_MAGIC),
               bn_order := (bn_order m)(virt := order),
               bn_next := (bn_next m)(virt := old_head),
               bn_prev := (bn_prev m)(virt := BUDDY_NONE)\<rparr>
    in obind (if old_head \<noteq> BUDDY_NONE
              then obind (uadd old_head hhdm_offset) (\<lambda>old_virt.
                     Ok (m1\<lparr>bn_prev := (bn_prev m1)(old_virt := phys)\<rparr>))
              else Ok m1) (\<lambda>m2.
    Ok (b\<lparr>free_heads := (free_heads b)[order := phys]\<rparr>, m2)))))"

definition pop_free ::
  "nat \<Rightarrow> nat \<Rightarrow> BuddyPageAllocator \<times> Mem
    \<Rightarrow> (unit, nat option \<times> BuddyPageAllocator \<times> Mem) outcome" where
  "pop_free hhdm_offset order = (\<lambda>(b, m).
    obind (index_get (free_heads b) order) (\<lambda>head.
    if head = BUDDY_NONE then Ok (None, b, m)
    else obind (uadd head hhdm_offset) (\<lambda>virt.
      let m1 = m\<lparr>bn_magic := (bn_magic m)(virt := 0)\<rparr>;
          nxt = bn_next m1 virt
      in obind (if nxt \<noteq> BUDDY_NONE
                then obind (uadd nxt hhdm_offset) (\<lambda>next_virt.
                       Ok (m1\<lparr>bn_prev := (bn_prev m1)(next_virt := BUDDY_NONE)\<rparr>))
                else Ok m1) (\<lambda>m2.
      Ok (Some head, b\<lparr>free_heads := (free_heads b)[order := nxt]\<rparr>, m2)))))"

definition try_remove_buddy ::
  "nat \<Rightarrow> nat \<Rightarrow> nat \<Rightarrow> BuddyPageAllocator \<times> Mem
    \<Rightarrow> (unit, bool \<times> BuddyPageAllocator \<times> Mem) outcome" where
  "try_remove_buddy hhdm_offset order target = (\<lambda>(b, m).
    obind (uadd target hhdm_offset) (\<lambda>virt.
    if bn_magic m virt \<noteq> BUDDY_FREE_MAGIC \<or> bn_order m virt \<noteq> order then Ok (False, b, m)
    else
      let prv = bn_prev m virt;
          nxt = bn_next m virt
      in obind (if prv = BUDDY_NONE
                then obind (index_get (free_heads b) order) (\<lambda>_.
                       Ok (b\<lparr>free_heads := (free_heads b)[order := nxt]\<rparr>, m))
                else obind (uadd prv hhdm_offset) (\<lambda>prev_node.
                       Ok (b, m\<lparr>bn_next := (bn_next m)(prev_node := nxt)\<rparr>))) (\<lambda>(b1, m1).
         obind (if nxt \<noteq> BUDDY_NONE
                then obind (uadd nxt hhdm_offset) (\<lambda>next_node.
                       Ok (m1\<lparr>bn_prev := (bn_prev m1)(next_node := prv)\<rparr>))
                else Ok m1) (\<lambda>m2.
         Ok (True, b1, m2\<lparr>bn_magic := (bn_magic m2)(virt := 0)\<rparr>)))))"

fun pick_order :: "nat \<Rightarrow> nat \<Rightarrow> nat \<Rightarrow> nat" where
  "pick_order base pages 0 = 0"
| "pick_order base pages (Suc k) =
    (if 2 ^ Suc k \<le> pages \<and> 2 ^ Suc k * PAGE_SIZE dvd base then Suc k else pick_order base pages k)"

function carve ::
  "nat \<Rightarrow> nat \<Rightarrow> nat \<Rightarrow> BuddyPageAllocator \<times> Mem \<Rightarrow> (unit, BuddyPageAllocator \<times> Mem) outcome" where
  "carve hhdm_offset base pages s =
    (if pages = 0 then Ok s
     else let order = pick_order base pages MAX_ORDER;
              used_pages = 2 ^ order
          in obind (push_free hhdm_offset order base s) (\<lambda>s'.
             obind (uadd base (used_pages * PAGE_SIZE)) (\<lambda>base'.
             if pages < used_pages then Panic
             else carve hhdm_offset base' (pages - used_pages) s')))"
  by pat_completeness auto
termination by (relation "measure (\<lambda>(h, base, pages, s). pages)") auto

definition buddy_add_range ::
  "nat \<Rightarrow> nat \<Rightarrow> nat \<Rightarrow> BuddyPageAllocator \<times> Mem \<Rightarrow> (unit, BuddyPageAllocator \<times> Mem) outcome" where
  "buddy_add_range hhdm_offset base pages = (\<lambda>(b, m).
    if pages = 0 then Ok (b, m)
    else obind (umul pages PAGE_SIZE) (\<lambda>bytes.
         obind (uadd base bytes) (\<lambda>end_addr.
         carve hhdm_offset base pages (add_region base end_addr b, m))))"

function find_order :: "nat \<Rightarrow> BuddyPageAllocator \<Rightarrow> nat" where
  "find_order cur b =
    (if cur \<le> MAX_ORDER then (if free_heads b ! cur \<noteq> BUDDY_NONE then cur else find_order (cur + 1) b)
     else cur)"
  by pat_completeness auto
termination by (relation "measure (\<lambda>(cur, b). Suc MAX_ORDER - cur)") auto

function split_down ::
  "nat \<Rightarrow> nat \<Rightarrow> nat \<Rightarrow> nat \<Rightarrow> BuddyPageAllocator \<times> Mem \<Rightarrow> (unit, BuddyPageAllocator \<times> Mem) outcome" where
  "split_down hhdm_offset order cur block s =
    (if cur \<le> order then Ok s
     else obind (uadd block (block_size_bytes (cur - 1))) (\<lambda>buddy.
          obind (push_free hhdm_offset (cur - 1) buddy s) (\<lambda>s'.
          split_down hhdm_offset order (cur - 1) block s')))"
  by pat_completeness auto
termination by (relation "measure (\<lambda>(h, order, cur, block, s). cur)") auto

definition alloc_pages ::
  "nat \<Rightarrow> nat \<Rightarrow> BuddyPageAllocator \<times> Mem
    \<Rightarrow> (unit, nat option \<times> BuddyPageAllocator \<times> Mem) outcome" where
  "alloc_pages hhdm_offset order = (\<lambda>(b, m).
    if MAX_ORDER < order then Ok (None, b, m)
    else let cur = find_order order b
         in if MAX_ORDER < cur then Ok (None, b, m)
            else obind (pop_free hhdm_offset cur (b, m)) (\<lambda>(popped, s).
                 case popped of
                   None \<Rightarrow> Ok (None, s)
                 | Some block \<Rightarrow>
                     omap (Pair (Some block)) (split_down hhdm_offset order cur block s)))"

function free_loop ::
  "nat \<Rightarrow> nat \<Rightarrow> nat \<Rightarrow> BuddyPageAllocator \<times> Mem \<Rightarrow> (unit, BuddyPageAllocator \<times> Mem) outcome" where
  "free_loop hhdm_offset base order s =
    (let size = block_size_bytes order;
         buddy = base XOR size;
         combined_base = min base buddy
     in obind (umul size 2) (\<lambda>size2.
        if \<not> contains_in_same_region combined_base size2 (fst s)
        then push_free hhdm_offset order base s
        else obind (try_remove_buddy hhdm_offset order buddy s) (\<lambda>(removed, s').
          if removed
          then (if MAX_ORDER < order + 1 then push_free hhdm_offset MAX_ORDER combined_base s'
                else free_loop hhdm_offset combined_base (order + 1) s')
          else push_free hhdm_offset order base s')))"
  by pat_completeness auto
termination by (relation "measure (\<lambda>(h, base, order, s). MAX_ORDER - order)") auto


lemmas loop_simps = next_power_from.simps trailing_zeros.simps carve.simps find_order.simps
  split_down.simps free_loop.simps

declare loop_simps [simp del]

subsection \<open>Abstraction and invariant\<close>

fun seg :: "Mem \<Rightarrow> nat \<Rightarrow> nat \<Rightarrow> nat \<Rightarrow> nat list \<Rightarrow> nat \<Rightarrow> nat \<Rightarrow> nat \<Rightarrow> bool" where
  "seg m h k p [] f l n \<longleftrightarrow> f = n \<and> l = p"
| "seg m h k p (x # xs) f l n \<longleftrightarrow>
     f = x \<and> bn_magic m (x + h) = BUDDY_FREE_MAGIC \<and> bn_order m (x + h) = k \<and>
     bn_prev m (x + h) = p \<and> seg m h k x xs (bn_next m (x + h)) l n"

type_synonym free_lists = "nat \<Rightarrow> nat list"

definition block_range :: "nat \<Rightarrow> nat \<Rightarrow> addr set" where
  "block_range k a = {a ..< a + block_size_bytes k}"

definition blocks :: "free_lists \<Rightarrow> (nat \<times> nat) set" where
  "blocks L = {(k, a). k \<le> MAX_ORDER \<and> a \<in> set (L k)}"

definition free_bytes :: "free_lists \<Rightarrow> addr set" where
  "free_bytes L = (\<Union>(k, a)\<in>blocks L. block_range k a)"

definition block_ok :: "nat \<Rightarrow> nat \<Rightarrow> nat \<Rightarrow> bool" where
  "block_ok h k a \<longleftrightarrow> k \<le> MAX_ORDER \<and> block_size_bytes k dvd a \<and> a + block_size_bytes k + h \<le> USIZE_MAX"

definition lists_ok :: "nat \<Rightarrow> free_lists \<Rightarrow> bool" where
  "lists_ok h L \<longleftrightarrow>
     (\<forall>k\<le>MAX_ORDER. distinct (L k) \<and> (\<forall>a\<in>set (L k). block_ok h k a)) \<and>
     (\<forall>x\<in>blocks L. \<forall>y\<in>blocks L. x \<noteq> y \<longrightarrow> case_prod block_range x \<inter> case_prod block_range y = {})"

definition heads_ok :: "nat \<Rightarrow> free_lists \<Rightarrow> BuddyPageAllocator \<Rightarrow> Mem \<Rightarrow> bool" where
  "heads_ok h L b m \<longleftrightarrow> length (free_heads b) = MAX_ORDER + 1 \<and>
     (\<forall>k\<le>MAX_ORDER. \<exists>l. seg m h k BUDDY_NONE (L k) (free_heads b ! k) l BUDDY_NONE)"

definition tags_ok :: "nat \<Rightarrow> free_lists \<Rightarrow> Mem \<Rightarrow> bool" where
  "tags_ok h L m \<longleftrightarrow> (\<forall>k\<le>MAX_ORDER. \<forall>a.
     bn_magic m (a + h) = BUDDY_FREE_MAGIC \<and> bn_order m (a + h) = k \<longrightarrow> a \<in> set (L k))"

definition buddy_inv :: "nat \<Rightarrow> free_lists \<Rightarrow> BuddyPageAllocator \<times> Mem \<Rightarrow> bool" where
  "buddy_inv h L s \<longleftrightarrow> lists_ok h L \<and> heads_ok h L (fst s) (snd s) \<and> tags_ok h L (snd s)"

subsection \<open>Linked lists in memory\<close>

definition same_node :: "Mem \<Rightarrow> Mem \<Rightarrow> addr \<Rightarrow> bool" where
  "same_node m m' v \<longleftrightarrow> bn_magic m v = bn_magic m' v \<and> bn_order m v = bn_order m' v \<and>
     bn_next m v = bn_next m' v \<and> bn_prev m v = bn_prev m' v"

lemma seg_frame:
  "(\<And>x. x \<in> set xs \<Longrightarrow> same_node m m' (x + h)) \<Longrightarrow> seg m h k p xs f l n = seg m' h k p xs f l n"
  by (induction xs arbitrary: p f) (auto simp: same_node_def)

lemma seg_append:
  "seg m h k p (xs @ ys) f l n \<longleftrightarrow> (\<exists>q g. seg m h k p xs f q g \<and> seg m h k q ys g l n)"
  by (induction xs arbitrary: p f) auto

lemma seg_last: "seg m h k p xs f l n \<Longrightarrow> l = (if xs = [] then p else last xs)"
  by (induction xs arbitrary: p f) auto

lemma seg_first: "seg m h k p xs f l n \<Longrightarrow> f = (if xs = [] then n else hd xs)"
  by (cases xs) auto

lemma seg_tagged:
  "seg m h k p xs f l n \<Longrightarrow> x \<in> set xs \<Longrightarrow> bn_magic m (x + h) = BUDDY_FREE_MAGIC \<and> bn_order m (x + h) = k"
  by (induction xs arbitrary: p f) auto

lemma seg_set_next:
  assumes "seg m h k p xs f l n" "xs \<noteq> []" "distinct xs"
  shows "seg (m\<lparr>bn_next := (bn_next m)(l + h := n')\<rparr>) h k p xs f l n'"
  using assms
proof (induction xs arbitrary: p f)
  case (Cons x xs)
  show ?case
  proof (cases "xs = []")
    case False
    then have "l = last xs" using Cons.prems(1) seg_last by fastforce
    then have "l \<noteq> x" using False Cons.prems(3) last_in_set by fastforce
    then show ?thesis using Cons False by simp
  qed (use Cons in auto)
qed simp

lemma seg_set_prev:
  assumes "seg m h k p (x # xs) f l n" "distinct (x # xs)"
  shows "seg (m\<lparr>bn_prev := (bn_prev m)(x + h := p')\<rparr>) h k p' (x # xs) f l n"
proof -
  have "seg m h k x xs (bn_next m (x + h)) l n" using assms(1) by simp
  moreover have "seg m h k x xs (bn_next m (x + h)) l n
      = seg (m\<lparr>bn_prev := (bn_prev m)(x + h := p')\<rparr>) h k x xs (bn_next m (x + h)) l n"
    by (rule seg_frame) (use assms(2) in \<open>auto simp: same_node_def\<close>)
  ultimately show ?thesis using assms(1) by simp
qed

subsection \<open>Sets of blocks\<close>

lemma magic_nonzero [simp]: "BUDDY_FREE_MAGIC \<noteq> 0" "0 \<noteq> BUDDY_FREE_MAGIC"
  by (simp_all add: BUDDY_FREE_MAGIC_def)

lemma block_size_pos [simp]: "0 < block_size_bytes k"
  by (simp add: block_size_bytes_def PAGE_SIZE_def)

lemma block_size_Suc: "block_size_bytes (Suc k) = 2 * block_size_bytes k"
  by (simp add: block_size_bytes_def)

lemma mem_block_range [simp]: "a \<in> block_range k a"
  by (simp add: block_range_def)

lemma block_ok_bounds:
  assumes "block_ok h k a"
  shows "k \<le> MAX_ORDER" "a + h \<le> USIZE_MAX" "a \<noteq> BUDDY_NONE"
  using assms block_size_pos [of k] by (auto simp: block_ok_def BUDDY_NONE_def USIZE_MAX_def)

lemma lists_okD:
  assumes "lists_ok h L" "k \<le> MAX_ORDER"
  shows "distinct (L k)" "a \<in> set (L k) \<Longrightarrow> block_ok h k a"
  using assms by (auto simp: lists_ok_def)

lemma lists_ok_bounds:
  assumes "lists_ok h L" "k \<le> MAX_ORDER" "a \<in> set (L k)"
  shows "a + h \<le> USIZE_MAX" "a \<noteq> BUDDY_NONE"
  using lists_okD(2) [OF assms] block_ok_bounds by auto

lemma lists_ok_disjoint:
  assumes "lists_ok h L" "(k, a) \<in> blocks L" "(j, b) \<in> blocks L" "(k, a) \<noteq> (j, b)"
  shows "block_range k a \<inter> block_range j b = {}"
  using assms unfolding lists_ok_def by (metis case_prod_conv)

lemma lists_ok_unique:
  assumes "lists_ok h L" "k \<le> MAX_ORDER" "j \<le> MAX_ORDER" "a \<in> set (L k)" "a \<in> set (L j)"
  shows "k = j"
proof (rule ccontr)
  assume "k \<noteq> j"
  with assms have "block_range k a \<inter> block_range j a = {}"
    using lists_ok_disjoint [OF assms(1), of k a j a] by (simp add: blocks_def)
  then show False using mem_block_range by blast
qed

lemma mem_blocks [simp]: "(k, a) \<in> blocks L \<longleftrightarrow> k \<le> MAX_ORDER \<and> a \<in> set (L k)"
  by (simp add: blocks_def)

lemma mem_free_bytes: "(k, a) \<in> blocks L \<Longrightarrow> block_range k a \<subseteq> free_bytes L"
  unfolding free_bytes_def by blast

lemma blocks_push: "k \<le> MAX_ORDER \<Longrightarrow> blocks (L(k := p # L k)) = insert (k, p) (blocks L)"
  by (auto simp: blocks_def split: if_splits)

lemma blocks_remove:
  "lists_ok h L \<Longrightarrow> k \<le> MAX_ORDER \<Longrightarrow> blocks (L(k := remove1 t (L k))) = blocks L - {(k, t)}"
  using lists_okD(1) by (fastforce simp: blocks_def split: if_splits)

lemma free_bytes_push:
  "k \<le> MAX_ORDER \<Longrightarrow> free_bytes (L(k := p # L k)) = block_range k p \<union> free_bytes L"
  by (simp add: free_bytes_def blocks_push)

lemma free_bytes_remove:
  assumes "lists_ok h L" "k \<le> MAX_ORDER" "t \<in> set (L k)"
  shows "free_bytes (L(k := remove1 t (L k))) = free_bytes L - block_range k t"
proof -
  have "block_range j a \<inter> block_range k t = {}" if "(j, a) \<in> blocks L - {(k, t)}" for j a
    using lists_ok_disjoint [OF assms(1), of j a k t] assms(2,3) that by auto
  then show ?thesis
    using assms(2,3) unfolding free_bytes_def blocks_remove [OF assms(1,2)] by fastforce
qed

lemma lists_ok_push:
  assumes "lists_ok h L" "block_ok h k p" "block_range k p \<inter> free_bytes L = {}"
  shows "lists_ok h (L(k := p # L k))"
proof -
  have k: "k \<le> MAX_ORDER" using assms(2) by (simp add: block_ok_def)
  have new: "block_range k p \<inter> block_range j a = {}" if "(j, a) \<in> blocks L" for j a
    using assms(3) mem_free_bytes [OF that] by blast
  then have "p \<notin> set (L k)" using k mem_block_range [of p k] by fastforce
  moreover have "\<forall>x\<in>insert (k, p) (blocks L). \<forall>y\<in>insert (k, p) (blocks L).
      x \<noteq> y \<longrightarrow> case_prod block_range x \<inter> case_prod block_range y = {}"
  proof (intro ballI impI)
    fix x y assume xy: "x \<in> insert (k, p) (blocks L)" "y \<in> insert (k, p) (blocks L)" "x \<noteq> y"
    consider "x = (k, p)" "y \<in> blocks L" | "y = (k, p)" "x \<in> blocks L" | "x \<in> blocks L" "y \<in> blocks L"
      using xy by blast
    then show "case_prod block_range x \<inter> case_prod block_range y = {}"
    proof cases
      case 1
      then show ?thesis using new [of "fst y" "snd y"] by (simp add: case_prod_unfold)
    next
      case 2
      then show ?thesis using new [of "fst x" "snd x"] by (simp add: case_prod_unfold Int_commute)
    next
      case 3
      then show ?thesis using assms(1) xy(3) unfolding lists_ok_def by blast
    qed
  qed
  ultimately show ?thesis
    using assms(1,2) unfolding lists_ok_def blocks_push [OF k] by auto
qed

lemma lists_ok_remove:
  assumes "lists_ok h L" "k \<le> MAX_ORDER"
  shows "lists_ok h (L(k := remove1 t (L k)))"
proof -
  have "set (remove1 t (L k)) \<subseteq> set (L k)" by (rule set_remove1_subset)
  then show ?thesis
    using assms(1) unfolding lists_ok_def blocks_remove [OF assms] by (auto simp: distinct_remove1)
qed

subsection \<open>The list operations\<close>

lemma buddy_invD:
  assumes "buddy_inv h L (b, m)"
  shows "lists_ok h L" "length (free_heads b) = MAX_ORDER + 1" "tags_ok h L m"
    "k \<le> MAX_ORDER \<Longrightarrow> \<exists>l. seg m h k BUDDY_NONE (L k) (free_heads b ! k) l BUDDY_NONE"
  using assms by (auto simp: buddy_inv_def heads_ok_def)

lemma head_eq:
  assumes "buddy_inv h L (b, m)" "k \<le> MAX_ORDER"
  shows "free_heads b ! k = (if L k = [] then BUDDY_NONE else hd (L k))"
  using buddy_invD(4) [OF assms] seg_first by blast

lemma head_none_iff:
  assumes "buddy_inv h L (b, m)" "k \<le> MAX_ORDER"
  shows "free_heads b ! k = BUDDY_NONE \<longleftrightarrow> L k = []"
  using head_eq [OF assms] lists_ok_bounds(2) [OF buddy_invD(1) [OF assms(1)] assms(2)]
  by (cases "L k") auto

lemma buddy_invI:
  assumes "lists_ok h L'" "length (free_heads b') = MAX_ORDER + 1" "tags_ok h L' m'"
    "\<exists>l. seg m' h k BUDDY_NONE (L' k) (free_heads b' ! k) l BUDDY_NONE"
    "\<And>j. j \<le> MAX_ORDER \<Longrightarrow> j \<noteq> k \<Longrightarrow> L' j = L j \<and> free_heads b' ! j = free_heads b ! j"
    "\<And>j x. j \<le> MAX_ORDER \<Longrightarrow> j \<noteq> k \<Longrightarrow> x \<in> set (L j) \<Longrightarrow> same_node m m' (x + h)"
    "buddy_inv h L (b, m)"
  shows "buddy_inv h L' (b', m')"
proof -
  have "\<exists>l. seg m' h j BUDDY_NONE (L' j) (free_heads b' ! j) l BUDDY_NONE" if "j \<le> MAX_ORDER" for j
  proof (cases "j = k")
    case False
    from buddy_invD(4) [OF assms(7) that]
    obtain l where "seg m h j BUDDY_NONE (L j) (free_heads b ! j) l BUDDY_NONE" by blast
    then show ?thesis
      using seg_frame [of "L j" m m' h] assms(5,6) [OF that False] by auto
  qed (use assms(4) in blast)
  with assms(1-3) show ?thesis by (simp add: buddy_inv_def heads_ok_def)
qed

lemma push_free_inv:
  assumes inv: "buddy_inv h L (b, m)" and p: "block_ok h k p" "block_range k p \<inter> free_bytes L = {}"
  obtains b' m' where "push_free h k p (b, m) = Ok (b', m')" "buddy_inv h (L(k := p # L k)) (b', m')"
    "regions b' = regions b" "region_count b' = region_count b"
proof -
  note ok = buddy_invD(1) [OF inv]
  have k: "k \<le> MAX_ORDER" "p + h \<le> USIZE_MAX" "p \<noteq> BUDDY_NONE"
    using block_ok_bounds [OF p(1)] by auto
  have fresh: "p \<notin> set (L j)" if "j \<le> MAX_ORDER" for j
    using p(2) mem_free_bytes [of j p L] that
    by (metis disjoint_iff mem_block_range mem_blocks subsetD)
  from buddy_invD(4) [OF inv k(1)]
  obtain l where l: "seg m h k BUDDY_NONE (L k) (free_heads b ! k) l BUDDY_NONE" by blast
  let ?old = "free_heads b ! k"
  define m1 where "m1 = m\<lparr>bn_magic := (bn_magic m)(p + h := BUDDY_FREE_MAGIC),
    bn_order := (bn_order m)(p + h := k), bn_next := (bn_next m)(p + h := ?old),
    bn_prev := (bn_prev m)(p + h := BUDDY_NONE)\<rparr>"
  define m2 where "m2 = (if L k = [] then m1 else m1\<lparr>bn_prev := (bn_prev m1)(?old + h := p)\<rparr>)"
  let ?b = "b\<lparr>free_heads := (free_heads b)[k := p]\<rparr>"
  have old: "?old \<in> set (L k)" if "L k \<noteq> []" using head_eq [OF inv k(1)] that by simp
  have push: "push_free h k p (b, m) = Ok (?b, m2)"
    using k buddy_invD(2) [OF inv] head_none_iff [OF inv k(1)] old lists_ok_bounds(1) [OF ok k(1)]
    by (simp add: push_free_def m2_def m1_def Let_def)
  have frame: "same_node m m1 (x + h)" if "j \<le> MAX_ORDER" "x \<in> set (L j)" for j x
    using fresh that by (auto simp: m1_def same_node_def)
  have "seg m1 h k BUDDY_NONE (L k) ?old l BUDDY_NONE"
    using l seg_frame [of "L k" m m1 h] frame k(1) by blast
  then have "\<exists>l. seg m2 h k p (L k) ?old l BUDDY_NONE"
    using seg_set_prev [of m1 h k BUDDY_NONE "hd (L k)" "tl (L k)" ?old l BUDDY_NONE p]
      lists_okD(1) [OF ok k(1)] head_eq [OF inv k(1)]
    by (cases "L k = []") (auto simp: m2_def)
  moreover have "bn_magic m2 (p + h) = BUDDY_FREE_MAGIC" "bn_order m2 (p + h) = k"
    "bn_next m2 (p + h) = ?old" "bn_prev m2 (p + h) = BUDDY_NONE"
    using old fresh [OF k(1)] by (auto simp: m2_def m1_def)
  ultimately have head: "\<exists>l. seg m2 h k BUDDY_NONE (p # L k) p l BUDDY_NONE" by auto
  have others: "same_node m m2 (x + h)" if "j \<le> MAX_ORDER" "j \<noteq> k" "x \<in> set (L j)" for j x
    using frame [OF that(1,3)] lists_ok_unique [OF ok that(1) k(1) that(3)] that(2) old
    by (auto simp: m2_def same_node_def)
  have "tags_ok h (L(k := p # L k)) m2"
    using buddy_invD(3) [OF inv] by (auto simp: tags_ok_def m2_def m1_def)
  then have "buddy_inv h (L(k := p # L k)) (?b, m2)"
    using lists_ok_push [OF ok p] head others k(1) buddy_invD(2) [OF inv]
    by (intro buddy_invI [where k = k, OF _ _ _ _ _ _ inv]) auto
  with push show thesis using that [of ?b m2] by simp
qed

lemma unlink_seg:
  assumes "seg m h k BUDDY_NONE (ys @ t # zs) f l BUDDY_NONE" "distinct (ys @ t # zs)"
    "BUDDY_NONE \<notin> set (ys @ t # zs)"
  defines "q \<equiv> bn_prev m (t + h)" and "n \<equiv> bn_next m (t + h)"
  defines "m1 \<equiv> if ys = [] then m else m\<lparr>bn_next := (bn_next m)(q + h := n)\<rparr>"
  defines "m2 \<equiv> if zs = [] then m1 else m1\<lparr>bn_prev := (bn_prev m1)(n + h := q)\<rparr>"
  shows "\<exists>l. seg m2 h k BUDDY_NONE (ys @ zs) (if ys = [] then n else f) l BUDDY_NONE"
    "q = (if ys = [] then BUDDY_NONE else last ys)" "n = (if zs = [] then BUDDY_NONE else hd zs)"
proof -
  from assms(1) obtain q' where ys: "seg m h k BUDDY_NONE ys f q' t"
    and q: "q = q'" and zs: "seg m h k t zs n l BUDDY_NONE"
    by (auto simp: seg_append q_def n_def)
  show q_eq: "q = (if ys = [] then BUDDY_NONE else last ys)" using seg_last [OF ys] q by simp
  show n_eq: "n = (if zs = [] then BUDDY_NONE else hd zs)" using seg_first [OF zs] by simp
  have ys1: "seg m1 h k BUDDY_NONE ys (if ys = [] then n else f) q n"
    using seg_set_next [OF ys, of n] assms(2) q by (auto simp: m1_def q_eq)
  have "q \<notin> set zs" if "ys \<noteq> []" using q_eq that assms(2) last_in_set by fastforce
  then have "seg m h k t zs n l BUDDY_NONE = seg m1 h k t zs n l BUDDY_NONE"
    by (intro seg_frame) (auto simp: m1_def same_node_def)
  then have zs1: "seg m1 h k t zs n l BUDDY_NONE" using zs by simp
  have zs2: "\<exists>l. seg m2 h k q zs n l BUDDY_NONE"
  proof (cases zs)
    case (Cons z zs')
    then have "seg m2 h k q (z # zs') n l BUDDY_NONE"
      using seg_set_prev [of m1 h k t z zs' n l BUDDY_NONE q] zs1 n_eq assms(2) by (simp add: m2_def)
    then show ?thesis using Cons by auto
  qed (use zs1 n_eq in auto)
  have "n \<notin> set ys" if "zs \<noteq> []" using n_eq that assms(2) by (cases zs) auto
  then have "seg m1 h k BUDDY_NONE ys (if ys = [] then n else f) q n
      = seg m2 h k BUDDY_NONE ys (if ys = [] then n else f) q n"
    by (intro seg_frame) (auto simp: m2_def same_node_def)
  with ys1 zs2 show "\<exists>l. seg m2 h k BUDDY_NONE (ys @ zs) (if ys = [] then n else f) l BUDDY_NONE"
    unfolding seg_append by blast
qed

lemma try_remove_present:
  assumes inv: "buddy_inv h L (b, m)" and k: "k \<le> MAX_ORDER" and t: "t \<in> set (L k)"
  obtains b' m' where "try_remove_buddy h k t (b, m) = Ok (True, b', m')"
    "buddy_inv h (L(k := remove1 t (L k))) (b', m')"
    "regions b' = regions b" "region_count b' = region_count b"
proof -
  note ok = buddy_invD(1) [OF inv]
  have d: "distinct (L k)" by (rule lists_okD(1) [OF ok k])
  from t obtain ys zs where L: "L k = ys @ t # zs" by (meson split_list)
  from buddy_invD(4) [OF inv k]
  obtain l where l: "seg m h k BUDDY_NONE (L k) (free_heads b ! k) l BUDDY_NONE" by blast
  have none: "BUDDY_NONE \<notin> set (L k)" using lists_ok_bounds(2) [OF ok k] by blast
  define q where "q = bn_prev m (t + h)"
  define n where "n = bn_next m (t + h)"
  define m1 where "m1 = (if ys = [] then m else m\<lparr>bn_next := (bn_next m)(q + h := n)\<rparr>)"
  define m2 where "m2 = (if zs = [] then m1 else m1\<lparr>bn_prev := (bn_prev m1)(n + h := q)\<rparr>)"
  define m3 where "m3 = m2\<lparr>bn_magic := (bn_magic m2)(t + h := 0)\<rparr>"
  let ?b = "if ys = [] then b\<lparr>free_heads := (free_heads b)[k := n]\<rparr> else b"
  note un = unlink_seg [OF l [unfolded L] d [unfolded L] none [unfolded L], folded q_def n_def,
    folded m1_def, folded m2_def]
  have q_in: "q \<in> set (L k)" if "ys \<noteq> []" using un(2) that L by simp
  have n_in: "n \<in> set (L k)" if "zs \<noteq> []" using un(3) that L by (cases zs) auto
  have q_none: "q = BUDDY_NONE \<longleftrightarrow> ys = []" and n_none: "n = BUDDY_NONE \<longleftrightarrow> zs = []"
    using un(2,3) q_in n_in none by auto
  have bounds: "\<And>x. x \<in> set (L k) \<Longrightarrow> x + h \<le> USIZE_MAX" using lists_ok_bounds(1) [OF ok k] .
  have run: "try_remove_buddy h k t (b, m) = Ok (True, ?b, m3)"
    using seg_tagged [OF l t] bounds t q_in n_in q_none n_none buddy_invD(2) [OF inv] k
    by (cases "ys = []"; cases "zs = []")
       (simp_all add: try_remove_buddy_def Let_def m3_def m2_def m1_def q_def n_def)
  have L': "remove1 t (L k) = ys @ zs" using d L by (simp add: remove1_append)
  have "seg m2 h k BUDDY_NONE (ys @ zs) f l BUDDY_NONE = seg m3 h k BUDDY_NONE (ys @ zs) f l BUDDY_NONE" for f l
    by (rule seg_frame) (use d L in \<open>auto simp: m3_def same_node_def\<close>)
  then have head: "\<exists>l. seg m3 h k BUDDY_NONE (ys @ zs) (free_heads ?b ! k) l BUDDY_NONE"
    using un(1) buddy_invD(2) [OF inv] k by (cases "ys = []") auto
  have others: "same_node m m3 (x + h)" if "j \<le> MAX_ORDER" "j \<noteq> k" "x \<in> set (L j)" for j x
    using lists_ok_unique [OF ok that(1) k that(3)] that(2) t q_in n_in
    by (auto simp: m3_def m2_def m1_def same_node_def)
  have "tags_ok h (L(k := remove1 t (L k))) m3"
    using buddy_invD(3) [OF inv] d by (auto simp: tags_ok_def m3_def m2_def m1_def split: if_splits)
  then have "buddy_inv h (L(k := remove1 t (L k))) (?b, m3)"
    using lists_ok_remove [OF ok k, of t] head others k buddy_invD(2) [OF inv] L'
    by (intro buddy_invI [where k = k, OF _ _ _ _ _ _ inv]) auto
  with run show thesis using that [of ?b m3] by (cases "ys = []") simp_all
qed


lemma pop_free_inv:
  assumes inv: "buddy_inv h L (b, m)" and k: "k \<le> MAX_ORDER" and L: "L k = t # xs"
  obtains b' m' where "pop_free h k (b, m) = Ok (Some t, b', m')"
    "buddy_inv h (L(k := remove1 t (L k))) (b', m')"
    "regions b' = regions b" "region_count b' = region_count b"
proof -
  have t: "t \<in> set (L k)" using L by simp
  from buddy_invD(4) [OF inv k]
  obtain l where l: "seg m h k BUDDY_NONE (L k) (free_heads b ! k) l BUDDY_NONE" by blast
  note bounds = lists_ok_bounds [OF buddy_invD(1) [OF inv] k]
  have n: "bn_next m (t + h) = (if xs = [] then BUDDY_NONE else hd xs)"
    using l L seg_first [of m h k t xs "bn_next m (t + h)" l BUDDY_NONE] by simp
  have "\<And>b' m'. try_remove_buddy h k t (b, m) = Ok (True, b', m')
      \<Longrightarrow> pop_free h k (b, m) = Ok (Some t, b', m')"
    using l L k n bounds buddy_invD(2) [OF inv]
    by (cases "xs = []") (auto simp: try_remove_buddy_def pop_free_def Let_def)
  then show thesis using try_remove_present [OF inv k t] that by metis
qed

subsection \<open>Allocation\<close>

lemma find_order_spec:
  assumes "buddy_inv h L (b, m)"
  shows "cur \<le> find_order cur b \<and>
    (find_order cur b \<le> MAX_ORDER \<longrightarrow> L (find_order cur b) \<noteq> []) \<and>
    (\<forall>j\<le>MAX_ORDER. cur \<le> j \<and> j < find_order cur b \<longrightarrow> L j = [])"
  using assms
proof (induction cur b rule: find_order.induct)
  case (1 cur b)
  show ?case
  proof (cases "cur \<le> MAX_ORDER \<and> free_heads b ! cur = BUDDY_NONE")
    case True
    with 1 have "L cur = []" "find_order cur b = find_order (cur + 1) b"
      using head_none_iff [OF "1.prems"] by (auto simp: find_order.simps [of cur])
    with 1 True show ?thesis by (metis Suc_eq_plus1 Suc_leD le_neq_implies_less not_less_eq_eq not_le)
  next
    case False
    then show ?thesis
      using head_none_iff [OF "1.prems"] by (auto simp: find_order.simps [of cur])
  qed
qed

definition same_regions :: "BuddyPageAllocator \<times> Mem \<Rightarrow> BuddyPageAllocator \<times> Mem \<Rightarrow> bool" where
  "same_regions s s' \<longleftrightarrow> regions (fst s') = regions (fst s) \<and> region_count (fst s') = region_count (fst s)"

lemma half_blocks:
  assumes "block_ok h (Suc k) a"
  shows "block_ok h k a" "block_ok h k (a + block_size_bytes k)"
    "block_range (Suc k) a = block_range k a \<union> block_range k (a + block_size_bytes k)"
    "block_range k a \<inter> block_range k (a + block_size_bytes k) = {}"
  using assms by (auto simp: block_ok_def block_range_def block_size_Suc intro: dvd_mult_left)

lemma split_down_inv:
  assumes "buddy_inv h L s" "order \<le> cur" "block_ok h cur block"
    "block_range cur block \<inter> free_bytes L = {}"
  shows "\<exists>L' s'. split_down h order cur block s = Ok s' \<and> buddy_inv h L' s' \<and> same_regions s s' \<and>
    free_bytes L' = free_bytes L \<union> (block_range cur block - block_range order block)"
  using assms
proof (induction cur arbitrary: L s)
  case 0
  then show ?case by (auto simp: split_down.simps same_regions_def)
next
  case (Suc c)
  show ?case
  proof (cases "Suc c \<le> order")
    case True
    with Suc.prems have "Suc c = order" by simp
    then show ?thesis using Suc.prems by (auto simp: split_down.simps same_regions_def)
  next
    case False
    note half = half_blocks [OF Suc.prems(3)]
    let ?buddy = "block + block_size_bytes c"
    obtain b m where s: "s = (b, m)" by force
    have "block_range c ?buddy \<inter> free_bytes L = {}" using Suc.prems(4) half(3) by blast
    from push_free_inv [OF Suc.prems(1) [unfolded s] half(2) this]
    obtain b' m' where p: "push_free h c ?buddy (b, m) = Ok (b', m')"
      "buddy_inv h (L(c := ?buddy # L c)) (b', m')" "same_regions s (b', m')"
      unfolding same_regions_def s by (metis fst_conv)
    have c: "c \<le> MAX_ORDER" using half(1) by (simp add: block_ok_def)
    have "block_range c block \<inter> free_bytes (L(c := ?buddy # L c)) = {}"
      using Suc.prems(4) half(3,4) free_bytes_push [OF c] by blast
    from Suc.IH [OF p(2) _ half(1) this]
    obtain L' s' where IH: "split_down h order c block (b', m') = Ok s'" "buddy_inv h L' s'"
      "same_regions (b', m') s'"
      "free_bytes L' = free_bytes (L(c := ?buddy # L c)) \<union> (block_range c block - block_range order block)"
      using False by (metis not_less_eq_eq)
    have "block_range order block \<subseteq> block_range c block"
      using False by (auto simp: block_range_def block_size_bytes_def intro: less_le_trans)
    then have "free_bytes L' = free_bytes L \<union> (block_range (Suc c) block - block_range order block)"
      using IH(4) half(3,4) free_bytes_push [OF c] by blast
    moreover have "?buddy \<le> USIZE_MAX" using half(2) by (simp add: block_ok_def)
    ultimately show ?thesis
      using False IH p s by (auto simp: split_down.simps [of h order "Suc c"] same_regions_def)
  qed
qed

lemma alloc_pages_inv:
  assumes inv: "buddy_inv h L (b, m)" and order: "order \<le> MAX_ORDER"
    and some: "j \<le> MAX_ORDER" "order \<le> j" "L j \<noteq> []"
  shows "\<exists>block L' s'. alloc_pages h order (b, m) = Ok (Some block, s') \<and> buddy_inv h L' s' \<and>
    same_regions (b, m) s' \<and> block_ok h order block \<and> block_range order block \<subseteq> free_bytes L \<and>
    free_bytes L' = free_bytes L - block_range order block"
proof -
  define c where "c = find_order order b"
  have c: "order \<le> c" "c \<le> MAX_ORDER" "L c \<noteq> []"
    using find_order_spec [OF inv, of order] some unfolding c_def [symmetric]
    by (meson le_trans not_le)+
  then obtain t xs where L: "L c = t # xs" by (cases "L c") auto
  note ok = buddy_invD(1) [OF inv]
  have t: "t \<in> set (L c)" using L by simp
  have tok: "block_ok h c t" by (rule lists_okD(2) [OF ok c(2) t])
  from pop_free_inv [OF inv c(2) L]
  obtain b' m' where p: "pop_free h c (b, m) = Ok (Some t, b', m')"
    "buddy_inv h (L(c := remove1 t (L c))) (b', m')" "same_regions (b, m) (b', m')"
    unfolding same_regions_def by (metis fst_conv)
  let ?L = "L(c := remove1 t (L c))"
  have fr: "free_bytes ?L = free_bytes L - block_range c t" by (rule free_bytes_remove [OF ok c(2) t])
  then have "block_range c t \<inter> free_bytes ?L = {}" by blast
  from split_down_inv [OF p(2) c(1) tok this]
  obtain L' s' where sp: "split_down h order c t (b', m') = Ok s'" "buddy_inv h L' s'"
    "same_regions (b', m') s'"
    "free_bytes L' = free_bytes ?L \<union> (block_range c t - block_range order t)" by blast
  have sub: "block_size_bytes order dvd block_size_bytes c" "block_size_bytes order \<le> block_size_bytes c"
    using c(1) by (auto simp: block_size_bytes_def le_imp_power_dvd mult_dvd_mono)
  then have tr: "block_range order t \<subseteq> block_range c t" by (auto simp: block_range_def)
  have in_free: "block_range c t \<subseteq> free_bytes L" using mem_free_bytes c(2) t by simp
  have "block_ok h order t" using tok sub order by (auto simp: block_ok_def intro: dvd_trans)
  moreover have "alloc_pages h order (b, m) = Ok (Some t, s')"
    using order c(2) p(1) sp(1) by (simp add: alloc_pages_def c_def [symmetric])
  moreover have "free_bytes L' = free_bytes L - block_range order t"
    using fr sp(4) tr in_free by blast
  moreover have "same_regions (b, m) s'" using p(3) sp(3) by (simp add: same_regions_def)
  ultimately show ?thesis using sp(2) tr in_free by blast
qed

lemma alloc_pages_none:
  assumes "buddy_inv h L (b, m)" "\<And>j. order \<le> j \<Longrightarrow> j \<le> MAX_ORDER \<Longrightarrow> L j = []"
  shows "alloc_pages h order (b, m) = Ok (None, b, m)"
  using find_order_spec [OF assms(1), of order] assms(2) by (auto simp: alloc_pages_def Let_def)

subsection \<open>Freeing\<close>










subsection \<open>Adding memory\<close>

lemma pick_order_spec:
  assumes "0 < pages" "PAGE_SIZE dvd base"
  shows "pick_order base pages n \<le> n \<and> 2 ^ pick_order base pages n \<le> pages \<and>
    block_size_bytes (pick_order base pages n) dvd base"
  using assms by (induction n) (auto simp: block_size_bytes_def mult.commute)

lemma carve_inv:
  assumes "buddy_inv h L s" "PAGE_SIZE dvd base" "base + pages * PAGE_SIZE + h \<le> USIZE_MAX"
    "{base ..< base + pages * PAGE_SIZE} \<inter> free_bytes L = {}"
  shows "\<exists>L' s'. carve h base pages s = Ok s' \<and> buddy_inv h L' s' \<and> same_regions s s' \<and>
    free_bytes L' = free_bytes L \<union> {base ..< base + pages * PAGE_SIZE}"
  using assms
proof (induction pages arbitrary: L s base rule: less_induct)
  case (less pages)
  show ?case
  proof (cases "pages = 0")
    case True
    then show ?thesis using less.prems(1) by (auto simp: carve.simps same_regions_def)
  next
    case False
    define k where "k = pick_order base pages MAX_ORDER"
    let ?used = "2 ^ k :: nat"
    have k: "k \<le> MAX_ORDER" "?used \<le> pages" "block_size_bytes k dvd base"
      using pick_order_spec [of pages base MAX_ORDER] False less.prems(2) by (auto simp: k_def)
    have sz: "block_size_bytes k = ?used * PAGE_SIZE" by (simp add: block_size_bytes_def)
    have le: "?used * PAGE_SIZE \<le> pages * PAGE_SIZE" using k(2) by simp
    let ?base = "base + ?used * PAGE_SIZE"
    have split: "{base ..< base + pages * PAGE_SIZE} = block_range k base \<union> {?base ..< base + pages * PAGE_SIZE}"
      "block_range k base \<inter> {?base ..< base + pages * PAGE_SIZE} = {}"
      using le unfolding block_range_def sz by (simp_all add: ivl_disj_un_two(3) ivl_disj_int_two(3))
    have rest: "?base + (pages - ?used) * PAGE_SIZE = base + pages * PAGE_SIZE"
      using le by (simp add: diff_mult_distrib)
    obtain b m where s: "s = (b, m)" by force
    have fit: "?base + h \<le> USIZE_MAX" using less.prems(3) le by linarith
    have "block_ok h k base" "block_range k base \<inter> free_bytes L = {}"
      using k fit less.prems(4) split(1) by (auto simp: block_ok_def sz)
    then obtain s1 where s1: "push_free h k base s = Ok s1" "buddy_inv h (L(k := base # L k)) s1"
      "same_regions s s1"
      unfolding same_regions_def s using push_free_inv [OF less.prems(1) [unfolded s]] by (metis fst_conv)
    have "\<exists>L' s'. carve h ?base (pages - ?used) s1 = Ok s' \<and> buddy_inv h L' s' \<and> same_regions s1 s' \<and>
      free_bytes L' = free_bytes (L(k := base # L k)) \<union> {?base ..< base + pages * PAGE_SIZE}"
      unfolding rest [symmetric]
    proof (rule less.IH [OF _ s1(2)])
      show "{?base ..< ?base + (pages - ?used) * PAGE_SIZE} \<inter> free_bytes (L(k := base # L k)) = {}"
        unfolding rest free_bytes_push [OF k(1), of L base] using split less.prems(4) by blast
    qed (use False less.prems(2,3) rest in auto)
    moreover have "\<And>s'. carve h ?base (pages - ?used) s1 = Ok s' \<Longrightarrow> carve h base pages s = Ok s'"
      using False s1(1) k(2) fit
      by (simp add: carve.simps [of h base] Let_def k_def [symmetric])
    ultimately show ?thesis
      using s1(3) split(1) free_bytes_push [OF k(1), of L base] by (fastforce simp: same_regions_def)
  qed
qed

subsection \<open>Orders\<close>

lemma next_power_from_spec:
  assumes "0 < n" "p = 2 ^ k" "p < 2 * n"
  shows "\<exists>j. next_power_from p n = 2 ^ j \<and> n \<le> 2 ^ j \<and> 2 ^ j < 2 * n"
  using assms
proof (induction p n arbitrary: k rule: next_power_from.induct)
  case (1 p n)
  show ?case
  proof (cases "n \<le> p")
    case True
    then have "next_power_from p n = 2 ^ k" using 1 by (subst next_power_from.simps) simp
    then show ?thesis using 1 True by metis
  next
    case False
    then have "next_power_from p n = next_power_from (2 * p) n"
      using "1.prems" by (subst next_power_from.simps) simp
    then show ?thesis using "1.IH" [of "Suc k"] "1.prems" False by simp
  qed
qed

lemma trailing_zeros_power [simp]: "trailing_zeros (2 ^ k) = k"
  by (induction k) (simp_all add: trailing_zeros.simps)

lemma order_for_pages_spec:
  assumes "order_for_pages pages = Some k"
  shows "k \<le> MAX_ORDER" "pages \<le> 2 ^ k" "2 ^ k < 2 * pages"
proof -
  have "0 < pages" using assms by (auto simp: order_for_pages_def split: if_splits)
  then obtain j where "next_power_of_two pages = 2 ^ j" "pages \<le> 2 ^ j" "2 ^ j < 2 * pages"
    using next_power_from_spec [of pages 1 0] by (auto simp: next_power_of_two_def)
  with assms show "k \<le> MAX_ORDER" "pages \<le> 2 ^ k" "2 ^ k < 2 * pages"
    by (auto simp: order_for_pages_def Let_def split: if_splits)
qed

subsection \<open>A state with one free block\<close>

definition one_list :: "nat \<Rightarrow> nat \<Rightarrow> free_lists" where
  "one_list k a = (\<lambda>_. [])(k := [a])"

definition one_block :: "PhysRegion \<Rightarrow> nat \<Rightarrow> nat \<Rightarrow> BuddyPageAllocator \<times> Mem" where
  "one_block r k a =
    (\<lparr>free_heads = (replicate (MAX_ORDER + 1) BUDDY_NONE)[k := a],
      regions = (replicate MAX_REGIONS EMPTY_REGION)[0 := r], region_count = 1\<rparr>,
     \<lparr>bn_magic = (\<lambda>_. 0)(a := BUDDY_FREE_MAGIC), bn_order = (\<lambda>_. k), bn_next = (\<lambda>_. BUDDY_NONE),
      bn_prev = (\<lambda>_. BUDDY_NONE), sp_class_index = (\<lambda>_. 0), sp_in_use = (\<lambda>_. 0), sp_capacity = (\<lambda>_. 0),
      sp_free_list = (\<lambda>_. 0), sp_next = (\<lambda>_. 0), slot_next = (\<lambda>_. 0)\<rparr>)"

lemma one_block_inv:
  assumes "block_ok 0 k a"
  shows "buddy_inv 0 (one_list k a) (one_block r k a)"
  using assms block_ok_bounds(1) [OF assms]
  by (auto simp: buddy_inv_def one_block_def one_list_def lists_ok_def heads_ok_def tags_ok_def
      blocks_def nth_list_update simp del: replicate_Suc split: if_splits)

lemma one_list_bytes: "k \<le> MAX_ORDER \<Longrightarrow> free_bytes (one_list k a) = block_range k a"
  by (auto simp: free_bytes_def blocks_def one_list_def split: if_splits)

lemmas block_eval = block_ok_def block_range_def block_size_bytes_def PAGE_SIZE_def MAX_ORDER_def
  USIZE_MAX_def one_list_def

subsection \<open>Properties\<close>

text \<open>
  C4. Allocation of a block of a given order: when a free block of that order
  or a larger one exists, the call returns a block that is aligned to its size
  and was entirely free, and afterwards exactly the bytes of that block are no
  longer free, so the rest of a split block stays free. When there is none, the
  call returns nothing and changes nothing. The free lists are well formed
  again and the call never panics.
\<close>

theorem alloc_pages_takes_one_block:
  assumes "buddy_inv h L (b, m)" "order \<le> MAX_ORDER"
  shows "if \<exists>j. order \<le> j \<and> j \<le> MAX_ORDER \<and> L j \<noteq> []
    then (\<exists>block L' s'. alloc_pages h order (b, m) = Ok (Some block, s') \<and> buddy_inv h L' s' \<and>
           block_size_bytes order dvd block \<and> block_range order block \<subseteq> free_bytes L \<and>
           free_bytes L' = free_bytes L - block_range order block)
    else alloc_pages h order (b, m) = Ok (None, b, m)"
proof (cases "\<exists>j. order \<le> j \<and> j \<le> MAX_ORDER \<and> L j \<noteq> []")
  case True
  then obtain j where "j \<le> MAX_ORDER" "order \<le> j" "L j \<noteq> []" by blast
  from alloc_pages_inv [OF assms this] True show ?thesis unfolding block_ok_def by auto
next
  case False
  with alloc_pages_none [OF assms(1)] show ?thesis by auto
qed

theorem alloc_pages_takes_one_block_witness:
  "\<exists>block L' s'. alloc_pages 0 0 (one_block EMPTY_REGION 1 8192) = Ok (Some block, s') \<and> buddy_inv 0 L' s' \<and>
     block_range 0 block \<subseteq> {8192 ..< 16384} \<and> free_bytes L' = {8192 ..< 16384} - block_range 0 block"
proof -
  let ?s = "one_block EMPTY_REGION 1 8192"
  have "buddy_inv 0 (one_list 1 8192) (fst ?s, snd ?s)"
    using one_block_inv [of 1 8192 EMPTY_REGION] by (simp add: block_eval)
  moreover have "\<exists>j. 0 \<le> j \<and> j \<le> MAX_ORDER \<and> one_list 1 8192 j \<noteq> []"
    by (rule exI [of _ 1]) (simp add: block_eval)
  moreover have "free_bytes (one_list 1 8192) = {8192 ..< 16384}"
    using one_list_bytes [of 1 8192] by (simp add: block_eval)
  ultimately show ?thesis
    using alloc_pages_takes_one_block [of 0 "one_list 1 8192" "fst ?s" "snd ?s" 0] by auto
qed





text \<open>
  C7. Handing a page-aligned range to the allocator: when the range does not
  wrap around and none of its bytes is free, the call terminates without
  panicking and makes exactly the bytes of the range free, carved into blocks
  that are aligned to their size.
\<close>

theorem buddy_add_range_frees_range:
  assumes "buddy_inv h L (b, m)" "PAGE_SIZE dvd base" "base + pages * PAGE_SIZE + h \<le> USIZE_MAX"
    "{base ..< base + pages * PAGE_SIZE} \<inter> free_bytes L = {}"
  shows "\<exists>L' s'. buddy_add_range h base pages (b, m) = Ok s' \<and> buddy_inv h L' s' \<and>
    free_bytes L' = free_bytes L \<union> {base ..< base + pages * PAGE_SIZE}"
proof -
  have "buddy_inv h L (add_region base (base + pages * PAGE_SIZE) b, m)"
    using assms(1) by (simp add: buddy_inv_def heads_ok_def add_region_def)
  from carve_inv [OF this assms(2-4)] assms(1,3) show ?thesis
    by (auto simp: buddy_add_range_def)
qed

theorem buddy_add_range_frees_range_witness:
  "\<exists>L' s'. buddy_add_range 0 0x3000 3 (one_block EMPTY_REGION 0 0) = Ok s' \<and> buddy_inv 0 L' s' \<and>
     free_bytes L' = {0 ..< 0x1000} \<union> {0x3000 ..< 0x6000}"
proof -
  let ?s = "one_block EMPTY_REGION 0 0"
  have inv: "buddy_inv 0 (one_list 0 0) (fst ?s, snd ?s)"
    using one_block_inv [where r = EMPTY_REGION] by (simp add: block_eval)
  have free: "free_bytes (one_list 0 0) = {0 ..< 0x1000}"
    using one_list_bytes [of 0 0] by (simp add: block_eval)
  show ?thesis
    using buddy_add_range_frees_range [OF inv, of "0x3000" 3] free by (simp add: PAGE_SIZE_def USIZE_MAX_def)
qed

end
