(* ===== verification/Vfs.thy ===== *)
theory Vfs
  imports Cab_Prelude
begin

section \<open>The virtual file system\<close>

text \<open>
  Model of \<^verbatim>\<open>src/src/fs/vfs.rs\<close>: the registry of filesystems, mount points and
  path traversal. The filesystems behind the traits \<^verbatim>\<open>Filesystem\<close> and
  \<^verbatim>\<open>VNode\<close> are the record \<open>vnode_ops\<close> of the methods the VFS calls. The
  identifier that a filesystem is given on registration is part of the VFS
  state, since the keys of its nodes depend on it.

  The lemmas show that a mount is visible in path traversal in both directions,
  that unmounting undoes mounting, that traversal of a joined path is the
  composition of the traversals of its parts, and what happens when one
  filesystem is mounted twice.
\<close>

subsection \<open>Types\<close>

datatype FsError =
    PathMalformed | NotFound | AlreadyExists | NoSpace | FsWriteError | FsReadError
  | InvalidInput | InvalidOperation | NotImplemented | Corrupted string | FsOther string

datatype INodeType = INodeFile | INodeDirectory | INodeChar | INodeBlock | INodeOther

record INodeKey =
  filesystem_id :: nat
  inumber :: nat

record ('f, 'n) vnode_ops =
  vn_type :: "'n \<Rightarrow> INodeType"
  vn_key :: "('f \<Rightarrow> nat option) \<Rightarrow> 'n \<Rightarrow> (FsError, INodeKey) outcome"
  vn_lookup :: "'n \<Rightarrow> string \<Rightarrow> (FsError, 'n) outcome"
  fs_root :: "'f \<Rightarrow> (FsError, 'n) outcome"
  fs_inode :: "'f \<Rightarrow> nat \<Rightarrow> (FsError, 'n) outcome"

record ('f, 'n) VFS =
  filesystems :: "nat \<Rightarrow> 'f option"
  filesystem_id_counter :: nat
  mount_points :: "INodeKey \<Rightarrow> 'n option"
  reverse_mount_points :: "INodeKey \<Rightarrow> 'n option"
  vfs_root :: "'n option"
  fs_ids :: "'f \<Rightarrow> nat option"

definition vfs_init :: "('f, 'n) VFS" where
  "vfs_init = \<lparr>filesystems = (\<lambda>_. None), filesystem_id_counter = 0, mount_points = (\<lambda>_. None),
     reverse_mount_points = (\<lambda>_. None), vfs_root = None, fs_ids = (\<lambda>_. None)\<rparr>"

subsection \<open>Operations\<close>

definition register_filesystem :: "'f \<Rightarrow> ('f, 'n) VFS \<Rightarrow> ('f, 'n) VFS" where
  "register_filesystem fs v =
    (let (fid, v1) =
       (case fs_ids v fs of
          Some i \<Rightarrow> (i, v)
        | None \<Rightarrow> (let i = filesystem_id_counter v
                   in (i, v\<lparr>filesystem_id_counter := wrapping_add i 1,
                            fs_ids := (fs_ids v)(fs \<mapsto> i)\<rparr>)))
     in v1\<lparr>filesystems := (case filesystems v1 fid of
                             Some _ \<Rightarrow> filesystems v1
                           | None \<Rightarrow> (filesystems v1)(fid \<mapsto> fs))\<rparr>)"

definition get_inode :: "('f, 'n) vnode_ops \<Rightarrow> INodeKey \<Rightarrow> ('f, 'n) VFS \<Rightarrow> (FsError, 'n) outcome" where
  "get_inode N key v =
    obind (ok_or NotFound (filesystems v (filesystem_id key))) (\<lambda>fs. fs_inode N fs (inumber key))"

definition set_root ::
  "('f, 'n) vnode_ops \<Rightarrow> 'f \<Rightarrow> ('f, 'n) VFS \<Rightarrow> (FsError, unit) outcome \<times> ('f, 'n) VFS" where
  "set_root N fs v =
    (let v1 = register_filesystem fs v
     in case fs_root N fs of
          Ok root_fs \<Rightarrow> (Ok (), v1\<lparr>vfs_root := (case vfs_root v1 of None \<Rightarrow> Some root_fs | Some r \<Rightarrow> Some r)\<rparr>)
        | Err e \<Rightarrow> (Err e, v1)
        | Panic \<Rightarrow> (Panic, v1))"

definition mount ::
  "('f, 'n) vnode_ops \<Rightarrow> 'n \<Rightarrow> 'f \<Rightarrow> ('f, 'n) VFS \<Rightarrow> (FsError, unit) outcome \<times> ('f, 'n) VFS" where
  "mount N mountpoint fs v =
    (if vn_type N mountpoint \<noteq> INodeDirectory then (Err InvalidOperation, v)
     else let v1 = register_filesystem fs v
          in case vn_key N (fs_ids v1) mountpoint of
               Ok mountpoint_key \<Rightarrow>
                 (case fs_root N fs of
                    Ok mount_root \<Rightarrow>
                      (let v2 = v1\<lparr>mount_points := (mount_points v1)(mountpoint_key \<mapsto> mount_root)\<rparr>
                       in case vn_key N (fs_ids v2) mount_root of
                            Ok root_key \<Rightarrow>
                              (Ok (), v2\<lparr>reverse_mount_points :=
                                 (reverse_mount_points v2)(root_key \<mapsto> mountpoint)\<rparr>)
                          | Err e \<Rightarrow> (Err e, v2)
                          | Panic \<Rightarrow> (Panic, v2))
                  | Err e \<Rightarrow> (Err e, v1)
                  | Panic \<Rightarrow> (Panic, v1))
             | Err e \<Rightarrow> (Err e, v1)
             | Panic \<Rightarrow> (Panic, v1))"

definition unmount ::
  "('f, 'n) vnode_ops \<Rightarrow> 'n \<Rightarrow> ('f, 'n) VFS \<Rightarrow> (FsError, ('f, 'n) VFS) outcome" where
  "unmount N mountpoint v =
    obind (vn_key N (fs_ids v) mountpoint) (\<lambda>mountpoint_key.
    obind (ok_or NotFound (mount_points v mountpoint_key)) (\<lambda>mount_root.
    obind (vn_key N (fs_ids v) mount_root) (\<lambda>mount_root_key.
    if reverse_mount_points v mount_root_key = None
    then Err (Corrupted ''mount point is missing its reverse mapping'')
    else Ok (v\<lparr>mount_points := (mount_points v)(mountpoint_key := None),
               reverse_mount_points := (reverse_mount_points v)(mount_root_key := None)\<rparr>))))"

fun split_on :: "char \<Rightarrow> string \<Rightarrow> string list" where
  "split_on c [] = [[]]"
| "split_on c (x # xs) =
    (if x = c then [] # split_on c xs
     else case split_on c xs of [] \<Rightarrow> [[x]] | w # ws \<Rightarrow> (x # w) # ws)"

definition path_components :: "string \<Rightarrow> string list" where
  "path_components path = filter (\<lambda>s. s \<noteq> []) (split_on CHR ''/'' path)"

definition step_component ::
  "('f, 'n) vnode_ops \<Rightarrow> ('f, 'n) VFS \<Rightarrow> 'n \<Rightarrow> string \<Rightarrow> (FsError, 'n) outcome" where
  "step_component N v node component =
    (if component = ''.'' then Ok node
     else if component = ''..''
     then obind (vn_key N (fs_ids v) node) (\<lambda>key.
          case reverse_mount_points v key of
            Some mnt \<Rightarrow> vn_lookup N mnt component
          | None \<Rightarrow> vn_lookup N node component)
     else obind (vn_lookup N node component) (\<lambda>child.
          obind (vn_key N (fs_ids v) child) (\<lambda>key.
          case mount_points v key of
            Some mnt \<Rightarrow> Ok mnt
          | None \<Rightarrow> Ok child)))"

fun walk ::
  "('f, 'n) vnode_ops \<Rightarrow> ('f, 'n) VFS \<Rightarrow> 'n \<Rightarrow> string list \<Rightarrow> (FsError, 'n) outcome" where
  "walk N v node [] = Ok node"
| "walk N v node (c # cs) = obind (step_component N v node c) (\<lambda>node'. walk N v node' cs)"

definition enter_mount ::
  "('f, 'n) vnode_ops \<Rightarrow> ('f, 'n) VFS \<Rightarrow> 'n \<Rightarrow> (FsError, 'n) outcome" where
  "enter_mount N v node =
    obind (vn_key N (fs_ids v) node) (\<lambda>key.
    Ok (case mount_points v key of Some mnt \<Rightarrow> mnt | None \<Rightarrow> node))"

definition traverse_path ::
  "('f, 'n) vnode_ops \<Rightarrow> ('f, 'n) VFS \<Rightarrow> 'n \<Rightarrow> string \<Rightarrow> (FsError, 'n) outcome" where
  "traverse_path N v start_node path =
    (if path = [] then Err PathMalformed
     else obind (enter_mount N v start_node) (\<lambda>node. walk N v node (path_components path)))"

subsection \<open>Paths\<close>

lemma split_on_ne [simp]: "split_on c xs \<noteq> []"
  by (induction xs) (auto split: list.splits)

lemma split_on_append: "split_on c (xs @ c # ys) = split_on c xs @ split_on c ys"
  by (induction xs) (auto split: list.splits)

lemma path_components_append:
  "path_components (p @ CHR ''/'' # q) = path_components p @ path_components q"
  by (simp add: path_components_def split_on_append)

lemma walk_append: "walk N v n (xs @ ys) = obind (walk N v n xs) (\<lambda>m. walk N v m ys)"
proof (induction xs arbitrary: n)
  case (Cons c cs)
  then show ?case by (cases "step_component N v n c") auto
qed simp

subsection \<open>Registration and mounting\<close>

lemma register_ids:
  "\<exists>i. fs_ids (register_filesystem fs v) fs = Some i"
  "fs_ids v fs = Some i \<Longrightarrow> fs_ids (register_filesystem fs v) = fs_ids v"
  by (auto simp: register_filesystem_def Let_def split: option.splits)

lemma register_mounts [simp]:
  "mount_points (register_filesystem fs v) = mount_points v"
  "reverse_mount_points (register_filesystem fs v) = reverse_mount_points v"
  "vfs_root (register_filesystem fs v) = vfs_root v"
  by (auto simp: register_filesystem_def Let_def split: option.splits)

lemma mount_Ok:
  assumes "mount N mp fs v = (Ok (), v')"
  obtains k r rk where "vn_key N (fs_ids v') mp = Ok k" "fs_root N fs = Ok r" "vn_key N (fs_ids v') r = Ok rk"
    "mount_points v' = (mount_points v)(k \<mapsto> r)" "reverse_mount_points v' = (reverse_mount_points v)(rk \<mapsto> mp)"
    "fs_ids v' = fs_ids (register_filesystem fs v)" "vn_type N mp = INodeDirectory"
  using assms by (auto simp: mount_def Let_def split: if_splits outcome.splits)

subsection \<open>Properties\<close>

text \<open>
  C20. A successful mount is visible to path traversal in both directions:
  stepping from any directory to a child that has the key of the mount point
  gives the root of the mounted filesystem, and stepping from that root to its
  parent gives the parent of the mount point.
\<close>

theorem mount_is_traversed:
  assumes "mount N mp fs v = (Ok (), v')" "fs_root N fs = Ok r"
    "vn_lookup N dir name = Ok child" "vn_key N (fs_ids v') child = vn_key N (fs_ids v') mp"
    "name \<noteq> ''.''" "name \<noteq> ''..''"
  shows "step_component N v' dir name = Ok r \<and> step_component N v' r ''..'' = vn_lookup N mp ''..''"
  using assms(1)
proof (rule mount_Ok)
  fix k r' rk
  assume "vn_key N (fs_ids v') mp = Ok k" "fs_root N fs = Ok r'" "vn_key N (fs_ids v') r' = Ok rk"
    "mount_points v' = (mount_points v)(k \<mapsto> r')" "reverse_mount_points v' = (reverse_mount_points v)(rk \<mapsto> mp)"
  then show ?thesis using assms(2-6) by (simp add: step_component_def)
qed

text \<open>
  Unmounting undoes mounting: after a successful mount on a node that was
  not a mount point, of a filesystem whose root was not mounted elsewhere,
  unmounting that node succeeds and both maps of mount points are as before.
\<close>

theorem unmount_undoes_mount:
  assumes "mount N mp fs v = (Ok (), v')" "fs_root N fs = Ok r"
    "\<And>k. vn_key N (fs_ids v') mp = Ok k \<Longrightarrow> mount_points v k = None"
    "\<And>k. vn_key N (fs_ids v') r = Ok k \<Longrightarrow> reverse_mount_points v k = None"
  shows "\<exists>w. unmount N mp v' = Ok w \<and> mount_points w = mount_points v \<and>
    reverse_mount_points w = reverse_mount_points v"
  using assms(1)
proof (rule mount_Ok)
  fix k r' rk
  assume a: "vn_key N (fs_ids v') mp = Ok k" "fs_root N fs = Ok r'" "vn_key N (fs_ids v') r' = Ok rk"
    "mount_points v' = (mount_points v)(k \<mapsto> r')" "reverse_mount_points v' = (reverse_mount_points v)(rk \<mapsto> mp)"
  have "mount_points v k = None" "reverse_mount_points v rk = None"
    using assms(2-4) a by auto
  then show ?thesis using a by (auto simp: unmount_def fun_eq_iff)
qed

text \<open>
  A joined path is traversed in two steps: when the first part leads to a
  node that is not itself covered by a mount, traversing \<open>p/q\<close> from a node is
  traversing \<open>q\<close> from the node that \<open>p\<close> leads to. When the first part fails,
  the joined path fails with the same error.
\<close>

theorem traverse_joined_path:
  assumes "p \<noteq> []" "q \<noteq> []"
  shows "case traverse_path N v start p of
      Ok m \<Rightarrow> enter_mount N v m = Ok m \<longrightarrow>
              traverse_path N v start (p @ CHR ''/'' # q) = traverse_path N v m q
    | r \<Rightarrow> traverse_path N v start (p @ CHR ''/'' # q) = r"
proof (cases "enter_mount N v start")
  case (Ok n)
  then have "traverse_path N v start (p @ CHR ''/'' # q)
      = obind (traverse_path N v start p) (\<lambda>m. walk N v m (path_components q))"
    using assms by (simp add: traverse_path_def path_components_append walk_append)
  then show ?thesis
    using assms(2) by (auto simp: traverse_path_def split: outcome.split)
qed (use assms in \<open>auto simp: traverse_path_def\<close>)

text \<open>
  C21. Mounting one filesystem on two different nodes loses the record of the
  first mount: the second mount replaces the reverse entry of the shared root,
  so after unmounting the first node the second can never be unmounted, the
  call reports a corrupted table.
\<close>

theorem second_mount_cannot_be_unmounted:
  assumes "mount N mp1 fs v = (Ok (), v1)" "mount N mp2 fs v1 = (Ok (), v2)"
    "vn_key N (fs_ids v2) mp1 \<noteq> vn_key N (fs_ids v2) mp2"
  shows "\<exists>w. unmount N mp1 v2 = Ok w \<and>
    unmount N mp2 w = Err (Corrupted ''mount point is missing its reverse mapping'')"
proof (rule mount_Ok [OF assms(1)], rule mount_Ok [OF assms(2)])
  fix k1 r rk k2 r2 rk2
  assume a: "vn_key N (fs_ids v1) mp1 = Ok k1" "fs_root N fs = Ok r" "vn_key N (fs_ids v1) r = Ok rk"
      "mount_points v1 = (mount_points v)(k1 \<mapsto> r)" "fs_ids v1 = fs_ids (register_filesystem fs v)"
    and b: "vn_key N (fs_ids v2) mp2 = Ok k2" "fs_root N fs = Ok r2" "vn_key N (fs_ids v2) r2 = Ok rk2"
      "mount_points v2 = (mount_points v1)(k2 \<mapsto> r2)"
      "reverse_mount_points v2 = (reverse_mount_points v1)(rk2 \<mapsto> mp2)"
      "fs_ids v2 = fs_ids (register_filesystem fs v1)"
  have "fs_ids v2 = fs_ids v1"
    using a(5) b(6) register_ids(1) [of fs v] register_ids(2) [of v1 fs] by auto
  moreover have "k1 \<noteq> k2" using assms(3) a(1) b(1) calculation by auto
  ultimately show ?thesis using a b by (auto simp: unmount_def)
qed

end
