(* ===== verification/Open_File.thy ===== *)
theory Open_File
  imports Vfs
begin

section \<open>Open files\<close>

text \<open>
  Model of \<^verbatim>\<open>src/src/fs/file.rs\<close>: an open file is a node and an offset. The node
  is reached through the methods \<^verbatim>\<open>read_unaligned\<close>, \<^verbatim>\<open>write_unaligned\<close>,
  \<^verbatim>\<open>size\<close> and \<^verbatim>\<open>seekable\<close> of the trait \<^verbatim>\<open>VNode\<close>, here the record
  \<open>file_node\<close> over a state of the filesystem.

  The locale \<open>byte_file\<close> is the contract of a regular file: reading gives the
  bytes of its content, writing replaces them and extends the content with
  zeros where the write starts past the end. The lemmas inside it show the
  behaviour of sequences of reads, writes and seeks on an open file once for
  every filesystem that satisfies the contract.
\<close>

subsection \<open>State and operations\<close>

record 's file_node =
  fn_read :: "nat \<Rightarrow> byte list \<Rightarrow> 's \<Rightarrow> (FsError, byte list \<times> nat) outcome"
  fn_write :: "nat \<Rightarrow> byte list \<Rightarrow> 's \<Rightarrow> (FsError, nat \<times> 's) outcome"
  fn_size :: "'s \<Rightarrow> nat"
  fn_seekable :: "'s \<Rightarrow> bool"

record 's File =
  file_offset :: nat
  file_fs :: 's

definition file_new :: "'s \<Rightarrow> 's File" where
  "file_new s = \<lparr>file_offset = 0, file_fs = s\<rparr>"

definition file_read :: "'s file_node \<Rightarrow> byte list \<Rightarrow> 's File \<Rightarrow> (FsError, byte list \<times> nat \<times> 's File) outcome" where
  "file_read V buf f =
    obind (fn_read V (file_offset f) buf (file_fs f)) (\<lambda>(buf', bytes_read).
    obind (uadd (file_offset f) bytes_read) (\<lambda>off.
    Ok (buf', bytes_read, f\<lparr>file_offset := off\<rparr>)))"

definition file_write :: "'s file_node \<Rightarrow> byte list \<Rightarrow> 's File \<Rightarrow> (FsError, nat \<times> 's File) outcome" where
  "file_write V buf f =
    obind (fn_write V (file_offset f) buf (file_fs f)) (\<lambda>(bytes_written, s').
    obind (uadd (file_offset f) bytes_written) (\<lambda>off.
    Ok (bytes_written, f\<lparr>file_offset := off, file_fs := s'\<rparr>)))"

definition SEEK_SET :: int where "SEEK_SET = 0"
definition SEEK_CUR :: int where "SEEK_CUR = 1"
definition SEEK_END :: int where "SEEK_END = 2"

definition file_seek :: "'s file_node \<Rightarrow> int \<Rightarrow> int \<Rightarrow> 's File \<Rightarrow> (FsError, nat \<times> 's File) outcome" where
  "file_seek V offset whence f =
    (if \<not> fn_seekable V (file_fs f) then Err InvalidOperation
     else obind (if whence = SEEK_SET then Ok 0
                 else if whence = SEEK_CUR then Ok (int (file_offset f))
                 else if whence = SEEK_END then Ok (int (fn_size V (file_fs f)))
                 else Err InvalidInput) (\<lambda>base.
          let new_offset = base + offset
          in if new_offset < - (2 ^ 127) \<or> 2 ^ 127 - 1 < new_offset then Err InvalidInput
             else if new_offset < 0 \<or> int USIZE_MAX < new_offset then Err InvalidInput
             else Ok (nat new_offset, f\<lparr>file_offset := nat new_offset\<rparr>)))"

subsection \<open>The content of a file\<close>

definition resize :: "nat \<Rightarrow> byte list \<Rightarrow> byte list" where
  "resize n xs = take n xs @ replicate (n - length xs) 0"

definition write_at :: "nat \<Rightarrow> byte list \<Rightarrow> byte list \<Rightarrow> byte list" where
  "write_at off buf xs = blit off buf (if length xs < off + length buf then resize (off + length buf) xs else xs)"

lemma length_resize [simp]: "length (resize n xs) = n"
  by (simp add: resize_def)

lemma nth_resize: "i < n \<Longrightarrow> resize n xs ! i = (if i < length xs then xs ! i else 0)"
  by (auto simp: resize_def nth_append)

lemma length_write_at [simp]: "length (write_at off buf xs) = max (length xs) (off + length buf)"
  by (auto simp: write_at_def max_def)

lemma nth_write_at:
  "i < max (length xs) (off + length buf) \<Longrightarrow> write_at off buf xs ! i =
    (if off \<le> i \<and> i < off + length buf then buf ! (i - off) else if i < length xs then xs ! i else 0)"
  by (auto simp: write_at_def nth_blit nth_resize)

lemma slice_write_at: "subslice off (length buf) (write_at off buf xs) = buf"
  by (intro nth_equalityI) (auto simp: nth_slice nth_write_at)

subsection \<open>The contract of a regular file\<close>

locale byte_file =
  fixes V :: "'s file_node" and content :: "'s \<Rightarrow> byte list" and ok :: "'s \<Rightarrow> bool"
  assumes read_law: "ok s \<Longrightarrow> fn_read V off buf s
      = Ok (blit 0 (subslice off (length buf) (content s)) buf, length (subslice off (length buf) (content s)))"
    and write_law: "ok s \<Longrightarrow> off + length buf \<le> USIZE_MAX \<Longrightarrow>
      \<exists>s'. fn_write V off buf s = Ok (length buf, s') \<and> ok s' \<and> content s' = write_at off buf (content s)"
    and size_law: "ok s \<Longrightarrow> fn_size V s = length (content s)"
    and seekable_law: "ok s \<Longrightarrow> fn_seekable V s"
    and bound: "ok s \<Longrightarrow> length (content s) \<le> USIZE_MAX"
begin

lemma file_write_spec:
  assumes "ok (file_fs f)" "file_offset f + length buf \<le> USIZE_MAX"
  obtains f' where "file_write V buf f = Ok (length buf, f')" "ok (file_fs f')"
    "file_offset f' = file_offset f + length buf"
    "content (file_fs f') = write_at (file_offset f) buf (content (file_fs f))"
proof -
  from write_law [OF assms] obtain s' where s': "fn_write V (file_offset f) buf (file_fs f) = Ok (length buf, s')"
    "ok s'" "content s' = write_at (file_offset f) buf (content (file_fs f))" by blast
  let ?f = "f\<lparr>file_offset := file_offset f + length buf, file_fs := s'\<rparr>"
  have "file_write V buf f = Ok (length buf, ?f)" using s'(1) assms(2) by (simp add: file_write_def)
  then show thesis using that [of ?f] s' by simp
qed

lemma file_read_spec:
  assumes "ok (file_fs f)" "file_offset f \<le> length (content (file_fs f))"
  shows "file_read V buf f =
    (let got = subslice (file_offset f) (length buf) (content (file_fs f))
     in Ok (blit 0 got buf, length got, f\<lparr>file_offset := file_offset f + length got\<rparr>))"
  using assms bound [OF assms(1)] by (simp add: file_read_def read_law Let_def)

lemma file_seek_set:
  assumes "ok (file_fs f)" "n \<le> USIZE_MAX"
  shows "file_seek V (int n) SEEK_SET f = Ok (n, f\<lparr>file_offset := n\<rparr>)"
  using assms by (simp add: file_seek_def seekable_law Let_def USIZE_MAX_def)

lemma file_seek_end:
  assumes "ok (file_fs f)"
  shows "file_seek V 0 SEEK_END f = Ok (length (content (file_fs f)), f\<lparr>file_offset := length (content (file_fs f))\<rparr>)"
  using assms bound [OF assms]
  by (simp add: file_seek_def seekable_law size_law Let_def USIZE_MAX_def SEEK_END_def SEEK_SET_def SEEK_CUR_def)

lemma write_seek_read:
  assumes "ok (file_fs f)" "file_offset f + length buf \<le> USIZE_MAX" "length out = length buf"
  shows "\<exists>f1 f2 f3. file_write V buf f = Ok (length buf, f1) \<and>
    file_seek V (int (file_offset f)) SEEK_SET f1 = Ok (file_offset f, f2) \<and>
    file_read V out f2 = Ok (buf, length buf, f3) \<and> file_offset f3 = file_offset f + length buf"
proof -
  obtain f1 where f1: "file_write V buf f = Ok (length buf, f1)" "ok (file_fs f1)"
    "content (file_fs f1) = write_at (file_offset f) buf (content (file_fs f))"
    by (rule file_write_spec [OF assms(1,2)])
  let ?f2 = "f1\<lparr>file_offset := file_offset f\<rparr>"
  have "file_offset f \<le> USIZE_MAX" using assms(2) by simp
  then have "file_seek V (int (file_offset f)) SEEK_SET f1 = Ok (file_offset f, ?f2)"
    by (rule file_seek_set [OF f1(2)])
  moreover have "subslice (file_offset f) (length out) (content (file_fs ?f2)) = buf"
    using f1(3) slice_write_at assms(3) by simp
  moreover have "file_offset ?f2 \<le> length (content (file_fs ?f2))" using f1(3) by simp
  ultimately show ?thesis
    using f1(1,2) file_read_spec [of ?f2 out] assms(3) by (simp add: Let_def blit_def)
qed

end

subsection \<open>Properties\<close>

text \<open>
  Seeking: on a seekable node the new offset is the origin named by the
  second argument (the start, the current offset, or the size) plus the first,
  and the call succeeds exactly when that sum is a valid offset. On failure and
  for an unknown origin it reports an error, and no other part of the file
  changes.
\<close>

theorem file_seek_spec:
  assumes "fn_seekable V (file_fs f)" "- (2 ^ 63) \<le> offset" "offset < 2 ^ 63"
    "file_offset f \<le> USIZE_MAX" "fn_size V (file_fs f) \<le> USIZE_MAX"
  shows "file_seek V offset whence f =
    (case (if whence = SEEK_SET then Some 0 else if whence = SEEK_CUR then Some (int (file_offset f))
           else if whence = SEEK_END then Some (int (fn_size V (file_fs f))) else None) of
       None \<Rightarrow> Err InvalidInput
     | Some origin \<Rightarrow> if 0 \<le> origin + offset \<and> origin + offset \<le> int USIZE_MAX
                      then Ok (nat (origin + offset), f\<lparr>file_offset := nat (origin + offset)\<rparr>)
                      else Err InvalidInput)"
  using assms by (auto simp: file_seek_def Let_def USIZE_MAX_def)

end
