(* ===== verification/Ramfs.thy ===== *)
theory Ramfs
  imports Open_File
begin

section \<open>The RAM filesystem\<close>

text \<open>
  Model of \<^verbatim>\<open>src/src/fs/ramfs.rs\<close>. The filesystem is a vector of inodes, each a
  file with its bytes or a directory with its entries; a node handle is the
  index of its inode. The weak reference of an inode to its filesystem is taken
  to be alive. A page that the page-cache methods fill or read is a list of
  bytes.

  The lemmas show the behaviour of the directory operations and that a file of
  the filesystem satisfies the contract \<open>byte_file\<close> of open files. The last
  section uses the filesystem as the instance of the node methods of the VFS.
\<close>

subsection \<open>State and operations\<close>

datatype RamInodeKind = RamFile "byte list" | RamDir "(string \<times> nat) list"

record RamFilesystem =
  inodes :: "RamInodeKind list"
  fs_id :: "nat option"

definition ramfs_new :: RamFilesystem where
  "ramfs_new = \<lparr>inodes = [RamDir []], fs_id = None\<rparr>"

definition alloc_inode :: "RamInodeKind \<Rightarrow> RamFilesystem \<Rightarrow> nat \<times> RamFilesystem" where
  "alloc_inode kind fs = (length (inodes fs), fs\<lparr>inodes := inodes fs @ [kind]\<rparr>)"

definition ram_get_inode :: "nat \<Rightarrow> RamFilesystem \<Rightarrow> (FsError, nat) outcome" where
  "ram_get_inode n fs = (if n < length (inodes fs) then Ok n else Err NotFound)"

definition ram_get_root :: "RamFilesystem \<Rightarrow> (FsError, nat) outcome" where
  "ram_get_root fs = ram_get_inode 0 fs"

definition as_dir :: "nat \<Rightarrow> RamFilesystem \<Rightarrow> (FsError, (string \<times> nat) list) outcome" where
  "as_dir n fs = (case inodes fs ! n of RamDir entries \<Rightarrow> Ok entries | _ \<Rightarrow> Err InvalidOperation)"

definition as_file :: "nat \<Rightarrow> RamFilesystem \<Rightarrow> (FsError, byte list) outcome" where
  "as_file n fs = (case inodes fs ! n of RamFile data \<Rightarrow> Ok data | _ \<Rightarrow> Err InvalidOperation)"

definition ram_get_type :: "nat \<Rightarrow> RamFilesystem \<Rightarrow> INodeType" where
  "ram_get_type n fs = (case inodes fs ! n of RamFile _ \<Rightarrow> INodeFile | RamDir _ \<Rightarrow> INodeDirectory)"

definition ram_read_page :: "nat \<Rightarrow> nat \<Rightarrow> RamFilesystem \<Rightarrow> (FsError, byte list \<times> nat) outcome" where
  "ram_read_page n offset fs =
    obind (as_file n fs) (\<lambda>data.
    let page = replicate PAGE_SIZE 0
    in if length data \<le> offset then Ok (page, 0)
       else let len = min PAGE_SIZE (length data - offset)
            in Ok (blit 0 (subslice offset len data) page, len))"

definition ram_write_page :: "nat \<Rightarrow> byte list \<Rightarrow> nat \<Rightarrow> RamFilesystem \<Rightarrow> (FsError, nat \<times> RamFilesystem) outcome" where
  "ram_write_page n page offset fs =
    obind (as_file n fs) (\<lambda>data.
    let e = min (offset + PAGE_SIZE) USIZE_MAX;
        data1 = (if length data < e then resize e data else data)
    in if e < offset \<or> e - offset \<noteq> length page then Panic
       else Ok (PAGE_SIZE, fs\<lparr>inodes := (inodes fs)[n := RamFile (blit offset page data1)]\<rparr>))"

definition ram_lookup :: "nat \<Rightarrow> string \<Rightarrow> RamFilesystem \<Rightarrow> (FsError, nat) outcome" where
  "ram_lookup n target fs =
    obind (as_dir n fs) (\<lambda>entries.
    obind (ok_or NotFound (map_of entries target)) (\<lambda>inum.
    ram_get_inode inum fs))"

definition ram_add_entry :: "nat \<Rightarrow> string \<Rightarrow> nat \<Rightarrow> RamFilesystem \<Rightarrow> (FsError, RamFilesystem) outcome" where
  "ram_add_entry n target inum fs =
    obind (as_dir n fs) (\<lambda>entries.
    if map_of entries target \<noteq> None then Err AlreadyExists
    else Ok (fs\<lparr>inodes := (inodes fs)[n := RamDir ((target, inum) # entries)]\<rparr>))"

definition ram_create_child ::
  "nat \<Rightarrow> string \<Rightarrow> INodeType \<Rightarrow> RamFilesystem \<Rightarrow> (FsError, nat) outcome \<times> RamFilesystem" where
  "ram_create_child n name inode_type fs =
    (case (case inode_type of
             INodeFile \<Rightarrow> Ok (RamFile [])
           | INodeDirectory \<Rightarrow> Ok (RamDir [])
           | _ \<Rightarrow> Err InvalidOperation) of
       Ok new_kind \<Rightarrow>
         (let (number, fs1) = alloc_inode new_kind fs
          in case ram_add_entry n name number fs1 of
               Ok fs2 \<Rightarrow> (Ok number, fs2)
             | Err e \<Rightarrow> (Err e, fs1)
             | Panic \<Rightarrow> (Panic, fs1))
     | Err e \<Rightarrow> (Err e, fs)
     | Panic \<Rightarrow> (Panic, fs))"

definition ram_size :: "nat \<Rightarrow> RamFilesystem \<Rightarrow> nat" where
  "ram_size n fs = (case inodes fs ! n of RamFile data \<Rightarrow> length data | RamDir entries \<Rightarrow> length entries)"

definition ram_read_unaligned :: "nat \<Rightarrow> nat \<Rightarrow> byte list \<Rightarrow> RamFilesystem \<Rightarrow> (FsError, byte list \<times> nat) outcome" where
  "ram_read_unaligned n offset buffer fs =
    obind (as_file n fs) (\<lambda>data.
    if length data \<le> offset then Ok (buffer, 0)
    else let len = min (length buffer) (length data - offset)
         in Ok (blit 0 (subslice offset len data) buffer, len))"

definition ram_write_unaligned :: "nat \<Rightarrow> nat \<Rightarrow> byte list \<Rightarrow> RamFilesystem \<Rightarrow> (FsError, nat \<times> RamFilesystem) outcome" where
  "ram_write_unaligned n offset buffer fs =
    obind (as_file n fs) (\<lambda>data.
    obind (uadd offset (length buffer)) (\<lambda>e.
    let data1 = (if length data < e then resize e data else data)
    in Ok (length buffer, fs\<lparr>inodes := (inodes fs)[n := RamFile (blit offset buffer data1)]\<rparr>)))"

definition ram_get_inode_key :: "nat \<Rightarrow> RamFilesystem \<Rightarrow> (FsError, INodeKey) outcome" where
  "ram_get_inode_key n fs =
    obind (ok_or NotFound (fs_id fs)) (\<lambda>i. Ok \<lparr>filesystem_id = i, inumber = n\<rparr>)"

definition ram_seekable :: "nat \<Rightarrow> RamFilesystem \<Rightarrow> bool" where
  "ram_seekable n fs \<longleftrightarrow> ram_get_type n fs = INodeFile \<or> ram_get_type n fs = INodeBlock"

definition ram_file_node :: "nat \<Rightarrow> RamFilesystem file_node" where
  "ram_file_node n = \<lparr>fn_read = ram_read_unaligned n, fn_write = ram_write_unaligned n,
                      fn_size = ram_size n, fn_seekable = ram_seekable n\<rparr>"

subsection \<open>Invariant\<close>

definition ramfs_ok :: "RamFilesystem \<Rightarrow> bool" where
  "ramfs_ok fs \<longleftrightarrow> inodes fs \<noteq> [] \<and> (\<exists>es. inodes fs ! 0 = RamDir es) \<and>
     (\<forall>n<length (inodes fs). \<forall>es. inodes fs ! n = RamDir es \<longrightarrow>
        distinct (map fst es) \<and> (\<forall>(name, i)\<in>set es. i < length (inodes fs)))"



lemma ramfs_ok_new: "ramfs_ok ramfs_new"
  by (auto simp: ramfs_ok_def ramfs_new_def)

lemma ramfs_ok_entry:
  assumes "ramfs_ok fs" "n < length (inodes fs)" "inodes fs ! n = RamDir es" "(name, i) \<in> set es"
  shows "i < length (inodes fs)"
  using assms unfolding ramfs_ok_def by blast

lemma ramfs_ok_update_file:
  assumes "ramfs_ok fs" "n < length (inodes fs)" "inodes fs ! n = RamFile d"
  shows "ramfs_ok (fs\<lparr>inodes := (inodes fs)[n := RamFile d']\<rparr>)"
  using assms by (cases "n = 0") (auto simp: ramfs_ok_def nth_list_update split: if_splits)


subsection \<open>Directory operations\<close>

lemma ram_lookup_eq:
  assumes "ramfs_ok fs" "n < length (inodes fs)" "inodes fs ! n = RamDir es"
  shows "ram_lookup n name fs = (case map_of es name of None \<Rightarrow> Err NotFound | Some i \<Rightarrow> Ok i)"
  using assms ramfs_ok_entry [OF assms] map_of_SomeD [of es name]
  by (auto simp: ram_lookup_def as_dir_def ok_or_def ram_get_inode_def split: option.splits)

lemma ramfs_ok_alloc:
  assumes "ramfs_ok fs" "kind = RamFile [] \<or> kind = RamDir []"
  shows "ramfs_ok (fs\<lparr>inodes := inodes fs @ [kind]\<rparr>)"
  unfolding ramfs_ok_def
proof (intro conjI allI impI)
  show "\<exists>es. inodes (fs\<lparr>inodes := inodes fs @ [kind]\<rparr>) ! 0 = RamDir es"
    using assms by (auto simp: ramfs_ok_def nth_append)
  fix m es assume m: "m < length (inodes (fs\<lparr>inodes := inodes fs @ [kind]\<rparr>))"
    "inodes (fs\<lparr>inodes := inodes fs @ [kind]\<rparr>) ! m = RamDir es"
  then have "es = [] \<or> m < length (inodes fs) \<and> inodes fs ! m = RamDir es"
    using assms(2) by (auto simp: nth_append less_Suc_eq split: if_splits)
  then show "distinct (map fst es)"
    "\<forall>(name, i)\<in>set es. i < length (inodes (fs\<lparr>inodes := inodes fs @ [kind]\<rparr>))"
    using assms(1) by (fastforce simp: ramfs_ok_def)+
qed simp

lemma ramfs_ok_add_entry:
  assumes "ramfs_ok fs" "n < length (inodes fs)" "inodes fs ! n = RamDir es"
    and "name \<notin> fst ` set es" "i < length (inodes fs)"
  shows "ramfs_ok (fs\<lparr>inodes := (inodes fs)[n := RamDir ((name, i) # es)]\<rparr>)"
proof -
  have "distinct (map fst es)" "\<forall>(name, i)\<in>set es. i < length (inodes fs)"
    using assms unfolding ramfs_ok_def by blast+
  then show ?thesis using assms
    by (cases "n = 0") (auto simp: ramfs_ok_def nth_list_update split: if_splits)
qed

lemma ram_create_child_ok:
  assumes ok: "ramfs_ok fs" and n: "n < length (inodes fs)" "inodes fs ! n = RamDir es"
    and fresh: "map_of es name = None"
    and kind: "t = INodeFile \<and> k = RamFile [] \<or> t = INodeDirectory \<and> k = RamDir []"
  shows "ram_create_child n name t fs = (Ok (length (inodes fs)),
     fs\<lparr>inodes := (inodes fs @ [k])[n := RamDir ((name, length (inodes fs)) # es)]\<rparr>)"
  using assms by (auto simp: ram_create_child_def alloc_inode_def ram_add_entry_def as_dir_def nth_append)

lemma ramfs_ok_create_child:
  assumes "ramfs_ok fs" "n < length (inodes fs)" "inodes fs ! n = RamDir es" "map_of es name = None"
    and "k = RamFile [] \<or> k = RamDir []"
  shows "ramfs_ok (fs\<lparr>inodes := (inodes fs @ [k])[n := RamDir ((name, length (inodes fs)) # es)]\<rparr>)"
  using ramfs_ok_add_entry [OF ramfs_ok_alloc [OF assms(1,5)], of n es name "length (inodes fs)"] assms
  by (simp add: nth_append map_of_eq_None_iff)

text \<open>
  C22. Creating a file or directory under a fresh name in a directory of a
  well-formed filesystem succeeds: the result is a new node of the requested
  type and size 0, the filesystem stays well-formed, looking the name up
  afterwards gives the new node, every other name of that directory and every
  name of every other old directory resolves as before.
\<close>

theorem ram_create_child_spec:
  assumes "ramfs_ok fs" "n < length (inodes fs)" "inodes fs ! n = RamDir es"
    and "ram_lookup n name fs = Err NotFound" "t \<in> {INodeFile, INodeDirectory}"
  shows "\<exists>m fs'. ram_create_child n name t fs = (Ok m, fs') \<and> ramfs_ok fs' \<and>
     m = length (inodes fs) \<and> length (inodes fs') = Suc m \<and>
     ram_get_type m fs' = t \<and> ram_size m fs' = 0 \<and> ram_lookup n name fs' = Ok m \<and>
     (\<forall>d other. d < length (inodes fs) \<and> (d, other) \<noteq> (n, name) \<longrightarrow>
        ram_lookup d other fs' = ram_lookup d other fs)"
proof -
  obtain k where k: "t = INodeFile \<and> k = RamFile [] \<or> t = INodeDirectory \<and> k = RamDir []"
    using assms(5) by auto
  have fresh: "map_of es name = None"
    using assms(4) by (simp add: ram_lookup_eq [OF assms(1-3)] split: option.splits)
  define fs' where "fs' = fs\<lparr>inodes := (inodes fs @ [k])[n := RamDir ((name, length (inodes fs)) # es)]\<rparr>"
  have nth: "inodes fs' ! d = (if d = n then RamDir ((name, length (inodes fs)) # es) else inodes fs ! d)"
    if "d < length (inodes fs)" for d
    using that assms(2) by (simp add: fs'_def nth_append nth_list_update)
  have new: "inodes fs' ! length (inodes fs) = k" using assms(2) by (simp add: fs'_def nth_list_update)
  have len: "length (inodes fs') = Suc (length (inodes fs))" by (simp add: fs'_def)
  have ok': "ramfs_ok fs'" unfolding fs'_def
    using k by (intro ramfs_ok_create_child [OF assms(1-3) fresh]) auto
  have other: "ram_lookup d x fs' = ram_lookup d x fs" if "d < length (inodes fs)" "(d, x) \<noteq> (n, name)" for d x
  proof (cases "inodes fs ! d")
    case (RamFile data)
    then show ?thesis using that nth [of d] assms(3) by (auto simp: ram_lookup_def as_dir_def)
  next
    case (RamDir es')
    then show ?thesis using that nth [of d] assms(1,3) len ok'
      by (cases "d = n") (auto simp: ram_lookup_eq)
  qed
  have "ram_create_child n name t fs = (Ok (length (inodes fs)), fs')"
    unfolding fs'_def by (rule ram_create_child_ok [OF assms(1-3) fresh k])
  moreover have "ram_lookup n name fs' = Ok (length (inodes fs))"
    using nth [OF assms(2)] assms(2) len by (simp add: ram_lookup_eq [OF ok'])
  ultimately show ?thesis
    using k new ok' len other by (intro exI conjI) (auto simp: ram_get_type_def ram_size_def)
qed

text \<open>
  Creating a child under a name that already exists reports AlreadyExists,
  but the inode allocated for it stays in the filesystem: the inode vector has
  grown by one and no directory entry names the new inode.
\<close>

theorem ram_create_child_leaks_inode:
  assumes "ramfs_ok fs" "n < length (inodes fs)" "inodes fs ! n = RamDir es"
    and "ram_lookup n name fs = Ok i" "t \<in> {INodeFile, INodeDirectory}"
  shows "\<exists>fs'. ram_create_child n name t fs = (Err AlreadyExists, fs') \<and>
     length (inodes fs') = Suc (length (inodes fs)) \<and>
     (\<forall>d<length (inodes fs'). \<forall>x. ram_lookup d x fs' \<noteq> Ok (length (inodes fs)))"
proof -
  obtain k where k: "t = INodeFile \<and> k = RamFile [] \<or> t = INodeDirectory \<and> k = RamDir []"
    using assms(5) by auto
  have known: "map_of es name \<noteq> None"
    using assms(4) by (auto simp: ram_lookup_eq [OF assms(1-3)] split: option.splits)
  define fs' where "fs' = fs\<lparr>inodes := inodes fs @ [k]\<rparr>"
  have "ram_lookup d x fs' \<noteq> Ok (length (inodes fs))" if "d < length (inodes fs')" for d x
  proof (cases "inodes fs' ! d")
    case (RamDir es')
    have ok': "ramfs_ok fs'" unfolding fs'_def using k by (intro ramfs_ok_alloc [OF assms(1)]) auto
    have "es' = [] \<or> d < length (inodes fs) \<and> inodes fs ! d = RamDir es'"
      using that k RamDir by (auto simp: fs'_def nth_append less_Suc_eq split: if_splits)
    then show ?thesis using ramfs_ok_entry [OF assms(1), of d es' x "length (inodes fs)"]
      by (auto simp: ram_lookup_eq [OF ok' that RamDir] dest: map_of_SomeD split: option.splits)
  qed (simp add: ram_lookup_def as_dir_def)
  moreover have "ram_create_child n name t fs = (Err AlreadyExists, fs')"
    using k known assms(2,3)
    by (auto simp: fs'_def ram_create_child_def alloc_inode_def ram_add_entry_def as_dir_def nth_append)
  ultimately show ?thesis by (intro exI conjI) (auto simp: fs'_def)
qed

subsection \<open>Files\<close>


text \<open>
  The page interface and the byte interface of a file agree: the page read
  at an offset is the bytes an unaligned read of one page into a zeroed buffer
  returns, and writing a whole page is the unaligned write of its bytes.
\<close>

theorem ram_page_is_unaligned:
  assumes "length page = PAGE_SIZE" "offset + PAGE_SIZE \<le> USIZE_MAX"
  shows "ram_read_page n offset fs = ram_read_unaligned n offset (replicate PAGE_SIZE 0) fs \<and>
    ram_write_page n page offset fs = ram_write_unaligned n offset page fs"
  using assms
  by (auto simp: ram_read_page_def ram_read_unaligned_def ram_write_page_def ram_write_unaligned_def
      Let_def uadd_def intro!: arg_cong [where f = "obind (as_file n fs)"] ext)

subsection \<open>The filesystem under the VFS\<close>

text \<open>The node methods of the VFS over a table of RAM filesystems: a node is a
  filesystem of the table and an inode number.\<close>

definition ram_vnodes :: "(nat \<Rightarrow> RamFilesystem) \<Rightarrow> (nat, nat \<times> nat) vnode_ops" where
  "ram_vnodes tbl =
    \<lparr>vn_type = (\<lambda>(f, n). ram_get_type n (tbl f)),
     vn_key = (\<lambda>ids (f, n). ram_get_inode_key n ((tbl f)\<lparr>fs_id := ids f\<rparr>)),
     vn_lookup = (\<lambda>(f, n) name. omap (Pair f) (ram_lookup n name (tbl f))),
     fs_root = (\<lambda>f. omap (Pair f) (ram_get_root (tbl f))),
     fs_inode = (\<lambda>f n. omap (Pair f) (ram_get_inode n (tbl f)))\<rparr>"

definition sample_tree :: RamFilesystem where
  "sample_tree = \<lparr>inodes = [RamDir [(''etc'', 1), (''mnt'', 2)], RamDir [(''..'', 0), (''rc'', 3)],
                            RamDir [(''..'', 0)], RamFile [7, 8, 9]], fs_id = None\<rparr>"

abbreviation sample_nodes :: "(nat, nat \<times> nat) vnode_ops" where
  "sample_nodes \<equiv> ram_vnodes (\<lambda>_. sample_tree)"

definition sample_vfs :: "(nat, nat \<times> nat) VFS" where
  "sample_vfs = snd (set_root sample_nodes 0 vfs_init)"

lemmas sample_simps = sample_vfs_def sample_tree_def ram_vnodes_def set_root_def vfs_init_def
  register_filesystem_def ram_get_root_def ram_get_inode_def ram_get_type_def ram_get_inode_key_def
  ram_lookup_def as_dir_def ok_or_def mount_def unmount_def wrapping_add_def Let_def

definition mounted_vfs :: "(nat, nat \<times> nat) VFS" where
  "mounted_vfs = snd (mount sample_nodes (0, 2) 1 sample_vfs)"

lemma sample_mount: "mount sample_nodes (0, 2) 1 sample_vfs = (Ok (), mounted_vfs)"
  unfolding mounted_vfs_def by (simp add: sample_simps)

lemma mounted_vfs_ids: "fs_ids mounted_vfs = (fs_ids sample_vfs)(1 \<mapsto> 1)"
  unfolding mounted_vfs_def by (simp add: sample_simps)

lemma sample_mounts_empty: "mount_points sample_vfs = (\<lambda>_. None)" "reverse_mount_points sample_vfs = (\<lambda>_. None)"
  by (simp_all add: sample_simps)

theorem mount_is_traversed_witness:
  "step_component sample_nodes mounted_vfs (0, 0) ''mnt'' = Ok (1, 0) \<and>
   step_component sample_nodes mounted_vfs (1, 0) ''..'' = vn_lookup sample_nodes (0, 2) ''..''"
  by (rule mount_is_traversed [OF sample_mount, of "(1, 0)" "(0, 0)" "''mnt''" "(0, 2)"]) (simp_all add: sample_simps)

theorem unmount_undoes_mount_witness:
  "\<exists>w. unmount sample_nodes (0, 2) mounted_vfs = Ok w \<and> mount_points w = mount_points sample_vfs \<and>
    reverse_mount_points w = reverse_mount_points sample_vfs"
  by (rule unmount_undoes_mount [OF sample_mount, of "(1, 0)"])
    (simp_all add: sample_mounts_empty sample_tree_def ram_vnodes_def ram_get_root_def ram_get_inode_def)

theorem traverse_joined_path_witness:
  "traverse_path sample_nodes sample_vfs (0, 0) ''etc/rc'' = traverse_path sample_nodes sample_vfs (0, 1) ''rc''"
  using traverse_joined_path [of "''etc''" "''rc''" sample_nodes sample_vfs "(0, 0)"]
  by (simp add: traverse_path_def enter_mount_def path_components_def step_component_def sample_simps)

theorem second_mount_cannot_be_unmounted_witness:
  "\<exists>w. unmount sample_nodes (0, 2) (snd (mount sample_nodes (0, 1) 1 mounted_vfs)) = Ok w \<and>
    unmount sample_nodes (0, 1) w = Err (Corrupted ''mount point is missing its reverse mapping'')"
  by (rule second_mount_cannot_be_unmounted [OF sample_mount])
    (simp_all add: mounted_vfs_def sample_simps)

theorem file_seek_spec_witness:
  "file_seek (ram_file_node 3) (- 1) SEEK_END \<lparr>file_offset = 0, file_fs = sample_tree\<rparr>
    = Ok (2, \<lparr>file_offset = 2, file_fs = sample_tree\<rparr>)"
  by (subst file_seek_spec)
    (simp_all add: ram_file_node_def ram_seekable_def ram_get_type_def ram_size_def sample_tree_def
      USIZE_MAX_def SEEK_SET_def SEEK_CUR_def SEEK_END_def)

lemma sample_tree_ok: "ramfs_ok sample_tree"
  by (simp add: ramfs_ok_def sample_tree_def All_less_Suc numeral_eq_Suc)

theorem ram_create_child_spec_witness:
  "\<exists>m fs'. ram_create_child 1 ''new'' INodeFile sample_tree = (Ok m, fs') \<and> m = 4 \<and> ram_lookup 1 ''new'' fs' = Ok m"
  using ram_create_child_spec [OF sample_tree_ok, of 1 "[(''..'', 0), (''rc'', 3)]" "''new''" INodeFile]
  by (auto simp: sample_tree_def ram_lookup_def as_dir_def ok_or_def)

theorem ram_create_child_leaks_inode_witness:
  "\<exists>fs'. ram_create_child 1 ''rc'' INodeFile sample_tree = (Err AlreadyExists, fs') \<and> length (inodes fs') = 5"
  using ram_create_child_leaks_inode [OF sample_tree_ok, of 1 "[(''..'', 0), (''rc'', 3)]" "''rc''" 3 INodeFile]
  by (auto simp: sample_tree_def ram_lookup_def as_dir_def ok_or_def ram_get_inode_def)


theorem ram_page_is_unaligned_witness:
  "ram_read_page 3 1 sample_tree = ram_read_unaligned 3 1 (replicate PAGE_SIZE 0) sample_tree \<and>
    ram_write_page 3 (replicate PAGE_SIZE 5) 1 sample_tree
      = ram_write_unaligned 3 1 (replicate PAGE_SIZE 5) sample_tree"
  by (rule ram_page_is_unaligned) (simp_all add: PAGE_SIZE_def USIZE_MAX_def)

end
