(* ===== verification/Block_Device.thy ===== *)
theory Block_Device
  imports Cab_Prelude
begin

section \<open>Block devices\<close>

text \<open>
  Model of the trait \<open>BlockDevice\<close> of \<^verbatim>\<open>src/src/devices/block/mod.rs\<close> with its
  two provided methods \<^verbatim>\<open>read\<close> and \<^verbatim>\<open>write\<close>, of the driver
  \<^verbatim>\<open>src/src/devices/block/virtio_blk.rs\<close> that implements it, and of the RAM
  disk of \<^verbatim>\<open>src/src/fs/ramdisk.rs\<close>.

  The required methods of the trait are the fields of the record
  \<open>BlockDevice\<close>, and their contract is the locale \<open>block_device\<close>. The lemmas
  show that the provided methods, which split a request into a first partial
  block, whole blocks and a last partial block, transfer exactly the requested
  bytes of the device. The device behind the driver (the virtio package) is a
  parameter with the contract \<open>virtio_disk\<close>; the driver is shown to satisfy
  \<open>block_device\<close> over it.
\<close>

subsection \<open>The trait\<close>

datatype BlockDeviceError = ReadError | WriteError | InvalidBlockIndex | InvalidBufferSize | Other string

record 'd BlockDevice =
  bd_block_size :: nat
  bd_block_count :: "'d \<Rightarrow> nat"
  bd_read_blocks :: "nat list \<Rightarrow> byte list list \<Rightarrow> 'd \<Rightarrow> (BlockDeviceError, byte list list) outcome"
  bd_write_blocks :: "nat list \<Rightarrow> byte list list \<Rightarrow> 'd \<Rightarrow> (BlockDeviceError, unit) outcome \<times> 'd"

function chunks_exact :: "nat \<Rightarrow> 'a list \<Rightarrow> 'a list list" where
  "chunks_exact n xs = (if n = 0 \<or> length xs < n then [] else take n xs # chunks_exact n (drop n xs))"
  by pat_completeness auto
termination by (relation "measure (\<lambda>(n, xs). length xs)") auto

declare chunks_exact.simps [simp del]

record span =
  start_idx :: nat
  end_idx :: nat
  start_offset :: nat
  end_offset :: nat
  first_full_idx :: nat
  last_full_idx :: nat

definition span_of :: "nat \<Rightarrow> nat \<Rightarrow> nat \<Rightarrow> span" where
  "span_of bs byte_offset end_byte =
    (let s = byte_offset div bs;
         e = (end_byte - 1) div bs + 1;
         so = byte_offset mod bs;
         eo = end_byte mod bs
     in \<lparr>start_idx = s, end_idx = e, start_offset = so, end_offset = eo,
         first_full_idx = (if so = 0 then s else s + 1),
         last_full_idx = (if eo = 0 then e else e - 1)\<rparr>)"

definition has_first :: "span \<Rightarrow> bool" where
  "has_first p \<longleftrightarrow> start_idx p < first_full_idx p \<or> first_full_idx p = last_full_idx p"

definition has_last :: "span \<Rightarrow> bool" where
  "has_last p \<longleftrightarrow> last_full_idx p < end_idx p \<and> start_idx p \<noteq> end_idx p - 1"

definition read_mid ::
  "'d BlockDevice \<Rightarrow> nat \<Rightarrow> span \<Rightarrow> 'd \<Rightarrow> byte list \<Rightarrow> (BlockDeviceError, byte list \<times> nat) outcome" where
  "read_mid D byte_offset p d buffer =
    (let bs = bd_block_size D in
     if first_full_idx p < last_full_idx p
     then let mid_idxs = [first_full_idx p ..< last_full_idx p];
              mid_start = first_full_idx p * bs;
              mid_end = last_full_idx p * bs;
              mid_buffer = subslice (mid_start - byte_offset) (mid_end - mid_start) buffer
          in obind (bd_read_blocks D mid_idxs (chunks_exact bs mid_buffer) d) (\<lambda>mid_buffers.
             Ok (blit (mid_start - byte_offset) (concat mid_buffers) buffer, mid_end - mid_start))
     else Ok (buffer, 0))"

definition read_first ::
  "'d BlockDevice \<Rightarrow> span \<Rightarrow> 'd \<Rightarrow> byte list \<Rightarrow> (BlockDeviceError, byte list \<times> nat) outcome" where
  "read_first D p d buffer =
    (let bs = bd_block_size D in
     if has_first p
     then obind (bd_read_blocks D [start_idx p] [replicate bs 0] d) (\<lambda>temps.
          let copy_len = min (bs - start_offset p) (length buffer)
          in Ok (blit 0 (subslice (start_offset p) copy_len (hd temps)) buffer, copy_len))
     else Ok (buffer, 0))"

definition read_last ::
  "'d BlockDevice \<Rightarrow> span \<Rightarrow> 'd \<Rightarrow> byte list \<Rightarrow> (BlockDeviceError, byte list \<times> nat) outcome" where
  "read_last D p d buffer =
    (let bs = bd_block_size D in
     if has_last p
     then obind (bd_read_blocks D [end_idx p - 1] [replicate bs 0] d) (\<lambda>temps.
          let copy_len = end_offset p
          in Ok (blit (length buffer - copy_len) (take copy_len (hd temps)) buffer, copy_len))
     else Ok (buffer, 0))"

definition bd_read ::
  "'d BlockDevice \<Rightarrow> nat \<Rightarrow> byte list \<Rightarrow> 'd \<Rightarrow> (BlockDeviceError, byte list \<times> nat) outcome" where
  "bd_read D byte_offset buffer d =
    (let bs = bd_block_size D in
     if bs = 0 then Err (Other ''block size cannot be zero'')
     else if buffer = [] then Ok (buffer, 0)
     else obind (uadd byte_offset (length buffer)) (\<lambda>end_byte.
       let p = span_of bs byte_offset end_byte in
       obind (read_mid D byte_offset p d buffer) (\<lambda>(buffer1, mid).
       obind (read_first D p d buffer1) (\<lambda>(buffer2, first).
       obind (read_last D p d buffer2) (\<lambda>(buffer3, last).
       Ok (buffer3, mid + first + last))))))"

definition write_mid ::
  "'d BlockDevice \<Rightarrow> nat \<Rightarrow> byte list \<Rightarrow> span \<Rightarrow> 'd \<Rightarrow> (BlockDeviceError, nat) outcome \<times> 'd" where
  "write_mid D byte_offset buffer p d =
    (let bs = bd_block_size D in
     if first_full_idx p < last_full_idx p
     then let mid_idxs = [first_full_idx p ..< last_full_idx p];
              mid_start = first_full_idx p * bs;
              mid_end = last_full_idx p * bs;
              mid_buffer = subslice (mid_start - byte_offset) (mid_end - mid_start) buffer
          in case bd_write_blocks D mid_idxs (chunks_exact bs mid_buffer) d of
               (r, d') \<Rightarrow> (omap (\<lambda>_. mid_end - mid_start) r, d')
     else (Ok 0, d))"

definition write_first ::
  "'d BlockDevice \<Rightarrow> byte list \<Rightarrow> span \<Rightarrow> 'd \<Rightarrow> (BlockDeviceError, nat) outcome \<times> 'd" where
  "write_first D buffer p d =
    (let bs = bd_block_size D in
     if has_first p
     then case bd_read_blocks D [start_idx p] [replicate bs 0] d of
            Ok temps \<Rightarrow>
              let copy_len = min (bs - start_offset p) (length buffer);
                  temp = blit (start_offset p) (take copy_len buffer) (hd temps)
              in (case bd_write_blocks D [start_idx p] [temp] d of
                    (r, d') \<Rightarrow> (omap (\<lambda>_. copy_len) r, d'))
          | Err e \<Rightarrow> (Err e, d)
          | Panic \<Rightarrow> (Panic, d)
     else (Ok 0, d))"

definition write_last ::
  "'d BlockDevice \<Rightarrow> byte list \<Rightarrow> span \<Rightarrow> 'd \<Rightarrow> (BlockDeviceError, nat) outcome \<times> 'd" where
  "write_last D buffer p d =
    (let bs = bd_block_size D in
     if has_last p
     then case bd_read_blocks D [end_idx p - 1] [replicate bs 0] d of
            Ok temps \<Rightarrow>
              let copy_len = end_offset p;
                  temp = blit 0 (drop (length buffer - copy_len) buffer) (hd temps)
              in (case bd_write_blocks D [end_idx p - 1] [temp] d of
                    (r, d') \<Rightarrow> (omap (\<lambda>_. copy_len) r, d'))
          | Err e \<Rightarrow> (Err e, d)
          | Panic \<Rightarrow> (Panic, d)
     else (Ok 0, d))"

definition and_then ::
  "(BlockDeviceError, nat) outcome \<times> 'd \<Rightarrow> ('d \<Rightarrow> (BlockDeviceError, nat) outcome \<times> 'd)
    \<Rightarrow> (BlockDeviceError, nat) outcome \<times> 'd" where
  "and_then x f =
    (case x of
       (Ok n, d) \<Rightarrow> (case f d of (r, d') \<Rightarrow> (omap (\<lambda>k. n + k) r, d'))
     | (Err e, d) \<Rightarrow> (Err e, d)
     | (Panic, d) \<Rightarrow> (Panic, d))"

definition bd_write ::
  "'d BlockDevice \<Rightarrow> nat \<Rightarrow> byte list \<Rightarrow> 'd \<Rightarrow> (BlockDeviceError, nat) outcome \<times> 'd" where
  "bd_write D byte_offset buffer d =
    (let bs = bd_block_size D in
     if bs = 0 then (Err (Other ''block size cannot be zero''), d)
     else if buffer = [] then (Ok 0, d)
     else if USIZE_MAX < byte_offset + length buffer then (Err (Other ''offset overflow''), d)
     else let p = span_of bs byte_offset (byte_offset + length buffer)
          in and_then (and_then (write_mid D byte_offset buffer p d) (write_first D buffer p))
               (write_last D buffer p))"

subsection \<open>The virtio driver\<close>

definition SECTOR_SIZE :: nat where
  "SECTOR_SIZE = 512"

record 'v VirtIOBlk =
  vb_read_blocks :: "nat \<Rightarrow> byte list \<Rightarrow> 'v \<Rightarrow> byte list option"
  vb_write_blocks :: "nat \<Rightarrow> byte list \<Rightarrow> 'v \<Rightarrow> bool \<times> 'v"

definition check_buffer_size :: "byte list \<Rightarrow> nat \<Rightarrow> (BlockDeviceError, unit) outcome" where
  "check_buffer_size buffer bs = (if length buffer \<noteq> bs then Err InvalidBufferSize else Ok ())"

definition read_block ::
  "'v VirtIOBlk \<Rightarrow> nat \<Rightarrow> byte list \<Rightarrow> 'v \<Rightarrow> (BlockDeviceError, byte list) outcome" where
  "read_block V block_idx buffer d =
    obind (check_buffer_size buffer PAGE_SIZE) (\<lambda>_.
    obind (umul block_idx (PAGE_SIZE div SECTOR_SIZE)) (\<lambda>sector_idx.
    ok_or ReadError (vb_read_blocks V sector_idx buffer d)))"

definition write_block ::
  "'v VirtIOBlk \<Rightarrow> nat \<Rightarrow> byte list \<Rightarrow> 'v \<Rightarrow> (BlockDeviceError, unit) outcome \<times> 'v" where
  "write_block V block_idx buffer d =
    (case obind (check_buffer_size buffer PAGE_SIZE) (\<lambda>_. umul block_idx (PAGE_SIZE div SECTOR_SIZE)) of
       Ok sector_idx \<Rightarrow>
         (case vb_write_blocks V sector_idx buffer d of
            (True, d') \<Rightarrow> (Ok (), d')
          | (False, d') \<Rightarrow> (Err WriteError, d'))
     | Err e \<Rightarrow> (Err e, d)
     | Panic \<Rightarrow> (Panic, d))"

fun read_each ::
  "'v VirtIOBlk \<Rightarrow> (nat \<times> byte list) list \<Rightarrow> 'v \<Rightarrow> (BlockDeviceError, byte list list) outcome" where
  "read_each V [] d = Ok []"
| "read_each V ((i, buf) # rest) d =
    (case read_block V i buf d of
       Ok b \<Rightarrow> omap (Cons b) (read_each V rest d)
     | Err _ \<Rightarrow> Err ReadError
     | Panic \<Rightarrow> Panic)"

definition virtio_read_blocks ::
  "'v VirtIOBlk \<Rightarrow> nat list \<Rightarrow> byte list list \<Rightarrow> 'v \<Rightarrow> (BlockDeviceError, byte list list) outcome" where
  "virtio_read_blocks V block_idxs buffers d =
    (if length block_idxs \<noteq> length buffers then Err (Other ''buffer count must match indexes'')
     else read_each V (zip block_idxs buffers) d)"

fun write_each ::
  "'v VirtIOBlk \<Rightarrow> (nat \<times> byte list) list \<Rightarrow> 'v \<Rightarrow> (BlockDeviceError, unit) outcome \<times> 'v" where
  "write_each V [] d = (Ok (), d)"
| "write_each V ((i, buf) # rest) d =
    (case write_block V i buf d of
       (Ok _, d') \<Rightarrow> write_each V rest d'
     | (Err _, d') \<Rightarrow> (Err WriteError, d')
     | (Panic, d') \<Rightarrow> (Panic, d'))"

definition virtio_write_blocks ::
  "'v VirtIOBlk \<Rightarrow> nat list \<Rightarrow> byte list list \<Rightarrow> 'v \<Rightarrow> (BlockDeviceError, unit) outcome \<times> 'v" where
  "virtio_write_blocks V block_idxs buffers d =
    (if length block_idxs \<noteq> length buffers then (Err (Other ''buffer count must match indexes''), d)
     else write_each V (zip block_idxs buffers) d)"

definition virtio_blk :: "'v VirtIOBlk \<Rightarrow> nat \<Rightarrow> 'v BlockDevice" where
  "virtio_blk V capacity =
    \<lparr>bd_block_size = PAGE_SIZE,
     bd_block_count = (\<lambda>_. (capacity * SECTOR_SIZE) div PAGE_SIZE),
     bd_read_blocks = virtio_read_blocks V,
     bd_write_blocks = virtio_write_blocks V\<rparr>"

subsection \<open>The RAM disk\<close>

record Ramdisk =
  base_address :: "byte list"
  sector_size :: nat

definition read_sector :: "nat \<Rightarrow> byte list \<Rightarrow> Ramdisk \<Rightarrow> (unit, byte list) outcome" where
  "read_sector sector buffer r =
    (if sector < length (base_address r) div sector_size r \<and> sector_size r \<le> length buffer
     then Ok (blit 0 (subslice (sector * sector_size r) (sector_size r) (base_address r)) buffer)
     else Panic)"

definition write_sector :: "nat \<Rightarrow> byte list \<Rightarrow> Ramdisk \<Rightarrow> (unit, Ramdisk) outcome" where
  "write_sector sector buffer r =
    (if sector < length (base_address r) div sector_size r \<and> sector_size r \<le> length buffer
     then Ok (r\<lparr>base_address := blit (sector * sector_size r) (take (sector_size r) buffer) (base_address r)\<rparr>)
     else Panic)"

subsection \<open>Contracts\<close>

definition blit_blocks :: "nat \<Rightarrow> (nat \<times> byte list) list \<Rightarrow> byte list \<Rightarrow> byte list" where
  "blit_blocks bs = fold (\<lambda>(i, b). blit (i * bs) b)"

definition in_range :: "nat \<Rightarrow> nat list \<Rightarrow> byte list \<Rightarrow> bool" where
  "in_range bs idxs xs \<longleftrightarrow> length xs \<le> USIZE_MAX \<and> (\<forall>i\<in>set idxs. (i + 1) * bs \<le> length xs)"

subsection \<open>Slices and blocks\<close>

lemma concat_slices:
  "f \<le> l \<Longrightarrow> concat (map (\<lambda>i. subslice (i * bs) bs xs) [f ..< l]) = subslice (f * bs) ((l - f) * bs) xs"
proof (induction l)
  case (Suc l)
  show ?case
  proof (cases "f \<le> l")
    case True
    have "f * bs + (l - f) * bs = l * bs"
      using True by (metis add_mult_distrib le_add_diff_inverse)
    then have "subslice (f * bs) ((l - f) * bs) xs @ subslice (l * bs) bs xs = subslice (f * bs) ((l - f) * bs + bs) xs"
      using slice_append_slice [of "f * bs" "(l - f) * bs" xs bs] by simp
    then show ?thesis using Suc True by (simp add: Suc_diff_le add.commute)
  qed (use Suc.prems in auto)
qed simp

lemma blit_adjacent:
  assumes "s + length a + length b \<le> length xs"
  shows "blit (s + length a) b (blit s a xs) = blit s (a @ b) xs"
  using assms by (cases a) (auto simp: blit_def min_def ac_simps)

lemma chunks_exact_Suc:
  "0 < bs \<Longrightarrow> length ys = Suc n * bs \<Longrightarrow> chunks_exact bs ys = take bs ys # chunks_exact bs (drop bs ys)"
  by (subst chunks_exact.simps) auto

lemma chunks_exact_lengths:
  assumes "0 < bs" "length ys = n * bs"
  shows "length (chunks_exact bs ys) = n \<and> (\<forall>b\<in>set (chunks_exact bs ys). length b = bs)"
  using assms
proof (induction n arbitrary: ys)
  case 0
  then show ?case by (simp add: chunks_exact.simps)
next
  case (Suc n)
  have "chunks_exact bs ys = take bs ys # chunks_exact bs (drop bs ys)"
    by (rule chunks_exact_Suc [OF Suc.prems])
  then show ?case using Suc.IH [of "drop bs ys"] Suc.prems by simp
qed

lemma blit_blocks_chunks:
  assumes "0 < bs" "length ys = n * bs" "(f + n) * bs \<le> length xs"
  shows "blit_blocks bs (zip [f ..< f + n] (chunks_exact bs ys)) xs = blit (f * bs) ys xs"
  using assms
proof (induction n arbitrary: f ys xs)
  case 0
  then show ?case by (simp add: blit_blocks_def)
next
  case (Suc n)
  let ?xs = "blit (f * bs) (take bs ys) xs"
  have len: "length (take bs ys) = bs" "f * bs + bs \<le> length xs"
    using Suc.prems by (auto simp: algebra_simps)
  then have lx: "length ?xs = length xs" by simp
  have "blit_blocks bs (zip [f ..< f + Suc n] (chunks_exact bs ys)) xs
      = blit_blocks bs (zip [Suc f ..< Suc f + n] (chunks_exact bs (drop bs ys))) ?xs"
    using chunks_exact_Suc [OF Suc.prems(1,2)] upt_conv_Cons [of f "f + Suc n"] by (simp add: blit_blocks_def)
  also have "\<dots> = blit (f * bs + length (take bs ys)) (drop bs ys) ?xs"
    using Suc.IH [of "drop bs ys" "Suc f" ?xs] Suc.prems len lx by (simp add: add.commute)
  also have "\<dots> = blit (f * bs) (take bs ys @ drop bs ys) xs"
    by (rule blit_adjacent) (use Suc.prems len in \<open>auto simp: algebra_simps\<close>)
  finally show ?case by simp
qed

lemma slice_slice:
  "a + n \<le> m \<Longrightarrow> subslice a n (subslice s m xs) = subslice (s + a) n xs"
  by (simp add: subslice_def drop_take min_def add.commute)

subsection \<open>The split of a request\<close>

definition first_len :: "nat \<Rightarrow> nat \<Rightarrow> span \<Rightarrow> nat" where
  "first_len bs n p = (if has_first p then min (bs - start_offset p) n else 0)"

definition mid_len :: "nat \<Rightarrow> span \<Rightarrow> nat" where
  "mid_len bs p = (if first_full_idx p < last_full_idx p then last_full_idx p * bs - first_full_idx p * bs else 0)"

definition last_len :: "span \<Rightarrow> nat" where
  "last_len p = (if has_last p then end_offset p else 0)"

lemma span_split:
  fixes off :: nat
  assumes "0 < bs" "0 < n" "p = span_of bs off (off + n)"
  shows "first_len bs n p + mid_len bs p + last_len p = n"
    "has_first p \<Longrightarrow> start_idx p * bs + start_offset p = off \<and> start_offset p < bs"
    "first_full_idx p < last_full_idx p \<Longrightarrow> first_full_idx p * bs = off + first_len bs n p \<and>
      last_full_idx p * bs = off + first_len bs n p + mid_len bs p"
    "has_last p \<Longrightarrow> (end_idx p - 1) * bs = off + first_len bs n p + mid_len bs p \<and> end_offset p \<le> bs"
    "start_idx p < end_idx p" "last_full_idx p \<le> end_idx p" "(end_idx p - 1) * bs < off + n"
proof -
  define S where "S = off div bs"
  define so where "so = off mod bs"
  define E where "E = (off + n - 1) div bs"
  define r where "r = (off + n - 1) mod bs"
  have off: "off = S * bs + so" "so < bs" using assms(1) by (simp_all add: S_def so_def)
  have e: "off + n = E * bs + (r + 1)" "r < bs"
    using assms(1,2) div_mult_mod_eq [of "off + n - 1" bs] by (simp_all add: E_def r_def)
  have eo: "(off + n) mod bs = (if r + 1 = bs then 0 else r + 1)"
    using e(2) unfolding e(1) by simp
  have SE: "S \<le> E" unfolding S_def E_def by (rule div_le_mono) (use assms(2) in simp)
  have p: "p = \<lparr>start_idx = S, end_idx = E + 1, start_offset = so, end_offset = (if r + 1 = bs then 0 else r + 1),
      first_full_idx = (if so = 0 then S else S + 1), last_full_idx = (if r + 1 = bs then E + 1 else E)\<rparr>"
    unfolding assms(3) span_of_def Let_def eo S_def so_def E_def by simp
  show "has_first p \<Longrightarrow> start_idx p * bs + start_offset p = off \<and> start_offset p < bs"
    "start_idx p < end_idx p" "last_full_idx p \<le> end_idx p" "(end_idx p - 1) * bs < off + n"
    using off SE e by (auto simp: p)
  have "first_len bs n p + mid_len bs p + last_len p = n \<and>
    (first_full_idx p < last_full_idx p \<longrightarrow> first_full_idx p * bs = off + first_len bs n p \<and>
      last_full_idx p * bs = off + first_len bs n p + mid_len bs p) \<and>
    (has_last p \<longrightarrow> (end_idx p - 1) * bs = off + first_len bs n p + mid_len bs p \<and> end_offset p \<le> bs)"
  proof (cases "S = E")
    case True
    then show ?thesis
      using off e by (auto simp: first_len_def mid_len_def last_len_def p has_first_def has_last_def)
  next
    case False
    then obtain k where "E = S + 1 + k" using SE by (metis Suc_eq_plus1 less_iff_Suc_add le_neq_implies_less add_Suc add_Suc_shift)
    then show ?thesis
      using off e by (auto simp: first_len_def mid_len_def last_len_def p has_first_def has_last_def add_mult_distrib)
  qed
  then show "first_len bs n p + mid_len bs p + last_len p = n"
    "first_full_idx p < last_full_idx p \<Longrightarrow> first_full_idx p * bs = off + first_len bs n p \<and>
      last_full_idx p * bs = off + first_len bs n p + mid_len bs p"
    "has_last p \<Longrightarrow> (end_idx p - 1) * bs = off + first_len bs n p + mid_len bs p \<and> end_offset p \<le> bs"
    by blast+
qed

lemma blit_three:
  assumes "length T = c1 + c2 + c3" "length xs = length T"
  shows "blit (c1 + c2) (subslice (c1 + c2) c3 T) (blit 0 (subslice 0 c1 T) (blit c1 (subslice c1 c2 T) xs)) = T"
  using assms by (intro nth_equalityI) (auto simp: nth_blit nth_slice)

lemma blit_in_block:
  assumes "so + length ys \<le> bs" "a + bs \<le> length xs"
  shows "blit a (blit so ys (subslice a bs xs)) xs = blit (a + so) ys xs"
  using assms by (intro nth_equalityI) (auto simp: nth_blit nth_slice)

lemma blit_three_into:
  assumes "length ys = c1 + c2 + c3" "off + length ys \<le> length xs"
  shows "blit (off + (c1 + c2)) (drop (c1 + c2) ys)
    (blit off (take c1 ys) (blit (off + c1) (subslice c1 c2 ys) xs)) = blit off ys xs"
  using assms by (intro nth_equalityI) (auto simp: nth_blit nth_slice)

subsection \<open>The contract of the trait\<close>

locale block_device =
  fixes D :: "'d BlockDevice" and bytes :: "'d \<Rightarrow> byte list"
  assumes size_pos: "0 < bd_block_size D"
    and read_ok: "length idxs = length bufs \<Longrightarrow> \<forall>b\<in>set bufs. length b = bd_block_size D \<Longrightarrow>
      in_range (bd_block_size D) idxs (bytes d) \<Longrightarrow>
      bd_read_blocks D idxs bufs d
        = Ok (map (\<lambda>i. subslice (i * bd_block_size D) (bd_block_size D) (bytes d)) idxs)"
    and write_ok: "length idxs = length bufs \<Longrightarrow> \<forall>b\<in>set bufs. length b = bd_block_size D \<Longrightarrow>
      in_range (bd_block_size D) idxs (bytes d) \<Longrightarrow>
      \<exists>d'. bd_write_blocks D idxs bufs d = (Ok (), d') \<and>
        bytes d' = blit_blocks (bd_block_size D) (zip idxs bufs) (bytes d)"
begin

lemma read_one:
  "(i + 1) * bd_block_size D \<le> length (bytes d) \<Longrightarrow> length (bytes d) \<le> USIZE_MAX \<Longrightarrow>
   bd_read_blocks D [i] [replicate (bd_block_size D) 0] d
     = Ok [subslice (i * bd_block_size D) (bd_block_size D) (bytes d)]"
  by (subst read_ok) (auto simp: in_range_def)

lemma span_in_range:
  assumes "0 < n" "p = span_of (bd_block_size D) off (off + n)" "off + n \<le> length (bytes d)"
    "bd_block_size D dvd length (bytes d)" "i < end_idx p"
  shows "(i + 1) * bd_block_size D \<le> length (bytes d)"
proof -
  let ?bs = "bd_block_size D"
  obtain q where q: "length (bytes d) = q * ?bs" using assms(4) by (metis dvdE mult.commute)
  have "i * ?bs \<le> (end_idx p - 1) * ?bs" using assms(5) by (intro mult_le_mono1) simp
  also have "\<dots> < off + n" by (rule span_split(7) [OF size_pos assms(1,2)])
  also have "\<dots> \<le> q * ?bs" using assms(3) q by simp
  finally have "i < q" by (rule mult_less_cancel2 [THEN iffD1, THEN conjunct2])
  then show ?thesis unfolding q by (intro mult_le_mono1) simp
qed

lemma read_mid_spec:
  assumes p: "0 < n" "p = span_of (bd_block_size D) off (off + n)"
    and d: "off + n \<le> length (bytes d)" "bd_block_size D dvd length (bytes d)" "length (bytes d) \<le> USIZE_MAX"
    and buf: "length buf = n"
  defines "c1 \<equiv> first_len (bd_block_size D) n p" and "c2 \<equiv> mid_len (bd_block_size D) p"
  shows "read_mid D off p d buf = Ok (blit c1 (subslice (off + c1) c2 (bytes d)) buf, c2)"
proof (cases "first_full_idx p < last_full_idx p")
  case False
  then show ?thesis by (simp add: read_mid_def c2_def mid_len_def Let_def)
next
  case True
  let ?bs = "bd_block_size D" and ?f = "first_full_idx p" and ?l = "last_full_idx p"
  note sp = span_split [OF size_pos p, folded c1_def c2_def]
  have c2: "c2 = (?l - ?f) * ?bs" "c2 = ?l * ?bs - ?f * ?bs"
    using True by (simp_all add: c2_def mid_len_def diff_mult_distrib)
  have f: "?f * ?bs = off + c1" using sp(3) True by blast
  have "length (subslice c1 c2 buf) = (?l - ?f) * ?bs" using sp(1) buf c2(1) by simp
  note ch = chunks_exact_lengths [OF size_pos this]
  have "bd_read_blocks D [?f ..< ?l] (chunks_exact ?bs (subslice c1 c2 buf)) d
      = Ok (map (\<lambda>i. subslice (i * ?bs) ?bs (bytes d)) [?f ..< ?l])"
    using ch span_in_range [OF p d(1,2)] sp(6) d(3) by (intro read_ok) (auto simp: in_range_def)
  moreover have "concat (map (\<lambda>i. subslice (i * ?bs) ?bs (bytes d)) [?f ..< ?l]) = subslice (off + c1) c2 (bytes d)"
    using concat_slices [of ?f ?l ?bs "bytes d"] True f c2(1) by simp
  ultimately show ?thesis
    using True f c2(2) by (simp add: read_mid_def Let_def)
qed

lemma read_first_spec:
  assumes p: "0 < n" "p = span_of (bd_block_size D) off (off + n)"
    and d: "off + n \<le> length (bytes d)" "bd_block_size D dvd length (bytes d)" "length (bytes d) \<le> USIZE_MAX"
    and buf: "length buf = n"
  defines "c1 \<equiv> first_len (bd_block_size D) n p"
  shows "read_first D p d buf = Ok (blit 0 (subslice off c1 (bytes d)) buf, c1)"
proof (cases "has_first p")
  case False
  then show ?thesis by (simp add: read_first_def c1_def first_len_def Let_def)
next
  case True
  let ?bs = "bd_block_size D"
  note sp = span_split [OF size_pos p, folded c1_def]
  have so: "start_idx p * ?bs + start_offset p = off" "start_offset p < ?bs" using sp(2) True by auto
  have c1: "c1 = min (?bs - start_offset p) n" using True by (simp add: c1_def first_len_def)
  then have fits: "start_offset p + c1 \<le> ?bs" using so(2) by linarith
  have "subslice (start_offset p) c1 (subslice (start_idx p * ?bs) ?bs (bytes d)) = subslice off c1 (bytes d)"
    by (simp only: slice_slice [OF fits] so(1))
  then show ?thesis
    using True read_one [OF span_in_range [OF p d(1,2) sp(5)] d(3)] c1 buf
    by (simp add: read_first_def Let_def)
qed

lemma read_last_spec:
  assumes p: "0 < n" "p = span_of (bd_block_size D) off (off + n)"
    and d: "off + n \<le> length (bytes d)" "bd_block_size D dvd length (bytes d)" "length (bytes d) \<le> USIZE_MAX"
    and buf: "length buf = n"
  defines "c12 \<equiv> first_len (bd_block_size D) n p + mid_len (bd_block_size D) p" and "c3 \<equiv> last_len p"
  shows "read_last D p d buf = Ok (blit c12 (subslice (off + c12) c3 (bytes d)) buf, c3)"
proof (cases "has_last p")
  case False
  then show ?thesis by (simp add: read_last_def c3_def last_len_def Let_def)
next
  case True
  let ?bs = "bd_block_size D"
  note sp = span_split [OF size_pos p]
  have c3: "c3 = end_offset p" "c12 + c3 = n" using True sp(1) by (simp_all add: c3_def c12_def last_len_def)
  have e: "(end_idx p - 1) * ?bs = off + c12" "c3 \<le> ?bs"
    using sp(4) [OF True] c3(1) by (simp_all add: c12_def add.assoc)
  have "take c3 (subslice ((end_idx p - 1) * ?bs) ?bs (bytes d)) = subslice (off + c12) c3 (bytes d)"
    using e by (simp add: subslice_def min_def)
  moreover have "end_idx p - 1 < end_idx p" "n - end_offset p = c12" using sp(5) c3 by simp_all
  ultimately show ?thesis
    using True read_one [OF span_in_range [OF p d(1,2)] d(3)] c3 buf
    by (simp add: read_last_def Let_def)
qed

lemma bd_read_spec:
  assumes d: "off + length buf \<le> length (bytes d)" "bd_block_size D dvd length (bytes d)"
    "length (bytes d) \<le> USIZE_MAX"
  shows "bd_read D off buf d = Ok (subslice off (length buf) (bytes d), length buf)"
proof (cases "buf = []")
  case True
  then show ?thesis using size_pos by (simp add: bd_read_def Let_def)
next
  case False
  define n where "n = length buf"
  define p where "p = span_of (bd_block_size D) off (off + n)"
  define T where "T = subslice off n (bytes d)"
  let ?c1 = "first_len (bd_block_size D) n p" and ?c2 = "mid_len (bd_block_size D) p" and ?c3 = "last_len p"
  have n: "0 < n" using False by (simp add: n_def)
  note sum = span_split(1) [OF size_pos n p_def]
  note specs = read_mid_spec [OF n p_def _ d(2,3)] read_first_spec [OF n p_def _ d(2,3)]
    read_last_spec [OF n p_def _ d(2,3)]
  have dn: "off + n \<le> length (bytes d)" using d(1) by (simp add: n_def)
  have lens: "length T = ?c1 + ?c2 + ?c3" "length buf = length T" using sum dn by (auto simp: T_def n_def)
  have sT: "subslice (off + a) k (bytes d) = subslice a k T" if "a + k \<le> n" for a k
    unfolding T_def using that by (simp add: slice_slice)
  have "blit (?c1 + ?c2) (subslice (off + (?c1 + ?c2)) ?c3 (bytes d))
      (blit 0 (subslice off ?c1 (bytes d)) (blit ?c1 (subslice (off + ?c1) ?c2 (bytes d)) buf)) = T"
    using blit_three [OF lens] sT [of "?c1 + ?c2" ?c3] sT [of 0 ?c1] sT [of ?c1 ?c2] sum by simp
  then show ?thesis
    using size_pos False d specs(1) [OF dn, of buf] specs(2) [OF dn] specs(3) [OF dn] lens sum
    by (simp add: bd_read_def Let_def n_def [symmetric] p_def [symmetric] T_def [symmetric])
qed

lemma write_one:
  assumes "(i + 1) * bd_block_size D \<le> length (bytes d)" "length (bytes d) \<le> USIZE_MAX"
    "length b = bd_block_size D"
  shows "\<exists>d'. bd_write_blocks D [i] [b] d = (Ok (), d') \<and> bytes d' = blit (i * bd_block_size D) b (bytes d)"
  using write_ok [of "[i]" "[b]" d] assms by (auto simp: in_range_def blit_blocks_def)

lemma write_mid_spec:
  assumes p: "0 < n" "p = span_of (bd_block_size D) off (off + n)"
    and d: "off + n \<le> length (bytes d)" "bd_block_size D dvd length (bytes d)" "length (bytes d) \<le> USIZE_MAX"
    and buf: "length buf = n"
  defines "c1 \<equiv> first_len (bd_block_size D) n p" and "c2 \<equiv> mid_len (bd_block_size D) p"
  shows "\<exists>d'. write_mid D off buf p d = (Ok c2, d') \<and>
    bytes d' = blit (off + c1) (subslice c1 c2 buf) (bytes d)"
proof (cases "first_full_idx p < last_full_idx p")
  case False
  then show ?thesis by (simp add: write_mid_def c2_def mid_len_def Let_def)
next
  case True
  let ?bs = "bd_block_size D" and ?f = "first_full_idx p" and ?l = "last_full_idx p"
  note sp = span_split [OF size_pos p, folded c1_def c2_def]
  have c2: "c2 = (?l - ?f) * ?bs" "c2 = ?l * ?bs - ?f * ?bs"
    using True by (simp_all add: c2_def mid_len_def diff_mult_distrib)
  have f: "?f * ?bs = off + c1" using sp(3) True by blast
  have len: "length (subslice c1 c2 buf) = (?l - ?f) * ?bs" using sp(1) buf c2(1) by simp
  note ch = chunks_exact_lengths [OF size_pos len]
  have "\<exists>d'. bd_write_blocks D [?f ..< ?l] (chunks_exact ?bs (subslice c1 c2 buf)) d = (Ok (), d') \<and>
      bytes d' = blit_blocks ?bs (zip [?f ..< ?l] (chunks_exact ?bs (subslice c1 c2 buf))) (bytes d)"
    using ch span_in_range [OF p d(1,2)] sp(6) d(3) by (intro write_ok) (auto simp: in_range_def)
  moreover have "(?f + (?l - ?f)) * ?bs \<le> length (bytes d)"
    using sp(1,3) True d(1) by simp
  then have "blit_blocks ?bs (zip [?f ..< ?l] (chunks_exact ?bs (subslice c1 c2 buf))) (bytes d)
      = blit (off + c1) (subslice c1 c2 buf) (bytes d)"
    using blit_blocks_chunks [OF size_pos len, of ?f "bytes d"] True f by simp
  ultimately show ?thesis
    using True f c2(2) by (auto simp: write_mid_def Let_def)
qed

lemma write_first_spec:
  assumes p: "0 < n" "p = span_of (bd_block_size D) off (off + n)"
    and d: "off + n \<le> length (bytes d)" "bd_block_size D dvd length (bytes d)" "length (bytes d) \<le> USIZE_MAX"
    and buf: "length buf = n"
  defines "c1 \<equiv> first_len (bd_block_size D) n p"
  shows "\<exists>d'. write_first D buf p d = (Ok c1, d') \<and> bytes d' = blit off (take c1 buf) (bytes d)"
proof (cases "has_first p")
  case False
  then show ?thesis by (simp add: write_first_def c1_def first_len_def Let_def)
next
  case True
  let ?bs = "bd_block_size D" and ?i = "start_idx p"
  note sp = span_split [OF size_pos p, folded c1_def]
  have so: "?i * ?bs + start_offset p = off" "start_offset p < ?bs" using sp(2) True by auto
  have c1: "c1 = min (?bs - start_offset p) n" using True by (simp add: c1_def first_len_def)
  then have fits: "start_offset p + length (take c1 buf) \<le> ?bs" using so(2) by simp
  note rng = span_in_range [OF p d(1,2) sp(5)]
  let ?temp = "blit (start_offset p) (take c1 buf) (subslice (?i * ?bs) ?bs (bytes d))"
  have "length ?temp = ?bs" using fits rng by simp
  from write_one [OF rng d(3) this]
  obtain d' where "bd_write_blocks D [?i] [?temp] d = (Ok (), d')"
    "bytes d' = blit (?i * ?bs) ?temp (bytes d)" by blast
  moreover have "blit (?i * ?bs) ?temp (bytes d) = blit off (take c1 buf) (bytes d)"
    using blit_in_block [OF fits, of "?i * ?bs" "bytes d"] rng so(1) by simp
  ultimately show ?thesis
    using True read_one [OF rng d(3)] c1 buf by (simp add: write_first_def Let_def)
qed

lemma write_last_spec:
  assumes p: "0 < n" "p = span_of (bd_block_size D) off (off + n)"
    and d: "off + n \<le> length (bytes d)" "bd_block_size D dvd length (bytes d)" "length (bytes d) \<le> USIZE_MAX"
    and buf: "length buf = n"
  defines "c12 \<equiv> first_len (bd_block_size D) n p + mid_len (bd_block_size D) p" and "c3 \<equiv> last_len p"
  shows "\<exists>d'. write_last D buf p d = (Ok c3, d') \<and> bytes d' = blit (off + c12) (drop c12 buf) (bytes d)"
proof (cases "has_last p")
  case False
  then have "c3 = 0" "c12 = n"
    using span_split(1) [OF size_pos p] by (simp_all add: c3_def c12_def last_len_def)
  then show ?thesis using False buf by (simp add: write_last_def Let_def)
next
  case True
  let ?bs = "bd_block_size D" and ?i = "end_idx p - 1"
  note sp = span_split [OF size_pos p]
  have c3: "c3 = end_offset p" "c12 + c3 = n" using True sp(1) by (simp_all add: c3_def c12_def last_len_def)
  then have c12: "length buf - end_offset p = c12" using buf by simp
  have e: "?i * ?bs = off + c12" "c3 \<le> ?bs"
    using sp(4) [OF True] c3(1) by (simp_all add: c12_def add.assoc)
  have rng: "(?i + 1) * ?bs \<le> length (bytes d)"
    by (rule span_in_range [OF p d(1,2)]) (use sp(5) in simp)
  have fits: "0 + length (drop c12 buf) \<le> ?bs" using c3 e(2) buf by simp
  let ?temp = "blit 0 (drop c12 buf) (subslice (?i * ?bs) ?bs (bytes d))"
  have "length ?temp = ?bs" using fits rng by simp
  from write_one [OF rng d(3) this]
  obtain d' where "bd_write_blocks D [?i] [?temp] d = (Ok (), d')"
    "bytes d' = blit (?i * ?bs) ?temp (bytes d)" by blast
  moreover have "blit (?i * ?bs) ?temp (bytes d) = blit (off + c12) (drop c12 buf) (bytes d)"
    using blit_in_block [OF fits, of "?i * ?bs" "bytes d"] rng e(1) by simp
  ultimately show ?thesis
    using True read_one [OF rng d(3)] c3(1) c12 by (simp add: write_last_def Let_def)
qed

lemma bd_write_spec:
  assumes d: "off + length buf \<le> length (bytes d)" "bd_block_size D dvd length (bytes d)"
    "length (bytes d) \<le> USIZE_MAX"
  shows "\<exists>d'. bd_write D off buf d = (Ok (length buf), d') \<and> bytes d' = blit off buf (bytes d)"
proof (cases "buf = []")
  case True
  then show ?thesis using size_pos by (simp add: bd_write_def Let_def)
next
  case False
  define n where "n = length buf"
  define p where "p = span_of (bd_block_size D) off (off + n)"
  let ?c1 = "first_len (bd_block_size D) n p" and ?c2 = "mid_len (bd_block_size D) p" and ?c3 = "last_len p"
  have n: "0 < n" using False by (simp add: n_def)
  note sum = span_split(1) [OF size_pos n p_def]
  have dn: "off + n \<le> length (bytes d)" using d(1) by (simp add: n_def)
  obtain d1 where d1: "write_mid D off buf p d = (Ok ?c2, d1)"
    "bytes d1 = blit (off + ?c1) (subslice ?c1 ?c2 buf) (bytes d)"
    using write_mid_spec [OF n p_def dn d(2,3), of buf] n_def by blast
  then have "length (bytes d1) = length (bytes d)" using dn sum n_def by simp
  then have l1: "off + n \<le> length (bytes d1)" "bd_block_size D dvd length (bytes d1)"
    "length (bytes d1) \<le> USIZE_MAX" using dn d by simp_all
  obtain d2 where d2: "write_first D buf p d1 = (Ok ?c1, d2)" "bytes d2 = blit off (take ?c1 buf) (bytes d1)"
    using write_first_spec [OF n p_def l1, of buf] n_def by blast
  then have "length (bytes d2) = length (bytes d1)" using l1 sum n_def by simp
  then have l2: "off + n \<le> length (bytes d2)" "bd_block_size D dvd length (bytes d2)"
    "length (bytes d2) \<le> USIZE_MAX" using l1 by simp_all
  obtain d3 where d3: "write_last D buf p d2 = (Ok ?c3, d3)"
    "bytes d3 = blit (off + (?c1 + ?c2)) (drop (?c1 + ?c2) buf) (bytes d2)"
    using write_last_spec [OF n p_def l2, of buf] n_def by blast
  have "bd_write D off buf d = (Ok (length buf), d3)"
    using size_pos False d d1(1) d2(1) d3(1) sum
    by (simp add: bd_write_def Let_def n_def [symmetric] p_def [symmetric] and_then_def)
  moreover have "bytes d3 = blit off buf (bytes d)"
    using blit_three_into [of buf ?c1 ?c2 ?c3 off "bytes d"] d1(2) d2(2) d3(2) sum dn by (simp add: n_def)
  ultimately show ?thesis by blast
qed

end

subsection \<open>The driver satisfies the contract\<close>

lemma sector_of_block [simp]: "i * (PAGE_SIZE div SECTOR_SIZE) * SECTOR_SIZE = i * PAGE_SIZE"
  by (simp add: PAGE_SIZE_def SECTOR_SIZE_def)

locale virtio_disk =
  fixes V :: "'v VirtIOBlk" and sectors :: "'v \<Rightarrow> byte list" and capacity :: nat
  assumes v_read: "SECTOR_SIZE dvd length buf \<Longrightarrow> s * SECTOR_SIZE + length buf \<le> length (sectors d) \<Longrightarrow>
      vb_read_blocks V s buf d = Some (subslice (s * SECTOR_SIZE) (length buf) (sectors d))"
    and v_write: "SECTOR_SIZE dvd length buf \<Longrightarrow> s * SECTOR_SIZE + length buf \<le> length (sectors d) \<Longrightarrow>
      \<exists>d'. vb_write_blocks V s buf d = (True, d') \<and> sectors d' = blit (s * SECTOR_SIZE) buf (sectors d)"
begin

lemma block_sector:
  "length buf = PAGE_SIZE \<Longrightarrow> (i + 1) * PAGE_SIZE \<le> length xs \<Longrightarrow>
   SECTOR_SIZE dvd length buf \<and> i * PAGE_SIZE + length buf \<le> length xs \<and> i * (PAGE_SIZE div SECTOR_SIZE) \<le> length xs"
  by (simp add: PAGE_SIZE_def SECTOR_SIZE_def)

lemma read_block_ok:
  "length buf = PAGE_SIZE \<Longrightarrow> (i + 1) * PAGE_SIZE \<le> length (sectors d) \<Longrightarrow> length (sectors d) \<le> USIZE_MAX \<Longrightarrow>
   read_block V i buf d = Ok (subslice (i * PAGE_SIZE) PAGE_SIZE (sectors d))"
  using block_sector [of buf i "sectors d"] v_read [of buf "i * (PAGE_SIZE div SECTOR_SIZE)" d]
  by (simp add: read_block_def check_buffer_size_def)

lemma write_block_ok:
  "length buf = PAGE_SIZE \<Longrightarrow> (i + 1) * PAGE_SIZE \<le> length (sectors d) \<Longrightarrow> length (sectors d) \<le> USIZE_MAX \<Longrightarrow>
   \<exists>d'. write_block V i buf d = (Ok (), d') \<and> sectors d' = blit (i * PAGE_SIZE) buf (sectors d)"
  using block_sector [of buf i "sectors d"] v_write [of buf "i * (PAGE_SIZE div SECTOR_SIZE)" d]
  by (auto simp: write_block_def check_buffer_size_def)

lemma read_each_ok:
  assumes "\<forall>(i, b)\<in>set ps. length b = PAGE_SIZE \<and> (i + 1) * PAGE_SIZE \<le> length (sectors d)"
    "length (sectors d) \<le> USIZE_MAX"
  shows "read_each V ps d = Ok (map (\<lambda>(i, b). subslice (i * PAGE_SIZE) PAGE_SIZE (sectors d)) ps)"
  using assms by (induction ps) (auto simp: read_block_ok)

lemma write_each_ok:
  assumes "\<forall>(i, b)\<in>set ps. length b = PAGE_SIZE \<and> (i + 1) * PAGE_SIZE \<le> length (sectors d)"
    "length (sectors d) \<le> USIZE_MAX"
  shows "\<exists>d'. write_each V ps d = (Ok (), d') \<and> sectors d' = blit_blocks PAGE_SIZE ps (sectors d)"
  using assms
proof (induction ps arbitrary: d)
  case Nil
  then show ?case by (simp add: blit_blocks_def)
next
  case (Cons q ps)
  obtain i b where q: "q = (i, b)" by force
  obtain d1 where d1: "write_block V i b d = (Ok (), d1)" "sectors d1 = blit (i * PAGE_SIZE) b (sectors d)"
    using write_block_ok [of b i d] Cons.prems q by auto
  have "length (sectors d1) = length (sectors d)"
    using Cons.prems q d1(2) by simp
  then show ?case using Cons.IH [of d1] Cons.prems d1 q by (auto simp: blit_blocks_def)
qed

lemma driver_contract: "block_device (virtio_blk V capacity) sectors"
proof
  fix idxs :: "nat list" and bufs :: "byte list list" and d :: 'v
  assume a: "length idxs = length bufs" "\<forall>b\<in>set bufs. length b = bd_block_size (virtio_blk V capacity)"
    "in_range (bd_block_size (virtio_blk V capacity)) idxs (sectors d)"
  then have ps: "\<forall>(i, b)\<in>set (zip idxs bufs). length b = PAGE_SIZE \<and> (i + 1) * PAGE_SIZE \<le> length (sectors d)"
    "length (sectors d) \<le> USIZE_MAX"
    by (auto simp: in_range_def virtio_blk_def dest: set_zip_leftD set_zip_rightD)
  have "map (\<lambda>(i, b). subslice (i * PAGE_SIZE) PAGE_SIZE (sectors d)) (zip idxs bufs)
      = map (\<lambda>i. subslice (i * PAGE_SIZE) PAGE_SIZE (sectors d)) (map fst (zip idxs bufs))"
    by (simp add: case_prod_unfold)
  then show "bd_read_blocks (virtio_blk V capacity) idxs bufs d = Ok (map (\<lambda>i. subslice
      (i * bd_block_size (virtio_blk V capacity)) (bd_block_size (virtio_blk V capacity)) (sectors d)) idxs)"
    using read_each_ok [OF ps] a(1) by (simp add: virtio_blk_def virtio_read_blocks_def)
  show "\<exists>d'. bd_write_blocks (virtio_blk V capacity) idxs bufs d = (Ok (), d') \<and>
      sectors d' = blit_blocks (bd_block_size (virtio_blk V capacity)) (zip idxs bufs) (sectors d)"
    using write_each_ok [OF ps] a(1) by (simp add: virtio_blk_def virtio_write_blocks_def)
qed (simp add: virtio_blk_def PAGE_SIZE_def)

end

sublocale virtio_disk \<subseteq> driver: block_device "virtio_blk V capacity" sectors
  by (rule driver_contract)

definition memory_virtio :: "byte list VirtIOBlk" where
  "memory_virtio =
    \<lparr>vb_read_blocks = (\<lambda>s buf d. if s * SECTOR_SIZE + length buf \<le> length d
                                  then Some (subslice (s * SECTOR_SIZE) (length buf) d) else None),
     vb_write_blocks = (\<lambda>s buf d. if s * SECTOR_SIZE + length buf \<le> length d
                                   then (True, blit (s * SECTOR_SIZE) buf d) else (False, d))\<rparr>"

interpretation memory_disk: virtio_disk memory_virtio "\<lambda>d. d" capacity for capacity
  by unfold_locales (auto simp: memory_virtio_def)

subsection \<open>Properties\<close>

text \<open>
  C18. Reading from a block device at any byte offset: when the requested range
  lies within the device, the call succeeds, the buffer holds exactly the bytes
  of the device at that range, and the count returned is the length of the
  buffer, whatever the alignment of the range to the blocks. This holds for
  every device with the contract of the trait.
\<close>

theorem bd_read_exact:
  assumes "block_device D bytes" "off + length buf \<le> length (bytes d)"
    "bd_block_size D dvd length (bytes d)" "length (bytes d) \<le> USIZE_MAX"
  shows "bd_read D off buf d = Ok (subslice off (length buf) (bytes d), length buf)"
  by (rule block_device.bd_read_spec [OF assms])

theorem bd_read_exact_witness:
  "bd_read (virtio_blk memory_virtio 24) 4094 [0, 0, 0, 0] (replicate 4096 1 @ replicate 4096 2 @ replicate 4096 3)
    = Ok ([1, 1, 2, 2], 4)"
proof -
  let ?d = "replicate 4096 1 @ replicate 4096 2 @ replicate 4096 3 :: byte list"
  have "subslice 4094 (length [0, 0, 0, 0 :: byte]) ?d = [1, 1, 2, 2]"
    by (simp add: subslice_def numeral_2_eq_2)
  then show ?thesis
    using bd_read_exact [OF memory_disk.driver.block_device_axioms, of 4094 "[0, 0, 0, 0]" ?d 24]
    by (simp add: virtio_blk_def PAGE_SIZE_def USIZE_MAX_def)
qed

text \<open>
  C19. Writing to a block device at any byte offset: when the range lies within
  the device, the call succeeds, the range holds exactly the bytes of the buffer
  afterwards, and every other byte of the device is unchanged, although partial
  blocks are rewritten whole.
\<close>

theorem bd_write_exact:
  assumes "block_device D bytes" "off + length buf \<le> length (bytes d)"
    "bd_block_size D dvd length (bytes d)" "length (bytes d) \<le> USIZE_MAX"
  shows "\<exists>d'. bd_write D off buf d = (Ok (length buf), d') \<and> bytes d' = blit off buf (bytes d)"
  by (rule block_device.bd_write_spec [OF assms])

theorem bd_write_exact_witness:
  "\<exists>d'. bd_write (virtio_blk memory_virtio 24) 4095 [7, 8] (replicate 8192 0) = (Ok 2, d') \<and>
     d' = blit 4095 [7, 8] (replicate 8192 0)"
  using bd_write_exact [OF memory_disk.driver.block_device_axioms, of 4095 "[7, 8]" "replicate 8192 0" 24]
  by (simp add: virtio_blk_def PAGE_SIZE_def USIZE_MAX_def)

text \<open>
  The RAM disk: reading a sector of the disk after writing it gives the
  bytes written, and leaves every other sector as it was; both calls panic
  exactly when the sector is out of range or the buffer is too short.
\<close>

theorem ramdisk_read_after_write:
  assumes "0 < sector_size r" "sector_size r \<le> length buf" "sector_size r \<le> length out"
    "sector < length (base_address r) div sector_size r" "other < length (base_address r) div sector_size r"
  shows "\<exists>r'. write_sector sector buf r = Ok r' \<and>
    read_sector other out r' = (if other = sector then Ok (blit 0 (take (sector_size r) buf) out)
                                else read_sector other out r)"
proof -
  let ?n = "sector_size r" and ?b = "base_address r"
  have fit: "(i + 1) * ?n \<le> length ?b" if "i < length ?b div ?n" for i
    by (rule order_trans [OF mult_le_mono1 div_times_less_eq_dividend]) (use that in simp)
  let ?r = "r\<lparr>base_address := blit (sector * ?n) (take ?n buf) ?b\<rparr>"
  have w: "write_sector sector buf r = Ok ?r" using assms by (simp add: write_sector_def)
  have len: "length (take ?n buf) = ?n" "sector * ?n + ?n \<le> length ?b"
    using assms(2) fit [OF assms(4)] by simp_all
  have "other * ?n + ?n \<le> sector * ?n \<or> sector * ?n + ?n \<le> other * ?n" if "other \<noteq> sector"
    using that mult_le_mono1 [of "other + 1" sector ?n] mult_le_mono1 [of "sector + 1" other ?n]
    by (cases "other < sector") auto
  then have "subslice (other * ?n) ?n (blit (sector * ?n) (take ?n buf) ?b)
      = (if other = sector then take ?n buf else subslice (other * ?n) ?n ?b)"
    using slice_blit_same [of "sector * ?n" "take ?n buf" ?b] len
      slice_blit_other [of "sector * ?n" "take ?n buf" ?b "other * ?n" ?n] by auto
  then show ?thesis
    using w assms len by (simp add: read_sector_def)
qed

theorem ramdisk_read_after_write_witness:
  "\<exists>r'. write_sector 1 [9, 9] \<lparr>base_address = [1, 2, 3, 4, 5, 6], sector_size = 2\<rparr> = Ok r' \<and>
     read_sector 1 [0, 0] r' = Ok [9, 9]"
  using ramdisk_read_after_write [of "\<lparr>base_address = [1, 2, 3, 4, 5, 6], sector_size = 2\<rparr>" "[9, 9]" "[0, 0]" 1 1]
  by (simp add: blit_def)

end
