(* ===== verification/Ext2_Disk.thy ===== *)
theory Ext2_Disk
  imports Block_Device Vfs
begin

section \<open>ext2: on-disk structures, blocks and allocation\<close>

text \<open>
  Model of the first part of \<^verbatim>\<open>src/src/fs/ext2.rs\<close>: the packed structures of the disk,
  reading and writing of filesystem blocks over a block device, the bitmaps, the
  group descriptors and the allocation of blocks and inodes.

  An operation that may write takes the state of the device and returns its
  result beside the new state, also when it fails half-way; \<open>io_bind\<close> is the
  \<^verbatim>\<open>?\<close> operator. An operation that only reads returns its result alone. A
  scratch buffer passed by a caller is only a place to read into: an operation
  that leaves a block in it for the caller returns that block. The locks are held
  for the whole of each operation.

  The superblock has the fields that the code uses; the other fields are never
  read and never written back.
\<close>

unbundle bit_operations_syntax

subsection \<open>State-passing operations\<close>

type_synonym ('d, 'a) io = "'d \<Rightarrow> (FsError, 'a) outcome \<times> 'd"

definition io_ret :: "'a \<Rightarrow> ('d, 'a) io" where
  "io_ret x = (\<lambda>d. (Ok x, d))"

definition io_lift :: "('d \<Rightarrow> (FsError, 'a) outcome) \<Rightarrow> ('d, 'a) io" where
  "io_lift r = (\<lambda>d. (r d, d))"

definition io_bind :: "('d, 'a) io \<Rightarrow> ('a \<Rightarrow> ('d, 'b) io) \<Rightarrow> ('d, 'b) io" where
  "io_bind m f = (\<lambda>d. case m d of (Ok x, d') \<Rightarrow> f x d' | (Err e, d') \<Rightarrow> (Err e, d') | (Panic, d') \<Rightarrow> (Panic, d'))"

lemma io_simps [simp]:
  "io_ret x d = (Ok x, d)" "io_lift r d = (r d, d)"
  "m d = (Ok x, d') \<Longrightarrow> io_bind m f d = f x d'"
  "m d = (Err e, d') \<Longrightarrow> io_bind m f d = (Err e, d')"
  "m d = (Panic, d') \<Longrightarrow> io_bind m f d = (Panic, d')"
  by (simp_all add: io_ret_def io_lift_def io_bind_def)

lemma io_bind_lift [simp]:
  "io_bind (io_lift r) f d = (case r d of Ok x \<Rightarrow> f x d | Err e \<Rightarrow> (Err e, d) | Panic \<Rightarrow> (Panic, d))"
  by (simp add: io_bind_def io_lift_def split: outcome.split)

lemma io_bind_ret [simp]: "io_bind (io_ret x) f = f x"
  by (simp add: io_bind_def io_ret_def)

subsection \<open>Packed structures\<close>

type_synonym u16 = "16 word"
type_synonym u32 = "32 word"

definition u16_at :: "nat \<Rightarrow> byte list \<Rightarrow> u16" where
  "u16_at off bs = of_nat (le_nat (subslice off 2 bs))"

definition u32_at :: "nat \<Rightarrow> byte list \<Rightarrow> u32" where
  "u32_at off bs = of_nat (le_nat (subslice off 4 bs))"

definition u16_bytes :: "u16 \<Rightarrow> byte list" where
  "u16_bytes w = nat_le 2 (unat w)"

definition u32_bytes :: "u32 \<Rightarrow> byte list" where
  "u32_bytes w = nat_le 4 (unat w)"

record Superblock =
  sb_inodes_count :: u32
  sb_blocks_count :: u32
  sb_first_data_block :: u32
  sb_log_block_size :: u32
  sb_blocks_per_group :: u32
  sb_inodes_per_group :: u32
  sb_magic :: u16
  sb_rev_level :: u32
  sb_inode_size :: u16

definition superblock_of :: "byte list \<Rightarrow> Superblock" where
  "superblock_of bs =
    \<lparr>sb_inodes_count = u32_at 0 bs, sb_blocks_count = u32_at 4 bs, sb_first_data_block = u32_at 20 bs,
     sb_log_block_size = u32_at 24 bs, sb_blocks_per_group = u32_at 32 bs,
     sb_inodes_per_group = u32_at 40 bs, sb_magic = u16_at 56 bs, sb_rev_level = u32_at 76 bs,
     sb_inode_size = u16_at 88 bs\<rparr>"

record BlockGroupDescriptor =
  bg_block_bitmap :: u32
  bg_inode_bitmap :: u32
  bg_inode_table :: u32
  bg_free_blocks_count :: u16
  bg_free_inodes_count :: u16
  bg_used_dirs_count :: u16

definition bgd_of :: "byte list \<Rightarrow> BlockGroupDescriptor" where
  "bgd_of bs =
    \<lparr>bg_block_bitmap = u32_at 0 bs, bg_inode_bitmap = u32_at 4 bs, bg_inode_table = u32_at 8 bs,
     bg_free_blocks_count = u16_at 12 bs, bg_free_inodes_count = u16_at 14 bs,
     bg_used_dirs_count = u16_at 16 bs\<rparr>"

definition bgd_bytes :: "BlockGroupDescriptor \<Rightarrow> byte list" where
  "bgd_bytes b = u32_bytes (bg_block_bitmap b) @ u32_bytes (bg_inode_bitmap b) @
    u32_bytes (bg_inode_table b) @ u16_bytes (bg_free_blocks_count b) @
    u16_bytes (bg_free_inodes_count b) @ u16_bytes (bg_used_dirs_count b)"

record INodeData =
  i_mode :: u16
  i_uid :: u16
  i_size :: u32
  i_atime :: u32
  i_ctime :: u32
  i_mtime :: u32
  i_dtime :: u32
  i_gid :: u16
  i_links_count :: u16
  i_blocks :: u32
  i_flags :: u32
  i_osd1 :: u32
  i_block :: "u32 list"
  i_generation :: u32
  i_file_acl :: u32
  i_dir_acl :: u32
  i_faddr :: u32
  i_osd2 :: "byte list"

definition inode_of :: "byte list \<Rightarrow> INodeData" where
  "inode_of bs =
    \<lparr>i_mode = u16_at 0 bs, i_uid = u16_at 2 bs, i_size = u32_at 4 bs, i_atime = u32_at 8 bs,
     i_ctime = u32_at 12 bs, i_mtime = u32_at 16 bs, i_dtime = u32_at 20 bs, i_gid = u16_at 24 bs,
     i_links_count = u16_at 26 bs, i_blocks = u32_at 28 bs, i_flags = u32_at 32 bs, i_osd1 = u32_at 36 bs,
     i_block = map (\<lambda>k. u32_at (40 + 4 * k) bs) [0..<15],
     i_generation = u32_at 100 bs, i_file_acl = u32_at 104 bs, i_dir_acl = u32_at 108 bs,
     i_faddr = u32_at 112 bs, i_osd2 = subslice 116 12 bs\<rparr>"

definition inode_bytes :: "INodeData \<Rightarrow> byte list" where
  "inode_bytes i = u16_bytes (i_mode i) @ u16_bytes (i_uid i) @ u32_bytes (i_size i) @ u32_bytes (i_atime i) @
    u32_bytes (i_ctime i) @ u32_bytes (i_mtime i) @ u32_bytes (i_dtime i) @ u16_bytes (i_gid i) @
    u16_bytes (i_links_count i) @ u32_bytes (i_blocks i) @ u32_bytes (i_flags i) @ u32_bytes (i_osd1 i) @
    concat (map u32_bytes (i_block i)) @ u32_bytes (i_generation i) @ u32_bytes (i_file_acl i) @
    u32_bytes (i_dir_acl i) @ u32_bytes (i_faddr i) @ i_osd2 i"

record INode =
  number :: nat
  idata :: INodeData
  dirty :: bool

record 'd Ext2 =
  block_size :: nat
  ext_device :: "'d BlockDevice"
  superblock :: Superblock
  vfs_id :: "nat option"

text \<open>\<^verbatim>\<open>write_to_prefix\<close> of zerocopy fails on a slice that is too short, and the
  code unwraps it.\<close>

definition put_at :: "nat \<Rightarrow> byte list \<Rightarrow> byte list \<Rightarrow> (FsError, byte list) outcome" where
  "put_at off xs buf = (if off + length xs \<le> length buf then Ok (blit off xs buf) else Panic)"

subsection \<open>Mounting and block access\<close>

fun new_from_block_devices :: "'d BlockDevice list \<Rightarrow> 'd \<Rightarrow> (FsError, 'd Ext2) outcome" where
  "new_from_block_devices [] d = Err NotFound"
| "new_from_block_devices (D # Ds) d =
    (case bd_read D 1024 (replicate 1024 0) d of
       Panic \<Rightarrow> Panic
     | Err _ \<Rightarrow> new_from_block_devices Ds d
     | Ok (buf, _) \<Rightarrow>
         (let sb = superblock_of buf
          in if sb_magic sb = 0xEF53 \<and> sb_log_block_size sb \<le> 2 \<and> sb_rev_level sb = 1
             then Ok \<lparr>block_size = 1024 * 2 ^ unat (sb_log_block_size sb), ext_device = D,
                      superblock = sb, vfs_id = None\<rparr>
             else new_from_block_devices Ds d))"

definition check_block_inputs :: "'d Ext2 \<Rightarrow> nat \<Rightarrow> nat \<Rightarrow> (FsError, unit) outcome" where
  "check_block_inputs fs block_number buffer_len =
    (if unat (sb_blocks_count (superblock fs)) \<le> block_number then Err NotFound
     else if buffer_len < block_size fs then Err InvalidInput
     else Ok ())"

definition ext_read_block :: "'d Ext2 \<Rightarrow> nat \<Rightarrow> 'd \<Rightarrow> (FsError, byte list) outcome" where
  "ext_read_block fs block_number d =
    obind (check_block_inputs fs block_number (block_size fs)) (\<lambda>_.
    case bd_read (ext_device fs) (block_number * block_size fs) (replicate (block_size fs) 0) d of
      Ok (buffer, bytes_read) \<Rightarrow> if bytes_read = block_size fs then Ok buffer else Err FsReadError
    | Err _ \<Rightarrow> Err FsReadError
    | Panic \<Rightarrow> Panic)"

definition ext_write_block :: "'d Ext2 \<Rightarrow> nat \<Rightarrow> byte list \<Rightarrow> ('d, unit) io" where
  "ext_write_block fs block_number buffer d =
    (case check_block_inputs fs block_number (length buffer) of
       Ok _ \<Rightarrow>
         (case bd_write (ext_device fs) (block_number * block_size fs) (take (block_size fs) buffer) d of
            (Ok bytes_written, d') \<Rightarrow> (if bytes_written = block_size fs then Ok () else Err FsWriteError, d')
          | (Err _, d') \<Rightarrow> (Err FsWriteError, d')
          | (Panic, d') \<Rightarrow> (Panic, d'))
     | Err e \<Rightarrow> (Err e, d)
     | Panic \<Rightarrow> (Panic, d))"

subsection \<open>Bitmaps\<close>

fun scan_bits :: "nat \<Rightarrow> nat \<Rightarrow> byte \<Rightarrow> nat option" where
  "scan_bits k 0 b = None"
| "scan_bits k (Suc n) b = (if b AND 1 = 0 then Some k else scan_bits (k + 1) n (drop_bit 1 b))"

fun scan_bytes :: "nat \<Rightarrow> byte list \<Rightarrow> nat option" where
  "scan_bytes j [] = None"
| "scan_bytes j (b # bs) =
    (if b = 0xff then scan_bytes (j + 1) bs
     else case scan_bits 0 8 b of Some k \<Rightarrow> Some (k + 8 * j) | None \<Rightarrow> scan_bytes (j + 1) bs)"

fun scan_chunks :: "nat \<Rightarrow> nat \<Rightarrow> byte list \<Rightarrow> nat option" where
  "scan_chunks i 0 bs = None"
| "scan_chunks i (Suc n) bs =
    (if le_nat (take 8 bs) = 2 ^ 64 - 1 then scan_chunks (i + 1) n (drop 8 bs)
     else case scan_bytes 0 (take 8 bs) of
            Some p \<Rightarrow> Some (p + 64 * i)
          | None \<Rightarrow> scan_chunks (i + 1) n (drop 8 bs))"

definition first_zero_in_bitmap :: "'d Ext2 \<Rightarrow> byte list \<Rightarrow> nat option" where
  "first_zero_in_bitmap fs bitmap = scan_chunks 0 (block_size fs div 8) bitmap"

definition set_bit_in :: "nat \<Rightarrow> byte list \<Rightarrow> byte list" where
  "set_bit_in i bs = bs[i div 8 := bs ! (i div 8) OR push_bit (i mod 8) 1]"

definition clear_bit_in :: "nat \<Rightarrow> byte list \<Rightarrow> byte list" where
  "clear_bit_in i bs = bs[i div 8 := bs ! (i div 8) AND (0xff XOR push_bit (i mod 8) 1)]"

subsection \<open>Group descriptors and allocation\<close>

definition BGD_SIZE :: nat where
  "BGD_SIZE = 32"

definition get_block_group_descriptor ::
  "'d Ext2 \<Rightarrow> nat \<Rightarrow> 'd \<Rightarrow> (FsError, BlockGroupDescriptor \<times> nat \<times> nat \<times> byte list) outcome" where
  "get_block_group_descriptor fs block_group d =
    (let descriptors_per_block = block_size fs div BGD_SIZE;
         bgd_block = unat (sb_first_data_block (superblock fs)) + 1 + block_group div descriptors_per_block
     in obind (ext_read_block fs bgd_block d) (\<lambda>scratch.
        let bgd_index = block_group mod descriptors_per_block;
            bgd_offset = bgd_index * BGD_SIZE
        in Ok (bgd_of (drop bgd_offset scratch), bgd_offset, bgd_block, scratch)))"

definition alloc_block_given_group :: "'d Ext2 \<Rightarrow> nat \<Rightarrow> ('d, nat option) io" where
  "alloc_block_given_group fs grp =
    io_bind (io_lift (get_block_group_descriptor fs grp)) (\<lambda>(bgd, bgd_offset, bgd_block, scratch).
    if bg_free_blocks_count bgd = 0 then io_ret None
    else let bgd1 = bgd\<lparr>bg_free_blocks_count := bg_free_blocks_count bgd - 1\<rparr> in
      io_bind (io_lift (\<lambda>_. put_at bgd_offset (bgd_bytes bgd1) scratch)) (\<lambda>scratch1.
      io_bind (ext_write_block fs bgd_block scratch1) (\<lambda>_.
      let bitmap = unat (bg_block_bitmap bgd1) in
      io_bind (io_lift (ext_read_block fs bitmap)) (\<lambda>scratch2.
      case first_zero_in_bitmap fs scratch2 of
        Some i \<Rightarrow>
          io_bind (ext_write_block fs bitmap (set_bit_in i scratch2)) (\<lambda>_.
          io_ret (Some (unat (sb_first_data_block (superblock fs)) + i
                        + grp * unat (sb_blocks_per_group (superblock fs)))))
      | None \<Rightarrow> io_lift (\<lambda>_. Err (Corrupted ''block bitmap reports free entries but none were found''))))))"

fun try_groups :: "(nat \<Rightarrow> ('d, nat option) io) \<Rightarrow> nat \<Rightarrow> nat list \<Rightarrow> ('d, nat) io" where
  "try_groups alloc preferred_group [] = io_lift (\<lambda>_. Err NoSpace)"
| "try_groups alloc preferred_group (grp # groups) =
    (if grp = preferred_group then try_groups alloc preferred_group groups
     else io_bind (alloc grp) (\<lambda>r. case r of
            Some b \<Rightarrow> io_ret b
          | None \<Rightarrow> try_groups alloc preferred_group groups))"

definition alloc_block :: "'d Ext2 \<Rightarrow> nat \<Rightarrow> ('d, nat) io" where
  "alloc_block fs preferred_group =
    io_bind (alloc_block_given_group fs preferred_group) (\<lambda>r. case r of
      Some b \<Rightarrow> io_ret b
    | None \<Rightarrow>
        if sb_blocks_per_group (superblock fs) = 0 then io_lift (\<lambda>_. Panic)
        else try_groups (alloc_block_given_group fs) preferred_group
          [0..<unat (sb_blocks_count (superblock fs)) div unat (sb_blocks_per_group (superblock fs))])"

definition alloc_inode_given_group :: "'d Ext2 \<Rightarrow> nat \<Rightarrow> ('d, nat option) io" where
  "alloc_inode_given_group fs grp =
    io_bind (io_lift (get_block_group_descriptor fs grp)) (\<lambda>(bgd, bgd_offset, bgd_block, scratch).
    if bg_free_inodes_count bgd = 0 then io_ret None
    else let bgd1 = bgd\<lparr>bg_free_inodes_count := bg_free_inodes_count bgd - 1\<rparr> in
      io_bind (io_lift (\<lambda>_. put_at bgd_offset (bgd_bytes bgd1) scratch)) (\<lambda>scratch1.
      io_bind (ext_write_block fs bgd_block scratch1) (\<lambda>_.
      let bitmap = unat (bg_inode_bitmap bgd1) in
      io_bind (io_lift (ext_read_block fs bitmap)) (\<lambda>scratch2.
      case first_zero_in_bitmap fs scratch2 of
        Some i \<Rightarrow>
          io_bind (ext_write_block fs bitmap (set_bit_in i scratch2)) (\<lambda>_.
          io_ret (Some (1 + i + grp * unat (sb_inodes_per_group (superblock fs)))))
      | None \<Rightarrow> io_lift (\<lambda>_. Err (Corrupted ''inode bitmap reports free entries but none were found''))))))"

definition ext_alloc_inode :: "'d Ext2 \<Rightarrow> nat \<Rightarrow> ('d, nat) io" where
  "ext_alloc_inode fs preferred_group =
    io_bind (alloc_inode_given_group fs preferred_group) (\<lambda>r. case r of
      Some b \<Rightarrow> io_ret b
    | None \<Rightarrow>
        if sb_inodes_per_group (superblock fs) = 0 then io_lift (\<lambda>_. Panic)
        else try_groups (alloc_inode_given_group fs) preferred_group
          [0..<unat (sb_inodes_count (superblock fs)) div unat (sb_inodes_per_group (superblock fs))])"

definition release_bit :: "'d Ext2 \<Rightarrow> nat \<Rightarrow> nat \<Rightarrow> ('d, unit) io" where
  "release_bit fs bitmap i =
    io_bind (io_lift (ext_read_block fs bitmap)) (\<lambda>scratch.
    if length scratch \<le> i div 8 \<or> \<not> bit (scratch ! (i div 8)) (i mod 8) then io_lift (\<lambda>_. Panic)
    else ext_write_block fs bitmap (clear_bit_in i scratch))"

definition dealloc_block :: "'d Ext2 \<Rightarrow> nat \<Rightarrow> ('d, unit) io" where
  "dealloc_block fs block_number0 =
    io_bind (io_lift (\<lambda>_. usub block_number0 (unat (sb_first_data_block (superblock fs))))) (\<lambda>block_number.
    let bpg = unat (sb_blocks_per_group (superblock fs)) in
    if bpg = 0 then io_lift (\<lambda>_. Panic)
    else let grp = block_number div bpg in
      io_bind (io_lift (get_block_group_descriptor fs grp)) (\<lambda>(bgd, bgd_offset, bgd_block, scratch).
      if bg_free_blocks_count bgd = 0xffff then io_lift (\<lambda>_. Panic)
      else let bgd1 = bgd\<lparr>bg_free_blocks_count := bg_free_blocks_count bgd + 1\<rparr> in
        io_bind (io_lift (\<lambda>_. put_at bgd_offset (bgd_bytes bgd1) scratch)) (\<lambda>scratch1.
        io_bind (ext_write_block fs bgd_block scratch1) (\<lambda>_.
        release_bit fs (unat (bg_block_bitmap bgd1)) (block_number mod bpg)))))"

definition dealloc_inode :: "'d Ext2 \<Rightarrow> nat \<Rightarrow> ('d, unit) io" where
  "dealloc_inode fs inumber0 =
    io_bind (io_lift (\<lambda>_. usub inumber0 1)) (\<lambda>inumber.
    let ipg = unat (sb_inodes_per_group (superblock fs)) in
    if ipg = 0 then io_lift (\<lambda>_. Panic)
    else let grp = inumber div ipg in
      io_bind (io_lift (get_block_group_descriptor fs grp)) (\<lambda>(bgd, bgd_offset, bgd_block, scratch).
      if bg_free_inodes_count bgd = 0xffff then io_lift (\<lambda>_. Panic)
      else let bgd1 = bgd\<lparr>bg_free_inodes_count := bg_free_inodes_count bgd + 1\<rparr> in
        io_bind (io_lift (\<lambda>_. put_at bgd_offset (bgd_bytes bgd1) scratch)) (\<lambda>scratch1.
        io_bind (ext_write_block fs bgd_block scratch1) (\<lambda>_.
        release_bit fs (unat (bg_inode_bitmap bgd1)) (inumber mod ipg)))))"

subsection \<open>Inodes\<close>

definition get_ext2_inode :: "'d Ext2 \<Rightarrow> u32 \<Rightarrow> 'd \<Rightarrow> (FsError, INode \<times> nat \<times> nat \<times> byte list) outcome" where
  "get_ext2_inode fs inum d =
    (if inum = 0 then Err InvalidInput
     else if sb_inodes_per_group (superblock fs) = 0 \<or> sb_inode_size (superblock fs) = 0 then Panic
     else let isz = unat (sb_inode_size (superblock fs));
              block_group = unat ((inum - 1) div sb_inodes_per_group (superblock fs))
          in obind (get_block_group_descriptor fs block_group d) (\<lambda>(bgd, _).
             let inodes_per_block = block_size fs div isz;
                 inode_index = unat ((inum - 1) mod sb_inodes_per_group (superblock fs))
             in if inodes_per_block = 0 then Panic
                else let inode_block = unat (bg_inode_table bgd) + inode_index div inodes_per_block
                     in obind (ext_read_block fs inode_block d) (\<lambda>scratch.
                        let inode_offset = inode_index mod inodes_per_block * isz
                        in if length scratch < inode_offset + 128 then Panic
                           else Ok (\<lparr>number = unat inum, idata = inode_of (drop inode_offset scratch), dirty = False\<rparr>,
                                    inode_block, inode_offset, scratch))))"

definition write_inode_data :: "'d Ext2 \<Rightarrow> INode \<Rightarrow> ('d, unit) io" where
  "write_inode_data fs inode =
    io_bind (io_lift (get_ext2_inode fs (of_nat (number inode)))) (\<lambda>(_, inode_block, inode_offset, scratch).
    io_bind (io_lift (\<lambda>_. put_at inode_offset (inode_bytes (idata inode)) scratch)) (\<lambda>scratch1.
    ext_write_block fs inode_block scratch1))"

definition get_fnode :: "'d Ext2 \<Rightarrow> u32 \<Rightarrow> 'd \<Rightarrow> (FsError, INode) outcome" where
  "get_fnode fs inum d = omap fst (get_ext2_inode fs inum d)"

definition get_ext2_root :: "'d Ext2 \<Rightarrow> 'd \<Rightarrow> (FsError, INode) outcome" where
  "get_ext2_root fs = get_fnode fs 2"

subsection \<open>Lemmas on packed structures\<close>

lemma length_u_bytes [simp]: "length (u16_bytes w) = 2" "length (u32_bytes v) = 4"
  by (simp_all add: u16_bytes_def u32_bytes_def)

lemma u16_of_bytes: "of_nat (le_nat (u16_bytes w)) = w"
  using unsigned_less [of w, where ?'a = nat] by (simp add: u16_bytes_def le_nat_nat_le)

lemma u32_of_bytes: "of_nat (le_nat (u32_bytes w)) = w"
  using unsigned_less [of w, where ?'a = nat] by (simp add: u32_bytes_def le_nat_nat_le)

lemma u16_at_bytes: "subslice off 2 bs = u16_bytes w \<Longrightarrow> u16_at off bs = w"
  by (simp add: u16_at_def u16_of_bytes)

lemma u32_at_bytes: "subslice off 4 bs = u32_bytes w \<Longrightarrow> u32_at off bs = w"
  by (simp add: u32_at_def u32_of_bytes)

lemma u_at_drop: "u32_at a (drop k bs) = u32_at (k + a) bs" "u16_at a (drop k bs) = u16_at (k + a) bs"
  by (simp_all add: u32_at_def u16_at_def subslice_def add.commute)

lemma u_bytes_at:
  "off + 2 \<le> length bs \<Longrightarrow> u16_bytes (u16_at off bs) = subslice off 2 bs"
  "off + 4 \<le> length bs \<Longrightarrow> u32_bytes (u32_at off bs) = subslice off 4 bs"
proof -
  assume "off + 2 \<le> length bs"
  then have l: "length (subslice off 2 bs) = 2" by simp
  then have "le_nat (subslice off 2 bs) < 2 ^ 16" using le_nat_bound [of "subslice off 2 bs"] by simp
  then have "unat (u16_at off bs) = le_nat (subslice off 2 bs)"
    by (simp add: u16_at_def unsigned_of_nat take_bit_nat_eq_self)
  then show "u16_bytes (u16_at off bs) = subslice off 2 bs"
    using nat_le_le_nat [of "subslice off 2 bs"] l by (simp add: u16_bytes_def)
next
  assume "off + 4 \<le> length bs"
  then have l: "length (subslice off 4 bs) = 4" by simp
  then have "le_nat (subslice off 4 bs) < 2 ^ 32" using le_nat_bound [of "subslice off 4 bs"] by simp
  then have "unat (u32_at off bs) = le_nat (subslice off 4 bs)"
    by (simp add: u32_at_def unsigned_of_nat take_bit_nat_eq_self)
  then show "u32_bytes (u32_at off bs) = subslice off 4 bs"
    using nat_le_le_nat [of "subslice off 4 bs"] l by (simp add: u32_bytes_def)
qed

lemma length_bgd_bytes [simp]: "length (bgd_bytes b) = 18"
  by (simp add: bgd_bytes_def)

lemma bgd_of_bytes: "bgd_of (bgd_bytes b @ rest) = b"
  by (intro BlockGroupDescriptor.equality)
    (simp_all add: bgd_of_def bgd_bytes_def u32_at_def u16_at_def subslice_def u32_of_bytes u16_of_bytes)

definition inode_data_ok :: "INodeData \<Rightarrow> bool" where
  "inode_data_ok i \<longleftrightarrow> length (i_block i) = 15 \<and> length (i_osd2 i) = 12"

lemma length_concat_u32 [simp]: "length (concat (map u32_bytes ws)) = 4 * length ws"
  by (induction ws) auto

lemma slice_concat_u32:
  "k < length ws \<Longrightarrow> take 4 (drop (4 * k) (concat (map u32_bytes ws) @ rest)) = u32_bytes (ws ! k)"
proof (induction ws arbitrary: k)
  case (Cons w ws)
  then show ?case by (cases k) auto
qed simp

lemma length_inode_bytes [simp]: "inode_data_ok i \<Longrightarrow> length (inode_bytes i) = 128"
  by (simp add: inode_bytes_def inode_data_ok_def)

lemma inode_of_bytes:
  assumes "inode_data_ok i"
  shows "inode_of (inode_bytes i @ rest) = i"
proof (intro INodeData.equality)
  have l: "length (i_block i) = 15" "length (i_osd2 i) = 12" using assms by (simp_all add: inode_data_ok_def)
  define tl where "tl = u32_bytes (i_generation i) @ u32_bytes (i_file_acl i) @
    u32_bytes (i_dir_acl i) @ u32_bytes (i_faddr i) @ i_osd2 i @ rest"
  define hd where "hd = u16_bytes (i_mode i) @ u16_bytes (i_uid i) @ u32_bytes (i_size i) @ u32_bytes (i_atime i) @
    u32_bytes (i_ctime i) @ u32_bytes (i_mtime i) @ u32_bytes (i_dtime i) @ u16_bytes (i_gid i) @
    u16_bytes (i_links_count i) @ u32_bytes (i_blocks i) @ u32_bytes (i_flags i) @ u32_bytes (i_osd1 i)"
  have s: "inode_bytes i @ rest = hd @ concat (map u32_bytes (i_block i)) @ tl"
    by (simp add: hd_def tl_def inode_bytes_def)
  have h: "length hd = 40" by (simp add: hd_def)
  have "u32_at (40 + 4 * k) (inode_bytes i @ rest) = i_block i ! k" if "k < 15" for k
    using that l h slice_concat_u32 [of k "i_block i" tl] by (intro u32_at_bytes) (simp add: s subslice_def)
  then show "i_block (inode_of (inode_bytes i @ rest)) = i_block i"
    using l by (auto simp: inode_of_def intro: nth_equalityI)
qed (use assms in \<open>simp_all add: inode_of_def inode_data_ok_def inode_bytes_def u32_at_def u16_at_def subslice_def
      u32_of_bytes u16_of_bytes\<close>)

lemma inode_of_ok: "128 \<le> length bs \<Longrightarrow> inode_data_ok (inode_of bs)"
  by (simp add: inode_data_ok_def inode_of_def)

subsection \<open>Lemmas on bitmaps\<close>

definition bitmap_bit :: "byte list \<Rightarrow> nat \<Rightarrow> bool" where
  "bitmap_bit bs p \<longleftrightarrow> bit (bs ! (p div 8)) (p mod 8)"

lemma find_append: "List.find P (xs @ ys) = (case List.find P xs of Some x \<Rightarrow> Some x | None \<Rightarrow> List.find P ys)"
  by (induction xs) auto

lemma find_upt_add:
  "List.find P [0..<m + n] = (case List.find P [0..<m] of
     Some x \<Rightarrow> Some x | None \<Rightarrow> map_option ((+) m) (List.find (\<lambda>p. P (m + p)) [0..<n]))"
proof (induction n)
  case (Suc n)
  have "List.find P [0..<m + Suc n] = (case List.find P [0..<m + n] of
      Some x \<Rightarrow> Some x | None \<Rightarrow> if P (m + n) then Some (m + n) else None)" for P :: "nat \<Rightarrow> bool"
    by (simp add: find_append split: option.split)
  moreover have "List.find (\<lambda>p. P (m + p)) [0..<Suc n] = (case List.find (\<lambda>p. P (m + p)) [0..<n] of
      Some x \<Rightarrow> Some x | None \<Rightarrow> if P (m + n) then Some n else None)"
    by (simp add: find_append split: option.split)
  ultimately show ?case using Suc by (auto split: option.splits)
qed (simp split: option.split)

lemma find_upt_Suc:
  "List.find P [0..<Suc n] = (if P 0 then Some 0 else map_option Suc (List.find (\<lambda>p. P (Suc p)) [0..<n]))"
proof -
  have "(+) (1 :: nat) = Suc" by (simp add: fun_eq_iff)
  then show ?thesis using find_upt_add [of P 1 n] by (simp del: upt_Suc add: upt_rec)
qed

lemma find_upt_cong:
  "(\<And>p. p < n \<Longrightarrow> P p = Q p) \<Longrightarrow> List.find P [0..<n] = List.find Q [0..<n]"
  by (rule find_cong) auto

lemma scan_bits_find: "scan_bits k n b = map_option ((+) k) (List.find (\<lambda>j. \<not> bit b j) [0..<n])"
proof (induction k n b rule: scan_bits.induct)
  case (2 k n b)
  have "b AND 1 = 0 \<longleftrightarrow> \<not> bit b 0" by (simp add: and_one_eq bit_0 odd_iff_mod_2_eq_one)
  then show ?case using 2
    by (auto simp: find_upt_Suc bit_drop_bit_eq option.map_comp comp_def simp del: upt_Suc)
qed simp

lemma bitmap_bit_Cons: "p < 8 \<Longrightarrow> bitmap_bit (b # bs) p = bit b p" "bitmap_bit (b # bs) (8 + p) = bitmap_bit bs p"
proof -
  have "(8 + p) div 8 = Suc (p div 8)" by simp
  then show "bitmap_bit (b # bs) (8 + p) = bitmap_bit bs p" by (simp only: bitmap_bit_def) simp
qed (simp add: bitmap_bit_def)

lemma bit_ff:
  assumes "j < 8"
  shows "bit (0xff :: byte) j"
proof -
  have "(0xff :: byte) = mask 8" by (simp add: mask_eq_exp_minus_1)
  then show ?thesis using assms by (simp only: bit_mask_iff) simp
qed

lemma scan_bytes_find:
  "scan_bytes j bs = map_option (\<lambda>p. p + 8 * j) (List.find (\<lambda>p. \<not> bitmap_bit bs p) [0..<8 * length bs])"
proof (induction j bs rule: scan_bytes.induct)
  case (2 j b bs)
  have "List.find (\<lambda>p. \<not> bitmap_bit (b # bs) p) [0..<8 + 8 * length bs] =
    (case List.find (\<lambda>j. \<not> bit b j) [0..<8] of Some x \<Rightarrow> Some x
     | None \<Rightarrow> map_option ((+) 8) (List.find (\<lambda>p. \<not> bitmap_bit bs p) [0..<8 * length bs]))"
    unfolding find_upt_add bitmap_bit_Cons by (simp add: bitmap_bit_Cons cong: find_upt_cong)
  moreover have "List.find (\<lambda>j. \<not> bit b j) [0..<8] = None" if "b = 0xff"
    using that bit_ff by (auto simp: find_None_iff)
  ultimately show ?case using 2
    by (auto simp: scan_bits_find option.map_comp comp_def algebra_simps split: option.splits)
qed simp

lemma le_nat_replicate_ff: "le_nat (replicate n 0xff) = 256 ^ n - 1"
proof (induction n)
  case (Suc n)
  obtain y :: nat where "256 ^ n = Suc y" by (metis gr0_conv_Suc zero_less_numeral zero_less_power)
  then show ?case using Suc by simp
qed simp

lemma le_nat_replicate_0: "le_nat (replicate n 0) = 0"
  by (induction n) auto

lemma le_nat_ones:
  assumes "length bs = 8" "le_nat bs = 2 ^ 64 - 1"
  shows "bs = replicate 8 0xff"
proof -
  have "le_nat bs = le_nat (replicate 8 0xff)" unfolding le_nat_replicate_ff using assms(2) by simp
  then show ?thesis
    using nat_le_le_nat [of bs] nat_le_le_nat [of "replicate 8 0xff"] assms(1) by (metis length_replicate)
qed

lemma bitmap_bit_ones: "p < 8 * n \<Longrightarrow> bitmap_bit (replicate n 0xff) p"
proof -
  assume "p < 8 * n"
  then have "p div 8 < n" by (simp add: less_mult_imp_div_less mult.commute)
  moreover have "bit (0xff :: byte) (p mod 8)" by (rule bit_ff) simp
  ultimately show ?thesis unfolding bitmap_bit_def by (simp only: nth_replicate)
qed

lemma bitmap_bit_drop:
  assumes "8 \<le> length bs"
  shows "bitmap_bit (drop 8 bs) p = bitmap_bit bs (64 + p)"
proof -
  have "(64 + p) div 8 = 8 + p div 8" "(64 + p) mod 8 = p mod 8" by presburger+
  then show ?thesis using assms by (simp only: bitmap_bit_def) simp
qed

lemma scan_chunks_find:
  assumes "8 * n \<le> length bs"
  shows "scan_chunks i n bs = map_option (\<lambda>p. p + 64 * i) (List.find (\<lambda>p. \<not> bitmap_bit bs p) [0..<64 * n])"
  using assms
proof (induction i n bs rule: scan_chunks.induct)
  case (2 i n bs)
  let ?f = "\<lambda>bs n. List.find (\<lambda>p. \<not> bitmap_bit bs p) [0..<n]"
  have l8: "8 \<le> length bs" using 2(3) by simp
  then have l: "length (take 8 bs) = 8" by simp
  have hd: "?f bs 64 = ?f (take 8 bs) 64"
    using l by (intro find_upt_cong) (simp add: bitmap_bit_def)
  have split: "?f bs (64 + 64 * n) = (case ?f (take 8 bs) 64 of Some x \<Rightarrow> Some x
      | None \<Rightarrow> map_option ((+) 64) (?f (drop 8 bs) (64 * n)))"
    unfolding find_upt_add hd bitmap_bit_drop [OF l8] ..
  have ones: "?f (take 8 bs) 64 = None" if "le_nat (take 8 bs) = 2 ^ 64 - 1"
    unfolding le_nat_ones [OF l that] by (auto simp: find_None_iff intro: bitmap_bit_ones)
  have bytes: "scan_bytes 0 (take 8 bs) = ?f (take 8 bs) 64"
    using l by (simp add: scan_bytes_find option.map_ident)
  have "8 * n \<le> length (drop 8 bs)" using 2(3) by simp
  note IH = 2(1) [OF _ this] 2(2) [OF _ _ this]
  show ?case
  proof (cases "le_nat (take 8 bs) = 2 ^ 64 - 1")
    case True
    then show ?thesis using IH(1) split ones by (simp add: option.map_comp comp_def algebra_simps)
  next
    case False
    then show ?thesis using IH(2) split bytes
      by (auto simp: option.map_comp comp_def algebra_simps split: option.split)
  qed
qed simp

lemma first_zero_find:
  assumes "8 dvd block_size fs" "length bitmap = block_size fs"
  shows "first_zero_in_bitmap fs bitmap = List.find (\<lambda>p. \<not> bitmap_bit bitmap p) [0..<8 * block_size fs]"
proof -
  have "64 * (block_size fs div 8) = 8 * block_size fs" using assms(1) by auto
  moreover have "8 * (block_size fs div 8) \<le> length bitmap" using assms by simp
  ultimately show ?thesis
    unfolding first_zero_in_bitmap_def using scan_chunks_find [of "block_size fs div 8" bitmap 0]
    by (simp only: mult_0_right add_0_right option.map_ident)
qed

lemma first_zero_Some:
  assumes "8 dvd block_size fs" "length bitmap = block_size fs" "first_zero_in_bitmap fs bitmap = Some i"
  shows "i < 8 * block_size fs" "\<not> bitmap_bit bitmap i" "\<forall>p<i. bitmap_bit bitmap p"
  using assms(3) unfolding first_zero_find [OF assms(1,2)] find_Some_iff by auto

lemma bit_set_bit_in:
  assumes "i < 8 * length bs" "p < 8 * length bs"
  shows "bitmap_bit (set_bit_in i bs) p \<longleftrightarrow> p = i \<or> bitmap_bit bs p"
proof -
  have "p div 8 < length bs" "i div 8 < length bs" using assms by auto
  moreover have "p = i \<longleftrightarrow> p div 8 = i div 8 \<and> p mod 8 = i mod 8"
    by (metis mod_mult_div_eq)
  ultimately show ?thesis
    by (auto simp: bitmap_bit_def set_bit_in_def nth_list_update bit_or_iff bit_exp_iff)
qed

lemma clear_set_byte:
  fixes b :: byte
  assumes "\<not> bit b k" "k < 8"
  shows "(b OR push_bit k 1) AND (0xff XOR push_bit k 1) = b"
  using assms bit_ff
  by (intro bit_word_eqI) (auto simp: bit_and_iff bit_or_iff bit_xor_iff bit_exp_iff)

lemma clear_set_bit_in:
  assumes "i < 8 * length bs" "\<not> bitmap_bit bs i"
  shows "clear_bit_in i (set_bit_in i bs) = bs"
proof -
  have "i div 8 < length bs" using assms by auto
  moreover have "\<not> bit (bs ! (i div 8)) (i mod 8)" using assms(2) by (simp add: bitmap_bit_def)
  then have "(bs ! (i div 8) OR push_bit (i mod 8) 1) AND (0xff XOR push_bit (i mod 8) 1) = bs ! (i div 8)"
    by (rule clear_set_byte) simp
  ultimately show ?thesis
    unfolding clear_bit_in_def set_bit_in_def by (simp only: nth_list_update_eq list_update_overwrite list_update_id)
qed

lemma length_set_bit_in [simp]: "length (set_bit_in i bs) = length bs" "length (clear_bit_in i bs) = length bs"
  by (simp_all add: set_bit_in_def clear_bit_in_def)

subsection \<open>A volume on a block device\<close>

definition vol_block :: "'d Ext2 \<Rightarrow> ('d \<Rightarrow> byte list) \<Rightarrow> 'd \<Rightarrow> nat \<Rightarrow> byte list" where
  "vol_block fs bytes d n = subslice (n * block_size fs) (block_size fs) (bytes d)"

abbreviation block_count :: "'d Ext2 \<Rightarrow> nat" where
  "block_count fs \<equiv> unat (sb_blocks_count (superblock fs))"

definition vol_ok :: "'d Ext2 \<Rightarrow> ('d \<Rightarrow> byte list) \<Rightarrow> 'd \<Rightarrow> bool" where
  "vol_ok fs bytes d \<longleftrightarrow> block_count fs * block_size fs \<le> length (bytes d) \<and>
     bd_block_size (ext_device fs) dvd length (bytes d) \<and> length (bytes d) \<le> USIZE_MAX"

definition bgd_block_of :: "'d Ext2 \<Rightarrow> nat \<Rightarrow> nat" where
  "bgd_block_of fs g = unat (sb_first_data_block (superblock fs)) + 1 + g div (block_size fs div BGD_SIZE)"

definition bgd_offset_of :: "'d Ext2 \<Rightarrow> nat \<Rightarrow> nat" where
  "bgd_offset_of fs g = g mod (block_size fs div BGD_SIZE) * BGD_SIZE"

definition bgd_at :: "'d Ext2 \<Rightarrow> (nat \<Rightarrow> byte list) \<Rightarrow> nat \<Rightarrow> BlockGroupDescriptor" where
  "bgd_at fs B g = bgd_of (drop (bgd_offset_of fs g) (B (bgd_block_of fs g)))"

definition put_bgd :: "'d Ext2 \<Rightarrow> nat \<Rightarrow> BlockGroupDescriptor \<Rightarrow> (nat \<Rightarrow> byte list) \<Rightarrow> nat \<Rightarrow> byte list" where
  "put_bgd fs g b B = B(bgd_block_of fs g := blit (bgd_offset_of fs g) (bgd_bytes b) (B (bgd_block_of fs g)))"

lemma blit_in_range:
  assumes "n < c" "c * bs \<le> len"
  shows "n * bs + bs \<le> (len :: nat)"
proof -
  have "Suc n * bs \<le> c * bs" using assms(1) by (intro mult_right_mono) auto
  then show ?thesis using assms(2) by simp
qed

lemma other_block_disjoint:
  assumes "m \<noteq> (n :: nat)"
  shows "m * bs + bs \<le> n * bs \<or> n * bs + bs \<le> m * bs"
proof (cases "m < n")
  case True
  then have "Suc m * bs \<le> n * bs" by (intro mult_right_mono) auto
  then show ?thesis by simp
next
  case False
  then have "Suc n * bs \<le> m * bs" using assms by (intro mult_right_mono) auto
  then show ?thesis by simp
qed

locale ext2_volume = dev: block_device "ext_device fs" bytes
  for fs :: "'d Ext2" and bytes :: "'d \<Rightarrow> byte list" +
  assumes bs_pos: "0 < block_size fs" and bs_32: "BGD_SIZE dvd block_size fs"
begin

lemma bs_8: "8 dvd block_size fs"
  using bs_32 dvd_trans [of 8 BGD_SIZE "block_size fs"] by (simp add: BGD_SIZE_def)

lemma bgd_offset: "bgd_offset_of fs g + 32 \<le> block_size fs"
proof -
  obtain k where k: "block_size fs = BGD_SIZE * k" using bs_32 by (elim dvdE)
  then have "g mod k < k" using bs_pos by (intro mod_less_divisor) (auto simp: BGD_SIZE_def)
  then show ?thesis using k by (simp add: bgd_offset_of_def BGD_SIZE_def)
qed

lemma length_vol_block: "vol_ok fs bytes d \<Longrightarrow> n < block_count fs \<Longrightarrow> length (vol_block fs bytes d n) = block_size fs"
  using blit_in_range [of n "block_count fs" "block_size fs" "length (bytes d)"]
  by (simp add: vol_ok_def vol_block_def)

lemma ext_read_block_ok:
  assumes "vol_ok fs bytes d" "n < block_count fs"
  shows "ext_read_block fs n d = Ok (vol_block fs bytes d n)"
  using assms dev.bd_read_spec [of "n * block_size fs" "replicate (block_size fs) 0" d]
    blit_in_range [of n "block_count fs" "block_size fs" "length (bytes d)"]
  by (simp add: ext_read_block_def check_block_inputs_def vol_ok_def vol_block_def)

lemma ext_write_block_ok:
  assumes "vol_ok fs bytes d" "n < block_count fs" "length buf = block_size fs"
  obtains d' where "ext_write_block fs n buf d = (Ok (), d')" "vol_ok fs bytes d'"
    "vol_block fs bytes d' = (vol_block fs bytes d)(n := buf)"
proof -
  have fits: "n * block_size fs + length buf \<le> length (bytes d)"
    using assms blit_in_range [of n "block_count fs" "block_size fs" "length (bytes d)"] by (simp add: vol_ok_def)
  then obtain d' where d': "bd_write (ext_device fs) (n * block_size fs) buf d = (Ok (length buf), d')"
    "bytes d' = blit (n * block_size fs) buf (bytes d)"
    using dev.bd_write_spec [of "n * block_size fs" buf d] assms(1) by (auto simp: vol_ok_def)
  have "vol_block fs bytes d' = (vol_block fs bytes d)(n := buf)"
    using fits d'(2) assms(3) other_block_disjoint [of _ n "block_size fs"]
      slice_blit_same [OF fits] slice_blit_other [OF fits]
    by (auto simp: vol_block_def fun_eq_iff)
  moreover have "ext_write_block fs n buf d = (Ok (), d')"
    using assms(2,3) d'(1) by (simp add: ext_write_block_def check_block_inputs_def)
  moreover have "vol_ok fs bytes d'" using assms(1) d'(2) fits by (simp add: vol_ok_def)
  ultimately show ?thesis using that by blast
qed

lemma get_bgd_ok:
  assumes "vol_ok fs bytes d" "bgd_block_of fs g < block_count fs"
  shows "get_block_group_descriptor fs g d = Ok (bgd_at fs (vol_block fs bytes d) g, bgd_offset_of fs g,
    bgd_block_of fs g, vol_block fs bytes d (bgd_block_of fs g))"
  using ext_read_block_ok [OF assms]
  by (simp add: get_block_group_descriptor_def bgd_at_def bgd_block_of_def bgd_offset_of_def Let_def)

lemma put_at_bgd_ok:
  assumes "length xs = block_size fs"
  shows "put_at (bgd_offset_of fs g) (bgd_bytes b) xs = Ok (blit (bgd_offset_of fs g) (bgd_bytes b) xs)"
  using bgd_offset [of g] assms by (simp add: put_at_def)

lemma write_bgd_ok:
  assumes "vol_ok fs bytes d" "bgd_block_of fs g < block_count fs"
  obtains d' where "ext_write_block fs (bgd_block_of fs g)
      (blit (bgd_offset_of fs g) (bgd_bytes b) (vol_block fs bytes d (bgd_block_of fs g))) d = (Ok (), d')"
    "vol_ok fs bytes d'" "vol_block fs bytes d' = put_bgd fs g b (vol_block fs bytes d)"
proof -
  have "length (blit (bgd_offset_of fs g) (bgd_bytes b) (vol_block fs bytes d (bgd_block_of fs g))) = block_size fs"
    using length_vol_block [OF assms] bgd_offset [of g] by simp
  from ext_write_block_ok [OF assms this] show ?thesis using that by (auto simp: put_bgd_def)
qed

end

subsection \<open>Allocation and release\<close>

definition group_ok :: "'d Ext2 \<Rightarrow> (nat \<Rightarrow> byte list) \<Rightarrow> (BlockGroupDescriptor \<Rightarrow> u32) \<Rightarrow> nat \<Rightarrow> bool" where
  "group_ok fs B bitmap g \<longleftrightarrow> bgd_block_of fs g < block_count fs \<and>
     unat (bitmap (bgd_at fs B g)) < block_count fs \<and> unat (bitmap (bgd_at fs B g)) \<noteq> bgd_block_of fs g"

text \<open>The blocks of the volume after the bit \<open>i\<close> of the block bitmap of a group has
  been set and its count of free blocks decreased.\<close>

definition mark_block :: "'d Ext2 \<Rightarrow> nat \<Rightarrow> nat \<Rightarrow> (nat \<Rightarrow> byte list) \<Rightarrow> nat \<Rightarrow> byte list" where
  "mark_block fs g i B =
    (let b = bgd_at fs B g; bm = unat (bg_block_bitmap b)
     in (put_bgd fs g (b\<lparr>bg_free_blocks_count := bg_free_blocks_count b - 1\<rparr>) B)(bm := set_bit_in i (B bm)))"

definition mark_inode :: "'d Ext2 \<Rightarrow> nat \<Rightarrow> nat \<Rightarrow> (nat \<Rightarrow> byte list) \<Rightarrow> nat \<Rightarrow> byte list" where
  "mark_inode fs g i B =
    (let b = bgd_at fs B g; bm = unat (bg_inode_bitmap b)
     in (put_bgd fs g (b\<lparr>bg_free_inodes_count := bg_free_inodes_count b - 1\<rparr>) B)(bm := set_bit_in i (B bm)))"

lemma put_bgd_other: "n \<noteq> bgd_block_of fs g \<Longrightarrow> put_bgd fs g b B n = B n"
  by (simp add: put_bgd_def)

lemma bgd_bytes_of:
  assumes "18 \<le> length xs"
  shows "bgd_bytes (bgd_of xs) = take 18 xs"
proof -
  have "take 18 xs = subslice 0 4 xs @ subslice 4 4 xs @ subslice 8 4 xs @ subslice 12 2 xs @ subslice 14 2 xs @
      subslice 16 2 xs"
    using slice_append_slice [of 14 2 xs 2] slice_append_slice [of 12 2 xs 4] slice_append_slice [of 8 4 xs 6]
      slice_append_slice [of 4 4 xs 10] slice_append_slice [of 0 4 xs 14]
    by (simp add: subslice_def [of 0 18])
  then show ?thesis using assms by (simp add: bgd_bytes_def bgd_of_def u_bytes_at)
qed

lemma try_groups_cases:
  assumes "\<forall>g\<in>set gs. alloc g d = (Ok None, d) \<or> (\<exists>b d'. alloc g d = (Ok (Some b), d'))"
  shows "(try_groups alloc p gs d = (Err NoSpace, d) \<and> (\<forall>g\<in>set gs. g \<noteq> p \<longrightarrow> alloc g d = (Ok None, d))) \<or>
    (\<exists>g\<in>set gs. \<exists>b d'. alloc g d = (Ok (Some b), d') \<and> try_groups alloc p gs d = (Ok b, d'))"
  using assms
proof (induction gs)
  case (Cons g gs)
  from Cons.prems have "alloc g d = (Ok None, d) \<or> (\<exists>b d'. alloc g d = (Ok (Some b), d'))" by simp
  then show ?case
  proof (elim disjE exE)
    assume none: "alloc g d = (Ok None, d)"
    have "try_groups alloc p (g # gs) d = try_groups alloc p gs d" using none by simp
    then show ?thesis using Cons none by auto
  next
    fix b d' assume some: "alloc g d = (Ok (Some b), d')"
    then have "g \<noteq> p \<Longrightarrow> try_groups alloc p (g # gs) d = (Ok b, d')" by simp
    moreover have "g = p \<Longrightarrow> try_groups alloc p (g # gs) d = try_groups alloc p gs d" by simp
    ultimately show ?thesis using Cons some by (cases "g = p") auto
  qed
qed simp

definition unmark_block :: "'d Ext2 \<Rightarrow> nat \<Rightarrow> nat \<Rightarrow> (nat \<Rightarrow> byte list) \<Rightarrow> nat \<Rightarrow> byte list" where
  "unmark_block fs g i B =
    (let b = bgd_at fs B g; bm = unat (bg_block_bitmap b)
     in (put_bgd fs g (b\<lparr>bg_free_blocks_count := bg_free_blocks_count b + 1\<rparr>) B)(bm := clear_bit_in i (B bm)))"

lemma bgd_at_put:
  assumes "bgd_offset_of fs g + 18 \<le> length (B (bgd_block_of fs g))"
  shows "bgd_at fs (put_bgd fs g b B) g = b"
  using assms by (simp add: bgd_at_def put_bgd_def blit_def bgd_of_bytes)

lemma bgd_at_upd_other: "n \<noteq> bgd_block_of fs g \<Longrightarrow> bgd_at fs (B(n := x)) g = bgd_at fs B g"
  by (simp add: bgd_at_def)

lemma put_bgd_put_bgd:
  assumes "bgd_offset_of fs g + 18 \<le> length (B (bgd_block_of fs g))"
  shows "put_bgd fs g (bgd_at fs B g) (put_bgd fs g b B) = B"
proof -
  let ?X = "B (bgd_block_of fs g)" and ?o = "bgd_offset_of fs g"
  have "bgd_bytes (bgd_at fs B g) = take 18 (drop ?o ?X)"
    using assms by (simp add: bgd_at_def bgd_bytes_of)
  moreover have "drop (?o + 18) (blit ?o (bgd_bytes b) ?X) = drop (?o + 18) ?X"
    using assms by (simp add: blit_def)
  moreover have "take 18 (drop ?o ?X) @ drop (?o + 18) ?X = drop ?o ?X"
    by (metis add.commute append_take_drop_id drop_drop)
  ultimately have "blit ?o (bgd_bytes (bgd_at fs B g)) (blit ?o (bgd_bytes b) ?X) = ?X"
    using assms by (simp add: blit_def [of _ "take 18 (drop ?o ?X)"]) (simp add: blit_def)
  then show ?thesis by (simp add: put_bgd_def)
qed

lemma unmark_mark_block:
  assumes "bgd_offset_of fs g + 18 \<le> length (B (bgd_block_of fs g))"
    and "unat (bg_block_bitmap (bgd_at fs B g)) \<noteq> bgd_block_of fs g"
    and "i < 8 * length (B (unat (bg_block_bitmap (bgd_at fs B g))))"
    and "\<not> bitmap_bit (B (unat (bg_block_bitmap (bgd_at fs B g)))) i"
  shows "unmark_block fs g i (mark_block fs g i B) = B"
proof -
  let ?b = "bgd_at fs B g"
  let ?b1 = "?b\<lparr>bg_free_blocks_count := bg_free_blocks_count ?b - 1\<rparr>" and ?bm = "unat (bg_block_bitmap ?b)"
  have at: "bgd_at fs (mark_block fs g i B) g = ?b1"
    using assms(1,2) by (simp add: mark_block_def Let_def bgd_at_upd_other bgd_at_put)
  have "?b1\<lparr>bg_free_blocks_count := bg_free_blocks_count ?b1 + 1\<rparr> = ?b" by simp
  moreover have "put_bgd fs g ?b ((put_bgd fs g ?b1 B)(?bm := x)) = (put_bgd fs g ?b (put_bgd fs g ?b1 B))(?bm := x)" for x
    using assms(2) by (simp add: put_bgd_def fun_upd_twist)
  ultimately show ?thesis
    unfolding unmark_block_def at Let_def using assms clear_set_bit_in [OF assms(3,4)]
    by (simp add: mark_block_def Let_def put_bgd_put_bgd)
qed

context ext2_volume
begin

lemma alloc_none:
  assumes "vol_ok fs bytes d" "bgd_block_of fs g < block_count fs"
    "bg_free_blocks_count (bgd_at fs (vol_block fs bytes d) g) = 0"
  shows "alloc_block_given_group fs g d = (Ok None, d)"
  using assms by (simp add: alloc_block_given_group_def get_bgd_ok)

lemma alloc_inode_none:
  assumes "vol_ok fs bytes d" "bgd_block_of fs g < block_count fs"
    "bg_free_inodes_count (bgd_at fs (vol_block fs bytes d) g) = 0"
  shows "alloc_inode_given_group fs g d = (Ok None, d)"
  using assms by (simp add: alloc_inode_given_group_def get_bgd_ok)

lemma alloc_some:
  assumes vol: "vol_ok fs bytes d" and g: "group_ok fs (vol_block fs bytes d) bg_block_bitmap g"
    and free: "bg_free_blocks_count (bgd_at fs (vol_block fs bytes d) g) \<noteq> 0"
    and zero: "first_zero_in_bitmap fs (vol_block fs bytes d (unat (bg_block_bitmap (bgd_at fs (vol_block fs bytes d) g)))) = Some i"
  obtains d' where "alloc_block_given_group fs g d
      = (Ok (Some (unat (sb_first_data_block (superblock fs)) + i + g * unat (sb_blocks_per_group (superblock fs)))), d')"
    "vol_ok fs bytes d'" "vol_block fs bytes d' = mark_block fs g i (vol_block fs bytes d)"
proof -
  let ?B = "vol_block fs bytes d"
  let ?b = "bgd_at fs ?B g"
  let ?b1 = "?b\<lparr>bg_free_blocks_count := bg_free_blocks_count ?b - 1\<rparr>"
  let ?bm = "unat (bg_block_bitmap ?b)"
  have gb: "bgd_block_of fs g < block_count fs" "?bm < block_count fs" "?bm \<noteq> bgd_block_of fs g"
    using g by (simp_all add: group_ok_def)
  obtain d1 where d1: "ext_write_block fs (bgd_block_of fs g)
      (blit (bgd_offset_of fs g) (bgd_bytes ?b1) (?B (bgd_block_of fs g))) d = (Ok (), d1)"
    "vol_ok fs bytes d1" "vol_block fs bytes d1 = put_bgd fs g ?b1 ?B"
    by (rule write_bgd_ok [OF vol gb(1)])
  have bm: "vol_block fs bytes d1 ?bm = ?B ?bm" using d1(3) gb(3) by (simp add: put_bgd_other)
  have "length (set_bit_in i (?B ?bm)) = block_size fs" using length_vol_block [OF vol gb(2)] by simp
  from ext_write_block_ok [OF d1(2) gb(2) this] obtain d2 where
    d2: "ext_write_block fs ?bm (set_bit_in i (?B ?bm)) d1 = (Ok (), d2)" "vol_ok fs bytes d2"
      "vol_block fs bytes d2 = (vol_block fs bytes d1)(?bm := set_bit_in i (?B ?bm))" by blast
  have "alloc_block_given_group fs g d = (Ok (Some (unat (sb_first_data_block (superblock fs)) + i
      + g * unat (sb_blocks_per_group (superblock fs)))), d2)"
    using free zero bm d1(1) d2(1) ext_read_block_ok [OF d1(2) gb(2)]
      put_at_bgd_ok [OF length_vol_block [OF vol gb(1)]]
    by (simp add: alloc_block_given_group_def get_bgd_ok [OF vol gb(1)] Let_def)
  then show ?thesis using d2 d1(3) by (intro that) (simp_all add: mark_block_def Let_def)
qed

lemma dealloc_ok:
  assumes vol: "vol_ok fs bytes d" and g: "group_ok fs (vol_block fs bytes d) bg_block_bitmap g"
    and i: "i < unat (sb_blocks_per_group (superblock fs))" "i < 8 * block_size fs"
    and room: "bg_free_blocks_count (bgd_at fs (vol_block fs bytes d) g) \<noteq> 0xffff"
    and used: "bitmap_bit (vol_block fs bytes d (unat (bg_block_bitmap (bgd_at fs (vol_block fs bytes d) g)))) i"
  obtains d' where "dealloc_block fs (unat (sb_first_data_block (superblock fs)) + i
      + g * unat (sb_blocks_per_group (superblock fs))) d = (Ok (), d')"
    "vol_ok fs bytes d'" "vol_block fs bytes d' = unmark_block fs g i (vol_block fs bytes d)"
proof -
  let ?B = "vol_block fs bytes d" and ?bpg = "unat (sb_blocks_per_group (superblock fs))"
  let ?fdb = "unat (sb_first_data_block (superblock fs))"
  let ?b = "bgd_at fs ?B g"
  let ?b1 = "?b\<lparr>bg_free_blocks_count := bg_free_blocks_count ?b + 1\<rparr>"
  let ?bm = "unat (bg_block_bitmap ?b)"
  have gb: "bgd_block_of fs g < block_count fs" "?bm < block_count fs" "?bm \<noteq> bgd_block_of fs g"
    using g by (simp_all add: group_ok_def)
  obtain d1 where d1: "ext_write_block fs (bgd_block_of fs g)
      (blit (bgd_offset_of fs g) (bgd_bytes ?b1) (?B (bgd_block_of fs g))) d = (Ok (), d1)"
    "vol_ok fs bytes d1" "vol_block fs bytes d1 = put_bgd fs g ?b1 ?B"
    by (rule write_bgd_ok [OF vol gb(1)])
  have bm: "vol_block fs bytes d1 ?bm = ?B ?bm" using d1(3) gb(3) by (simp add: put_bgd_other)
  have len: "length (?B ?bm) = block_size fs" by (rule length_vol_block [OF vol gb(2)])
  from ext_write_block_ok [OF d1(2) gb(2), of "clear_bit_in i (?B ?bm)"] len obtain d2 where
    d2: "ext_write_block fs ?bm (clear_bit_in i (?B ?bm)) d1 = (Ok (), d2)" "vol_ok fs bytes d2"
      "vol_block fs bytes d2 = (vol_block fs bytes d1)(?bm := clear_bit_in i (?B ?bm))" by auto
  have "(i + g * ?bpg) div ?bpg = g" using i(1) div_mult_self1 [of ?bpg i g] by simp
  then have idx: "(i + g * ?bpg) div ?bpg = g" "(i + g * ?bpg) mod ?bpg = i" "sb_blocks_per_group (superblock fs) \<noteq> 0"
    using i(1) by auto
  have rel: "release_bit fs ?bm i d1 = (Ok (), d2)"
    using d2(1) bm used i(2) len ext_read_block_ok [OF d1(2) gb(2)]
    by (simp add: release_bit_def bitmap_bit_def less_mult_imp_div_less mult.commute not_le)
  have "dealloc_block fs (?fdb + i + g * ?bpg) d = (Ok (), d2)"
    using room rel d1(1) idx put_at_bgd_ok [OF length_vol_block [OF vol gb(1)]] i(1)
    by (simp add: dealloc_block_def get_bgd_ok [OF vol gb(1)] Let_def add.assoc)
  then show ?thesis using d2 d1(3) by (intro that) (simp_all add: unmark_block_def Let_def)
qed

end

subsection \<open>Properties\<close>

text \<open>
  C24. The search of a bitmap block, which skips full 64-bit words and full
  bytes, finds the same bit as a plain scan: the least position whose bit is
  clear, and nothing exactly when every bit of the block is set.
\<close>

theorem first_zero_in_bitmap_is_least:
  assumes "8 dvd block_size fs" "length bitmap = block_size fs"
  shows "first_zero_in_bitmap fs bitmap = List.find (\<lambda>p. \<not> bitmap_bit bitmap p) [0..<8 * block_size fs]"
  by (rule first_zero_find [OF assms])

text \<open>
  C25. Allocating a block: on a volume whose groups have their structures in
  range and whose free counts agree with the bitmaps, the allocation either
  reports NoSpace, changes nothing, and every group it looked at has a free
  count of 0; or it returns the block of the first clear bit of a group, and the
  new volume is the old one with exactly that bit set and the count of that
  group decreased.
\<close>

theorem alloc_block_marks_one_bit:
  assumes "ext2_volume fs bytes" "vol_ok fs bytes d" "sb_blocks_per_group (superblock fs) \<noteq> 0"
    and "groups = insert pref {..<block_count fs div unat (sb_blocks_per_group (superblock fs))}"
    and "\<And>g. g \<in> groups \<Longrightarrow> group_ok fs (vol_block fs bytes d) bg_block_bitmap g"
    and "\<And>g. g \<in> groups \<Longrightarrow> bg_free_blocks_count (bgd_at fs (vol_block fs bytes d) g) \<noteq> 0 \<Longrightarrow>
      \<exists>i. first_zero_in_bitmap fs (vol_block fs bytes d (unat (bg_block_bitmap (bgd_at fs (vol_block fs bytes d) g)))) = Some i"
  shows "(alloc_block fs pref d = (Err NoSpace, d) \<and>
      (\<forall>g\<in>groups. bg_free_blocks_count (bgd_at fs (vol_block fs bytes d) g) = 0)) \<or>
    (\<exists>g\<in>groups. \<exists>i d'. first_zero_in_bitmap fs
        (vol_block fs bytes d (unat (bg_block_bitmap (bgd_at fs (vol_block fs bytes d) g)))) = Some i \<and>
      alloc_block fs pref d = (Ok (unat (sb_first_data_block (superblock fs)) + i
        + g * unat (sb_blocks_per_group (superblock fs))), d') \<and>
      vol_ok fs bytes d' \<and> vol_block fs bytes d' = mark_block fs g i (vol_block fs bytes d))"
proof -
  let ?B = "vol_block fs bytes d" and ?alloc = "alloc_block_given_group fs"
  let ?marks = "\<lambda>g b d'. \<exists>i. first_zero_in_bitmap fs (?B (unat (bg_block_bitmap (bgd_at fs ?B g)))) = Some i \<and>
    b = unat (sb_first_data_block (superblock fs)) + i + g * unat (sb_blocks_per_group (superblock fs)) \<and>
    vol_ok fs bytes d' \<and> vol_block fs bytes d' = mark_block fs g i ?B"
  have each: "?alloc g d = (Ok None, d) \<and> bg_free_blocks_count (bgd_at fs ?B g) = 0 \<or>
      (\<exists>b d'. ?alloc g d = (Ok (Some b), d') \<and> ?marks g b d')" if g: "g \<in> groups" for g
  proof (cases "bg_free_blocks_count (bgd_at fs ?B g) = 0")
    case True
    then show ?thesis
      using ext2_volume.alloc_none [OF assms(1,2)] assms(5) [OF g] by (simp add: group_ok_def)
  next
    case False
    then obtain i where i: "first_zero_in_bitmap fs (?B (unat (bg_block_bitmap (bgd_at fs ?B g)))) = Some i"
      using assms(6) [OF g] by blast
    obtain d' where d': "?alloc g d = (Ok (Some (unat (sb_first_data_block (superblock fs)) + i
        + g * unat (sb_blocks_per_group (superblock fs)))), d')" "vol_ok fs bytes d'"
      "vol_block fs bytes d' = mark_block fs g i ?B"
      by (rule ext2_volume.alloc_some [OF assms(1,2) assms(5) [OF g] False i])
    show ?thesis by (intro disjI2 exI conjI) (rule d' i refl)+
  qed
  let ?gs = "[0..<block_count fs div unat (sb_blocks_per_group (superblock fs))]"
  have in_groups: "g \<in> set ?gs \<Longrightarrow> g \<in> groups" "pref \<in> groups" for g using assms(4) by auto
  from each [OF in_groups(2)] show ?thesis
  proof (elim disjE conjE exE)
    assume none: "?alloc pref d = (Ok None, d)" "bg_free_blocks_count (bgd_at fs ?B pref) = 0"
    then have eq: "alloc_block fs pref d = try_groups ?alloc pref ?gs d"
      using assms(3) by (simp add: alloc_block_def)
    have "\<forall>g\<in>set ?gs. ?alloc g d = (Ok None, d) \<or> (\<exists>b d'. ?alloc g d = (Ok (Some b), d'))"
      using each [OF in_groups(1)] by blast
    from try_groups_cases [where alloc = ?alloc and p = pref and gs = ?gs and d = d, OF this] show ?thesis
    proof (elim disjE conjE bexE exE)
      assume "try_groups ?alloc pref ?gs d = (Err NoSpace, d)"
        and all: "\<forall>g\<in>set ?gs. g \<noteq> pref \<longrightarrow> ?alloc g d = (Ok None, d)"
      moreover have "bg_free_blocks_count (bgd_at fs ?B g) = 0" if "g \<in> groups" for g
        using each [OF that] all none(2) that assms(4) by (cases "g = pref") auto
      ultimately show ?thesis using eq by simp
    next
      fix g b d' assume a: "g \<in> set ?gs" "?alloc g d = (Ok (Some b), d')" "try_groups ?alloc pref ?gs d = (Ok b, d')"
      then have "?marks g b d'" using each [OF in_groups(1) [OF a(1)]] by simp
      then show ?thesis using a(3) eq in_groups(1) [OF a(1)] by (intro disjI2) auto
    qed
  next
    fix b d' i assume "?alloc pref d = (Ok (Some b), d')"
      "first_zero_in_bitmap fs (?B (unat (bg_block_bitmap (bgd_at fs ?B pref)))) = Some i"
      "b = unat (sb_first_data_block (superblock fs)) + i + pref * unat (sb_blocks_per_group (superblock fs))"
      "vol_ok fs bytes d'" "vol_block fs bytes d' = mark_block fs pref i ?B"
    then show ?thesis using in_groups(2) by (auto simp: alloc_block_def)
  qed
qed

text \<open>
  C26. Releasing a block just allocated restores the volume: every block of the
  device, the group descriptor and the bitmap included, has the bytes it had
  before the allocation.
\<close>

theorem dealloc_undoes_alloc:
  assumes "ext2_volume fs bytes" "vol_ok fs bytes d"
    and "group_ok fs (vol_block fs bytes d) bg_block_bitmap g"
    and "bg_free_blocks_count (bgd_at fs (vol_block fs bytes d) g) \<noteq> 0"
    and "first_zero_in_bitmap fs (vol_block fs bytes d (unat (bg_block_bitmap (bgd_at fs (vol_block fs bytes d) g)))) = Some i"
    and "i < unat (sb_blocks_per_group (superblock fs))"
  shows "\<exists>b d1 d2. alloc_block_given_group fs g d = (Ok (Some b), d1) \<and> dealloc_block fs b d1 = (Ok (), d2) \<and>
    vol_block fs bytes d2 = vol_block fs bytes d"
proof -
  let ?B = "vol_block fs bytes d"
  let ?bm = "unat (bg_block_bitmap (bgd_at fs ?B g))"
  note vol = ext2_volume.length_vol_block [OF assms(1,2)]
  have g: "bgd_block_of fs g < block_count fs" "?bm < block_count fs" "?bm \<noteq> bgd_block_of fs g"
    using assms(3) by (simp_all add: group_ok_def)
  have room: "bgd_offset_of fs g + 18 \<le> length (?B (bgd_block_of fs g))"
    using ext2_volume.bgd_offset [OF assms(1), of g] vol [OF g(1)] by simp
  have i: "i < 8 * block_size fs" "\<not> bitmap_bit (?B ?bm) i"
    by (rule first_zero_Some [OF ext2_volume.bs_8 [OF assms(1)] vol [OF g(2)] assms(5)])+
  obtain d1 where d1: "alloc_block_given_group fs g d = (Ok (Some (unat (sb_first_data_block (superblock fs)) + i
      + g * unat (sb_blocks_per_group (superblock fs)))), d1)" "vol_ok fs bytes d1"
    "vol_block fs bytes d1 = mark_block fs g i ?B"
    by (rule ext2_volume.alloc_some [OF assms(1-5)])
  have at: "bgd_at fs (mark_block fs g i ?B) g = (bgd_at fs ?B g)\<lparr>bg_free_blocks_count :=
      bg_free_blocks_count (bgd_at fs ?B g) - 1\<rparr>"
    using room g(3) by (simp add: mark_block_def Let_def bgd_at_upd_other bgd_at_put)
  have c1: "bg_free_blocks_count (bgd_at fs ?B g) - 1 \<noteq> 0xffff"
  proof
    assume "bg_free_blocks_count (bgd_at fs ?B g) - 1 = 0xffff"
    then have "bg_free_blocks_count (bgd_at fs ?B g) = 0xffff + 1" by (metis diff_add_cancel)
    then show False using assms(4) by simp
  qed
  have c2: "bitmap_bit (mark_block fs g i ?B ?bm) i"
    using i vol [OF g(2)] by (simp add: mark_block_def Let_def bit_set_bit_in)
  have c3: "group_ok fs (mark_block fs g i ?B) bg_block_bitmap g"
    using g by (simp add: group_ok_def at)
  note dealloc = ext2_volume.dealloc_ok [OF assms(1) d1(2), of g i, unfolded d1(3) at]
  obtain d2 where d2: "dealloc_block fs (unat (sb_first_data_block (superblock fs)) + i
      + g * unat (sb_blocks_per_group (superblock fs))) d1 = (Ok (), d2)"
    "vol_block fs bytes d2 = unmark_block fs g i (mark_block fs g i ?B)"
    by (rule dealloc [OF c3 assms(6) i(1)]) (use c1 c2 in simp_all)
  have "unmark_block fs g i (mark_block fs g i ?B) = ?B"
    using i vol [OF g(2)] by (intro unmark_mark_block [OF room g(3)]) auto
  then show ?thesis using d1(1) d2 by auto
qed

text \<open>
  The last group of a volume whose number of blocks is not a multiple of
  the group size is never searched unless it is the preferred one: when the
  complete groups are full, the allocation reports NoSpace although the last
  group has free blocks.
\<close>

theorem alloc_block_skips_last_group:
  assumes "ext2_volume fs bytes" "vol_ok fs bytes d" "sb_blocks_per_group (superblock fs) \<noteq> 0"
    and "pref < final" "final = block_count fs div unat (sb_blocks_per_group (superblock fs))"
    and "final * unat (sb_blocks_per_group (superblock fs)) < block_count fs"
    and "bg_free_blocks_count (bgd_at fs (vol_block fs bytes d) final) \<noteq> 0"
    and "\<And>g. g < final \<Longrightarrow> bgd_block_of fs g < block_count fs"
    and "\<And>g. g < final \<Longrightarrow> bg_free_blocks_count (bgd_at fs (vol_block fs bytes d) g) = 0"
  shows "alloc_block fs pref d = (Err NoSpace, d)"
proof -
  have none: "alloc_block_given_group fs g d = (Ok None, d)" if "g < final" for g
    by (rule ext2_volume.alloc_none [OF assms(1,2) assms(8,9) [OF that]])
  have "try_groups (alloc_block_given_group fs) pref [0..<final] d = (Err NoSpace, d)"
    using try_groups_cases [of "[0..<final]" "alloc_block_given_group fs" d pref] none by auto
  then show ?thesis using none [OF assms(4)] assms(3,5) by (simp add: alloc_block_def)
qed

subsection \<open>A concrete volume\<close>

text \<open>A volume of 128 blocks of 32 bytes on one page of the in-memory disk: group 0
  has 100 blocks and \<open>n\<close> of them free, group 1 has the other 28. The descriptors
  are in the blocks 1 and 2, the block bitmaps in the blocks 3 and 4.\<close>

definition sample_ext2 :: "byte list Ext2" where
  "sample_ext2 = \<lparr>block_size = 32, ext_device = virtio_blk memory_virtio 8,
     superblock = \<lparr>sb_inodes_count = 4, sb_blocks_count = 128, sb_first_data_block = 0, sb_log_block_size = 0,
       sb_blocks_per_group = 100, sb_inodes_per_group = 4, sb_magic = 0xEF53, sb_rev_level = 1, sb_inode_size = 128\<rparr>,
     vfs_id = None\<rparr>"

definition sample_bgd :: "u32 \<Rightarrow> u16 \<Rightarrow> BlockGroupDescriptor" where
  "sample_bgd bm n = \<lparr>bg_block_bitmap = bm, bg_inode_bitmap = 5, bg_inode_table = 8,
     bg_free_blocks_count = n, bg_free_inodes_count = 0, bg_used_dirs_count = 0\<rparr>"

definition disk_of :: "byte list list \<Rightarrow> byte list" where
  "disk_of blocks = concat blocks @ replicate (4096 - 32 * length blocks) 0"

definition sample_disk :: "u16 \<Rightarrow> byte list list \<Rightarrow> byte list" where
  "sample_disk n tail = disk_of ([replicate 32 0, bgd_bytes (sample_bgd 3 n) @ replicate 14 0,
     bgd_bytes (sample_bgd 4 9) @ replicate 14 0, 0x1f # replicate 31 0] @ tail)"

lemma slice_concat_blocks:
  assumes "\<forall>b\<in>set blocks. length b = k" "n < length blocks"
  shows "take k (drop (n * k) (concat blocks @ rest)) = blocks ! n"
  using assms
proof (induction blocks arbitrary: n)
  case (Cons b blocks)
  then show ?case by (cases n) auto
qed simp

lemma length_concat_blocks: "\<forall>b\<in>set blocks. length b = k \<Longrightarrow> length (concat blocks) = length blocks * k"
  by (induction blocks) auto

lemma length_disk_of:
  assumes "\<forall>b\<in>set blocks. length b = 32" "length blocks \<le> 128"
  shows "length (disk_of blocks) = 4096"
  using length_concat_blocks [OF assms(1)] assms(2) by (simp add: disk_of_def)

lemma vol_block_disk_of:
  assumes "\<forall>b\<in>set blocks. length b = 32" "n < length blocks"
  shows "vol_block sample_ext2 (\<lambda>d. d) (disk_of blocks) n = blocks ! n"
proof -
  have "block_size sample_ext2 = 32" by (simp add: sample_ext2_def)
  then show ?thesis using slice_concat_blocks [OF assms] by (simp only: vol_block_def subslice_def disk_of_def)
qed

lemma vol_ok_disk_of:
  assumes "\<forall>b\<in>set blocks. length b = 32" "length blocks \<le> 128"
  shows "vol_ok sample_ext2 (\<lambda>d. d) (disk_of blocks)"
  using length_disk_of [OF assms]
  by (simp add: vol_ok_def sample_ext2_def virtio_blk_def PAGE_SIZE_def USIZE_MAX_def)

abbreviation small_blocks :: "byte list list \<Rightarrow> bool" where
  "small_blocks tail \<equiv> (\<forall>b\<in>set tail. length b = 32) \<and> length tail \<le> 124"

interpretation sample: ext2_volume sample_ext2 "\<lambda>d. d"
proof -
  have "block_device (ext_device sample_ext2) (\<lambda>d. d)"
    using memory_disk.driver.block_device_axioms [of 8] by (simp add: sample_ext2_def)
  then show "ext2_volume sample_ext2 (\<lambda>d. d)"
    by (intro ext2_volume.intro ext2_volume_axioms.intro) (simp_all add: sample_ext2_def BGD_SIZE_def)
qed

lemma sample_vol_ok: "small_blocks tail \<Longrightarrow> vol_ok sample_ext2 (\<lambda>d. d) (sample_disk n tail)"
  unfolding sample_disk_def by (rule vol_ok_disk_of) auto

lemma sample_block:
  assumes "small_blocks tail"
  shows "vol_block sample_ext2 (\<lambda>d. d) (sample_disk n tail) 1 = bgd_bytes (sample_bgd 3 n) @ replicate 14 0"
    "vol_block sample_ext2 (\<lambda>d. d) (sample_disk n tail) 2 = bgd_bytes (sample_bgd 4 9) @ replicate 14 0"
    "vol_block sample_ext2 (\<lambda>d. d) (sample_disk n tail) 3 = 0x1f # replicate 31 0"
    "k < length tail \<Longrightarrow> vol_block sample_ext2 (\<lambda>d. d) (sample_disk n tail) (4 + k) = tail ! k"
  using assms unfolding sample_disk_def by (subst vol_block_disk_of; auto)+

lemma sample_bgd_at:
  assumes "small_blocks tail"
  shows "bgd_at sample_ext2 (vol_block sample_ext2 (\<lambda>d. d) (sample_disk n tail)) 0 = sample_bgd 3 n"
    "bgd_at sample_ext2 (vol_block sample_ext2 (\<lambda>d. d) (sample_disk n tail)) (Suc 0) = sample_bgd 4 9"
  using sample_block(1,2) [OF assms, of n]
  by (simp_all add: bgd_at_def bgd_block_of_def bgd_offset_of_def BGD_SIZE_def bgd_of_bytes sample_ext2_def
      numeral_2_eq_2)

lemma sample_first_zero: "first_zero_in_bitmap sample_ext2 (0x1f # replicate 31 0) = Some 5"
proof -
  have "scan_bits 0 8 0x1f = Some 5" by code_simp
  then have "scan_bytes 0 (0x1f # replicate 7 0) = Some 5" by simp
  moreover have "take 8 (0x1f # replicate 31 0) = (0x1f :: byte) # replicate 7 0" by (simp add: take_Cons')
  moreover have "le_nat (0x1f # replicate 7 0) = 31" using le_nat_replicate_0 [of 7] by simp
  ultimately have "scan_chunks 0 (Suc 3) (0x1f # replicate 31 0) = Some 5"
    by (simp only: scan_chunks.simps) simp
  moreover have "Suc 3 = 4" by simp
  ultimately show ?thesis by (simp add: first_zero_in_bitmap_def sample_ext2_def del: scan_chunks.simps)
qed

lemma sample_group_ok:
  assumes "small_blocks tail"
  shows "group_ok sample_ext2 (vol_block sample_ext2 (\<lambda>d. d) (sample_disk n tail)) bg_block_bitmap 0"
  unfolding group_ok_def sample_bgd_at [OF assms] by (simp add: sample_bgd_def bgd_block_of_def sample_ext2_def BGD_SIZE_def)

theorem first_zero_in_bitmap_is_least_witness:
  "List.find (\<lambda>p. \<not> bitmap_bit (0x1f # replicate 31 0) p) [0..<8 * block_size sample_ext2] = Some 5"
  using first_zero_in_bitmap_is_least [of sample_ext2 "0x1f # replicate 31 0"] sample_first_zero
  by (simp add: sample_ext2_def)

theorem alloc_block_marks_one_bit_witness:
  "\<exists>d'. alloc_block sample_ext2 0 (sample_disk 9 []) = (Ok 5, d') \<and>
    vol_block sample_ext2 (\<lambda>d. d) d' = mark_block sample_ext2 0 5 (vol_block sample_ext2 (\<lambda>d. d) (sample_disk 9 []))"
proof -
  have g: "{0} = insert 0 {..<block_count sample_ext2 div unat (sb_blocks_per_group (superblock sample_ext2))}"
    by (auto simp: sample_ext2_def)
  show ?thesis
    using alloc_block_marks_one_bit [OF sample.ext2_volume_axioms sample_vol_ok _ g, of "[]" 9]
    by (auto simp: sample_group_ok sample_bgd_at sample_bgd_def sample_block(3) sample_first_zero)
      (auto simp: sample_ext2_def)
qed

theorem dealloc_undoes_alloc_witness:
  "\<exists>b d1 d2. alloc_block_given_group sample_ext2 0 (sample_disk 9 []) = (Ok (Some b), d1) \<and>
    dealloc_block sample_ext2 b d1 = (Ok (), d2) \<and>
    vol_block sample_ext2 (\<lambda>d. d) d2 = vol_block sample_ext2 (\<lambda>d. d) (sample_disk 9 [])"
  by (rule dealloc_undoes_alloc [OF sample.ext2_volume_axioms sample_vol_ok sample_group_ok, where i = 5])
    (simp_all add: sample_bgd_at sample_bgd_def sample_block(3) sample_first_zero, simp add: sample_ext2_def)

theorem alloc_block_skips_last_group_witness:
  "alloc_block sample_ext2 0 (sample_disk 0 []) = (Err NoSpace, sample_disk 0 [])"
  by (rule alloc_block_skips_last_group [OF sample.ext2_volume_axioms sample_vol_ok, where final = 1])
    (simp_all add: sample_bgd_at sample_bgd_def, simp_all add: sample_ext2_def bgd_block_of_def BGD_SIZE_def)

end
