(* ===== verification/Ext2_File.thy ===== *)
theory Ext2_File
  imports Ext2_Disk Open_File
begin

section \<open>ext2: files and directories\<close>

text \<open>
  Model of the second part of \<^verbatim>\<open>src/src/fs/ext2.rs\<close>: the block tree of a file, reading
  and writing of file blocks, directory entries and the node methods of the VFS.

  The state of a node method is the device beside the inode that the node keeps
  in memory under its lock. A name is the list of its UTF-8 bytes. The search of
  a directory is a partial function, since the code does not bound its loop.
\<close>

subsection \<open>State of a node\<close>

type_synonym ('d, 'a) node_io = "('d \<times> INode, 'a) io"

definition on_disk :: "('d, 'a) io \<Rightarrow> ('d, 'a) node_io" where
  "on_disk m = (\<lambda>(d, inode). case m d of (r, d') \<Rightarrow> (r, (d', inode)))"

definition on_disk_read :: "('d \<Rightarrow> (FsError, 'a) outcome) \<Rightarrow> ('d, 'a) node_io" where
  "on_disk_read r = (\<lambda>(d, inode). (r d, (d, inode)))"

definition the_inode :: "('d, INode) node_io" where
  "the_inode = (\<lambda>(d, inode). (Ok inode, (d, inode)))"

definition set_inode :: "INode \<Rightarrow> ('d, unit) node_io" where
  "set_inode new = (\<lambda>(d, inode). (Ok (), (d, new)))"

text \<open>\<^verbatim>\<open>let _ = ...\<close> drops an error; a panic is not an error.\<close>

definition io_ignore :: "('d, 'a) io \<Rightarrow> ('d, unit) io" where
  "io_ignore m = (\<lambda>d. case m d of (Panic, d') \<Rightarrow> (Panic, d') | (_, d') \<Rightarrow> (Ok (), d'))"

definition io_catch :: "('d, 'a) io \<Rightarrow> (FsError \<Rightarrow> ('d, 'a) io) \<Rightarrow> ('d, 'a) io" where
  "io_catch m h = (\<lambda>d. case m d of (Err e, d') \<Rightarrow> h e d' | r \<Rightarrow> r)"

lemma node_io_simps [simp]:
  "on_disk m (d, i) = (case m d of (r, d') \<Rightarrow> (r, (d', i)))" "on_disk_read r (d, i) = (r d, (d, i))"
  "the_inode (d, i) = (Ok i, (d, i))" "set_inode j (d, i) = (Ok (), (d, j))"
  by (simp_all add: on_disk_def on_disk_read_def the_inode_def set_inode_def)

subsection \<open>The block tree\<close>

definition block_tree_indices :: "'d Ext2 \<Rightarrow> nat \<Rightarrow> nat list \<times> nat" where
  "block_tree_indices fs block_number =
    (if block_number < 12 then ([block_number, 0, 0, 0], 1)
     else let bpb = block_size fs div 4; n1 = block_number - 12
          in if n1 < bpb then ([12, n1, 0, 0], 2)
             else let n2 = n1 - bpb
                  in if n2 < bpb * bpb then ([13, n2 div bpb, n2 mod bpb, 0], 3)
                     else let n3 = n2 - bpb * bpb
                          in ([14, n3 div (bpb * bpb), n3 div bpb mod bpb, n3 mod (bpb * bpb)], 4))"

fun tree_loop :: "'d Ext2 \<Rightarrow> nat list \<Rightarrow> nat \<Rightarrow> nat \<Rightarrow> nat list \<Rightarrow> 'd \<Rightarrow> (FsError, nat list) outcome" where
  "tree_loop fs indices i 0 tree d = Ok tree"
| "tree_loop fs indices i (Suc n) tree d =
    (if tree ! (i - 1) = 0 then Ok tree
     else obind (ext_read_block fs (tree ! (i - 1)) d) (\<lambda>scratch.
          let start = indices ! i * 4
          in if length scratch < start + 4 then Panic
             else tree_loop fs indices (i + 1) n (tree[i := unat (u32_at start scratch)]) d))"

definition block_tree :: "'d Ext2 \<Rightarrow> nat \<Rightarrow> INode \<Rightarrow> 'd \<Rightarrow> (FsError, nat list \<times> nat list \<times> nat) outcome" where
  "block_tree fs block_number inode d =
    (case block_tree_indices fs block_number of (indices, depth) \<Rightarrow>
       omap (\<lambda>tree. (tree, indices, depth))
         (tree_loop fs indices 1 (depth - 1) [unat (i_block (idata inode) ! (indices ! 0)), 0, 0, 0] d))"

definition fnode_read_block :: "'d Ext2 \<Rightarrow> nat \<Rightarrow> INode \<Rightarrow> 'd \<Rightarrow> (FsError, byte list) outcome" where
  "fnode_read_block fs block_number inode d =
    obind (block_tree fs block_number inode d) (\<lambda>(tree, _, sz).
    if tree ! (sz - 1) = 0 then Ok (replicate (block_size fs) 0)
    else ext_read_block fs (tree ! (sz - 1)) d)"

definition update_inode :: "'d Ext2 \<Rightarrow> INode \<Rightarrow> ('d, unit) node_io" where
  "update_inode fs new =
    io_bind the_inode (\<lambda>old.
    io_bind (on_disk_read (get_ext2_inode fs (of_nat (number old)))) (\<lambda>(_, inode_block, inode_offset, scratch).
    io_bind (io_lift (\<lambda>_. put_at inode_offset (inode_bytes (idata new)) scratch)) (\<lambda>scratch1.
    io_bind (on_disk (ext_write_block fs inode_block scratch1)) (\<lambda>_.
    set_inode new))))"

definition attach_root :: "'d Ext2 \<Rightarrow> nat list \<Rightarrow> nat option \<Rightarrow> nat \<Rightarrow> ('d, unit) node_io" where
  "attach_root fs indices new_size b =
    io_bind the_inode (\<lambda>inode.
    let sz = (case new_size of Some s \<Rightarrow> of_nat s | None \<Rightarrow> i_size (idata inode));
        new_array = (i_block (idata inode))[indices ! 0 := of_nat b]
    in update_inode fs \<lparr>number = number inode, idata = (idata inode)\<lparr>i_size := sz, i_block := new_array\<rparr>, dirty = True\<rparr>)"

definition attach_child :: "'d Ext2 \<Rightarrow> nat list \<Rightarrow> nat \<Rightarrow> nat \<Rightarrow> nat \<Rightarrow> ('d, unit) node_io" where
  "attach_child fs indices i parent b =
    io_bind (io_lift (\<lambda>_. put_at (indices ! i * 4) (u32_bytes (of_nat b)) (replicate (block_size fs) 0))) (\<lambda>scratch.
    on_disk (ext_write_block fs parent scratch))"

fun grow_tree ::
  "'d Ext2 \<Rightarrow> nat list \<Rightarrow> nat option \<Rightarrow> nat \<Rightarrow> nat \<Rightarrow> nat \<Rightarrow> nat list \<Rightarrow> ('d, nat list) node_io" where
  "grow_tree fs indices new_size pref i 0 tree = io_ret tree"
| "grow_tree fs indices new_size pref i (Suc n) tree =
    (if \<not> (tree ! i = 0 \<or> (i = 0 \<and> new_size \<noteq> None))
     then grow_tree fs indices new_size pref (i + 1) n tree
     else io_bind (on_disk (alloc_block fs pref)) (\<lambda>b.
          io_bind (if i = 0 then attach_root fs indices new_size b
                   else attach_child fs indices i (tree ! (i - 1)) b) (\<lambda>_.
          grow_tree fs indices new_size pref (i + 1) n (tree[i := b]))))"

definition fnode_write_block ::
  "'d Ext2 \<Rightarrow> nat \<Rightarrow> byte list \<Rightarrow> nat option \<Rightarrow> nat \<Rightarrow> ('d, unit) node_io" where
  "fnode_write_block fs block_number buffer new_size pref =
    io_bind the_inode (\<lambda>inode.
    io_bind (on_disk_read (block_tree fs block_number inode)) (\<lambda>(tree, indices, sz).
    io_bind (grow_tree fs indices new_size pref 0 sz tree) (\<lambda>tree1.
    on_disk (ext_write_block fs (tree1 ! (sz - 1)) buffer))))"

subsection \<open>Directory entries\<close>

definition in_bytes :: "nat \<Rightarrow> nat \<Rightarrow> byte \<Rightarrow> bool" where
  "in_bytes lo hi b \<longleftrightarrow> lo \<le> unat b \<and> unat b \<le> hi"

text \<open>The byte sequences that \<^verbatim>\<open>core::str::from_utf8\<close> accepts.\<close>

fun valid_utf8 :: "byte list \<Rightarrow> bool" where
  "valid_utf8 [] = True"
| "valid_utf8 (a # xs) =
    (if in_bytes 0 0x7f a then valid_utf8 xs
     else case xs of
       [] \<Rightarrow> False
     | b # ys \<Rightarrow>
         if in_bytes 0xc2 0xdf a then in_bytes 0x80 0xbf b \<and> valid_utf8 ys
         else case ys of
           [] \<Rightarrow> False
         | c # zs \<Rightarrow>
             if in_bytes 0xe0 0xef a
             then in_bytes (if a = 0xe0 then 0xa0 else 0x80) (if a = 0xed then 0x9f else 0xbf) b \<and>
                  in_bytes 0x80 0xbf c \<and> valid_utf8 zs
             else case zs of
               [] \<Rightarrow> False
             | e # ws \<Rightarrow>
                 in_bytes 0xf0 0xf4 a \<and>
                 in_bytes (if a = 0xf0 then 0x90 else 0x80) (if a = 0xf4 then 0x8f else 0xbf) b \<and>
                 in_bytes 0x80 0xbf c \<and> in_bytes 0x80 0xbf e \<and> valid_utf8 ws)"

declare valid_utf8.simps [simp del]

text \<open>One entry at an offset of a block: its inode number, record length and name,
  the name being read only when the entry is in use.\<close>

definition dirent_at :: "nat \<Rightarrow> byte list \<Rightarrow> (FsError, u32 \<times> u16 \<times> byte list) outcome" where
  "dirent_at off buf =
    (if length buf < off + 7 then Panic
     else let inum = u32_at off buf; rec_len = u16_at (off + 4) buf; name_len = unat (buf ! (off + 6))
          in if inum = 0 then Ok (inum, rec_len, [])
             else if length buf < off + 8 + name_len then Panic
             else let name = subslice (off + 8) name_len buf
                  in if valid_utf8 name then Ok (inum, rec_len, name) else Panic)"

definition fetch_block ::
  "'d Ext2 \<Rightarrow> INode \<Rightarrow> nat \<Rightarrow> nat \<Rightarrow> byte list \<Rightarrow> 'd \<Rightarrow> (FsError, byte list) outcome" where
  "fetch_block fs inode pointer last_fetched buffer d =
    (if pointer mod 4 \<noteq> 0 then Panic
     else if pointer div block_size fs \<noteq> last_fetched then fnode_read_block fs (pointer div block_size fs) inode d
     else Ok buffer)"

definition is_directory :: "INode \<Rightarrow> bool" where
  "is_directory inode \<longleftrightarrow> i_mode (idata inode) AND 0xF000 = 0x4000"

partial_function (option) search_loop ::
  "'d Ext2 \<Rightarrow> INode \<Rightarrow> byte list \<Rightarrow> nat \<Rightarrow> nat \<Rightarrow> byte list \<Rightarrow> 'd \<Rightarrow> (FsError, u32) outcome option" where
  "search_loop fs inode file_name pointer last_fetched buffer d =
    (if \<not> pointer < unat (i_size (idata inode)) then Some (Err NotFound)
     else case fetch_block fs inode pointer last_fetched buffer d of
       Err e \<Rightarrow> Some (Err e)
     | Panic \<Rightarrow> Some Panic
     | Ok buf \<Rightarrow>
         (case dirent_at (pointer mod block_size fs) buf of
            Err e \<Rightarrow> Some (Err e)
          | Panic \<Rightarrow> Some Panic
          | Ok (inum, rec_len, name) \<Rightarrow>
              if inum \<noteq> 0 \<and> name = file_name then Some (Ok inum)
              else search_loop fs inode file_name (pointer + unat rec_len) (pointer div block_size fs) buf d))"

definition search :: "'d Ext2 \<Rightarrow> byte list \<Rightarrow> INode \<Rightarrow> 'd \<Rightarrow> (FsError, INode) outcome option" where
  "search fs file_name inode d =
    (if \<not> is_directory inode then Some (Err InvalidInput)
     else case search_loop fs inode file_name 0 1 (replicate (block_size fs) 0) d of
       None \<Rightarrow> None
     | Some r \<Rightarrow> Some (obind r (\<lambda>inum. get_fnode fs inum d)))"

definition entry_space :: "byte list \<Rightarrow> nat" where
  "entry_space name = div_ceil (8 + length name) 4 * 4"

function placement_loop ::
  "'d Ext2 \<Rightarrow> INode \<Rightarrow> byte list \<Rightarrow> nat \<Rightarrow> nat \<Rightarrow> byte list \<Rightarrow> (nat \<times> nat \<times> u16) option \<Rightarrow> 'd \<Rightarrow>
    (FsError, (nat \<times> nat \<times> u16) option) outcome" where
  "placement_loop fs inode entry_name pointer last_fetched buffer placement d =
    (if \<not> pointer < unat (i_size (idata inode)) then Ok placement
     else case fetch_block fs inode pointer last_fetched buffer d of
       Err e \<Rightarrow> Err e
     | Panic \<Rightarrow> Panic
     | Ok buf \<Rightarrow>
         (case dirent_at (pointer mod block_size fs) buf of
            Err e \<Rightarrow> Err e
          | Panic \<Rightarrow> Panic
          | Ok (inum, rec_len, name) \<Rightarrow>
              if rec_len = 0 then Panic
              else if inum \<noteq> 0 \<and> name = entry_name then Err AlreadyExists
              else placement_loop fs inode entry_name (pointer + unat rec_len) (pointer div block_size fs) buf
                (if inum \<noteq> 0 \<and> placement = None \<and> entry_space entry_name + entry_space name \<le> unat rec_len
                 then Some (pointer, entry_space name, rec_len) else placement) d))"
  by pat_completeness auto
termination
proof (relation "measure (\<lambda>(fs, inode, nm, pointer, l, b, p, d). unat (i_size (idata inode)) - pointer)", goal_cases)
  case (2 fs inode entry_name pointer last_fetched buffer placement d buf z inum y rec_len name)
  then have "0 < unat rec_len" by (simp add: word_neq_0_conv unat_gt_0)
  then show ?case using 2 by simp
qed simp

declare placement_loop.simps [simp del]

text \<open>The new block: the header and name of the entry, and the shortened record
  length of the entry it is split from.\<close>

definition write_entry ::
  "nat \<Rightarrow> u32 \<Rightarrow> u16 \<Rightarrow> byte \<Rightarrow> byte list \<Rightarrow> byte list \<Rightarrow> (FsError, byte list) outcome" where
  "write_entry off inum rec_len file_type name buf =
    obind (put_at off (u32_bytes inum) buf) (\<lambda>b1.
    obind (put_at (off + 4) (u16_bytes rec_len) b1) (\<lambda>b2.
    obind (put_at (off + 6) [of_nat (length name)] b2) (\<lambda>b3.
    obind (put_at (off + 7) [file_type] b3) (\<lambda>b4.
    put_at (off + 8) name b4))))"

definition place_entry ::
  "nat \<Rightarrow> nat \<Rightarrow> nat \<Rightarrow> u16 \<Rightarrow> bool \<Rightarrow> u32 \<Rightarrow> byte \<Rightarrow> byte list \<Rightarrow> byte list \<Rightarrow> (FsError, byte list) outcome" where
  "place_entry bs placement wanted actual new_block inum file_type name buf =
    obind (write_entry ((placement + wanted) mod bs) inum (actual - of_nat wanted) file_type name buf) (\<lambda>buf1.
    if new_block then Ok buf1
    else if wanted = 0 then Panic
    else put_at (placement mod bs + 4) (u16_bytes (of_nat wanted)) buf1)"

definition create_entry :: "'d Ext2 \<Rightarrow> byte list \<Rightarrow> u32 \<Rightarrow> byte \<Rightarrow> ('d, unit) node_io" where
  "create_entry fs entry_name inum file_type =
    (if inum = 0 then io_lift (\<lambda>_. Err InvalidInput)
     else io_bind the_inode (\<lambda>inode.
       if \<not> is_directory inode then io_lift (\<lambda>_. Err InvalidInput)
       else let bs = block_size fs; sz = unat (i_size (idata inode)) in
         io_bind (on_disk_read (placement_loop fs inode entry_name 0 1 (replicate bs 0) None)) (\<lambda>found.
         let new_block = (found = None);
             (placement, wanted, actual) = (case found of Some p \<Rightarrow> p | None \<Rightarrow> (sz, 0, of_nat bs));
             bn = (placement + wanted) div bs
         in io_bind (if new_block then io_ret (replicate bs 0) else on_disk_read (fnode_read_block fs bn inode)) (\<lambda>buffer.
            if bn \<noteq> placement div bs then io_lift (\<lambda>_. Panic)
            else io_bind (io_lift (\<lambda>_. place_entry bs placement wanted actual new_block inum file_type entry_name buffer)) (\<lambda>buf1.
              if number inode = 0 \<or> sb_inodes_per_group (superblock fs) = 0 then io_lift (\<lambda>_. Panic)
              else fnode_write_block fs bn buf1 (if new_block then Some (sz + bs) else None)
                     ((number inode - 1) div unat (sb_inodes_per_group (superblock fs))))))))"

subsection \<open>Node methods\<close>

definition fnode_get_type :: "INode \<Rightarrow> INodeType" where
  "fnode_get_type inode =
    (if i_mode (idata inode) AND 0xF000 = 0x4000 then INodeDirectory
     else if i_mode (idata inode) AND 0xF000 = 0x8000 then INodeFile
     else INodeOther)"

definition new_inode :: "nat \<Rightarrow> INodeType \<Rightarrow> INode" where
  "new_inode n inode_type =
    \<lparr>number = n,
     idata = \<lparr>i_mode = (if inode_type = INodeDirectory then 0x4000 else 0x8000), i_uid = 0, i_size = 0, i_atime = 0,
       i_ctime = 0, i_mtime = 0, i_dtime = 0, i_gid = 0,
       i_links_count = (if inode_type = INodeDirectory then 2 else 1), i_blocks = 0, i_flags = 0, i_osd1 = 0,
       i_block = replicate 15 0, i_generation = 0, i_file_acl = 0, i_dir_acl = 0, i_faddr = 0,
       i_osd2 = replicate 12 0\<rparr>,
     dirty = False\<rparr>"

definition undo_inode :: "'d Ext2 \<Rightarrow> nat \<Rightarrow> FsError \<Rightarrow> ('d, 'a) node_io" where
  "undo_inode fs inum e = io_bind (on_disk (io_ignore (dealloc_inode fs inum))) (\<lambda>_. io_lift (\<lambda>_. Err e))"

text \<open>An operation of the node of the new inode: the device is shared, the inode
  of the parent is not touched.\<close>

definition on_child :: "('d, unit) node_io \<Rightarrow> INode \<Rightarrow> ('d, INode) node_io" where
  "on_child m child = (\<lambda>(d, inode). case m (d, child) of
     (Ok _, (d', child')) \<Rightarrow> (Ok child', (d', inode))
   | (Err e, (d', _)) \<Rightarrow> (Err e, (d', inode))
   | (Panic, (d', _)) \<Rightarrow> (Panic, (d', inode)))"

definition fnode_create_child :: "'d Ext2 \<Rightarrow> byte list \<Rightarrow> INodeType \<Rightarrow> ('d, INode) node_io" where
  "fnode_create_child fs name inode_type =
    io_bind the_inode (\<lambda>self.
    if fnode_get_type self \<noteq> INodeDirectory then io_lift (\<lambda>_. Err InvalidInput)
    else if inode_type \<notin> {INodeDirectory, INodeFile} then io_lift (\<lambda>_. Err InvalidInput)
    else if number self = 0 \<or> sb_inodes_per_group (superblock fs) = 0 then io_lift (\<lambda>_. Panic)
    else let file_type = (if inode_type = INodeDirectory then 2 else 1) in
      io_bind (on_disk (ext_alloc_inode fs ((number self - 1) div unat (sb_inodes_per_group (superblock fs))))) (\<lambda>n.
      let inum = (of_nat n :: u32); inode = new_inode (unat inum) inode_type in
      io_bind (io_catch (on_disk (write_inode_data fs inode)) (undo_inode fs (unat inum))) (\<lambda>_.
      io_bind (io_catch (create_entry fs name inum file_type) (undo_inode fs (unat inum))) (\<lambda>_.
      if fnode_get_type inode \<noteq> INodeDirectory then io_ret inode
      else io_bind (io_catch (on_child (create_entry fs [0x2e] inum file_type) inode) (undo_inode fs (unat inum))) (\<lambda>inode1.
           io_bind the_inode (\<lambda>self1.
           io_catch (on_child (create_entry fs [0x2e, 0x2e] (of_nat (number self1)) file_type) inode1) (undo_inode fs (unat inum))))))))"

function read_page_loop ::
  "'d Ext2 \<Rightarrow> INode \<Rightarrow> nat \<Rightarrow> nat \<Rightarrow> byte list \<Rightarrow> nat \<Rightarrow> 'd \<Rightarrow> (FsError, byte list \<times> nat) outcome" where
  "read_page_loop fs inode offset total_to_read page so_far d =
    (if \<not> so_far < total_to_read then Ok (page, so_far)
     else if block_size fs = 0 then Panic
     else let file_pos = offset + so_far;
              block_offset = file_pos mod block_size fs;
              chunk_len = min (total_to_read - so_far) (block_size fs - block_offset)
          in case fnode_read_block fs (file_pos div block_size fs) inode d of
               Err e \<Rightarrow> Err e
             | Panic \<Rightarrow> Panic
             | Ok block \<Rightarrow>
                 read_page_loop fs inode offset total_to_read
                   (blit so_far (if block_offset = 0 \<and> chunk_len = block_size fs then block
                                 else subslice block_offset chunk_len block) page)
                   (so_far + chunk_len) d)"
  by pat_completeness auto
termination
proof (relation "measure (\<lambda>(fs, inode, offset, total_to_read, page, so_far, d). total_to_read - so_far)", goal_cases)
  case (2 fs inode offset total_to_read page so_far d file_pos block_offset chunk_len block)
  then have "0 < chunk_len" by simp
  then show ?case using 2(1) by simp
qed simp

declare read_page_loop.simps [simp del]

definition fnode_read_page :: "'d Ext2 \<Rightarrow> nat \<Rightarrow> INode \<Rightarrow> 'd \<Rightarrow> (FsError, byte list \<times> nat) outcome" where
  "fnode_read_page fs offset inode d =
    (let file_size = unat (i_size (idata inode)); page = replicate PAGE_SIZE 0
     in if file_size \<le> offset then Ok (page, 0)
        else read_page_loop fs inode offset (min PAGE_SIZE (file_size - offset)) page 0 d)"

function read_loop ::
  "'d Ext2 \<Rightarrow> INode \<Rightarrow> nat \<Rightarrow> byte list \<Rightarrow> nat \<Rightarrow> 'd \<Rightarrow> (FsError, byte list \<times> nat) outcome" where
  "read_loop fs inode offset buffer total_read d =
    (let file_size = unat (i_size (idata inode)) in
     if \<not> (total_read < length buffer \<and> offset + total_read < file_size) then Ok (buffer, total_read)
     else if block_size fs = 0 then Panic
     else let file_pos = offset + total_read;
              block_offset = file_pos mod block_size fs;
              to_copy = min (min (length buffer - total_read) (block_size fs - block_offset)) (file_size - file_pos)
          in case fnode_read_block fs (file_pos div block_size fs) inode d of
               Err e \<Rightarrow> Err e
             | Panic \<Rightarrow> Panic
             | Ok scratch \<Rightarrow>
                 read_loop fs inode offset (blit total_read (subslice block_offset to_copy scratch) buffer)
                   (total_read + to_copy) d)"
  by pat_completeness auto
termination
proof (relation "measure (\<lambda>(fs, inode, offset, buffer, total_read, d). unat (i_size (idata inode)) - (offset + total_read))",
    goal_cases)
  case (2 fs inode offset buffer total_read d file_size file_pos block_offset to_copy scratch)
  then have "0 < to_copy" "offset + total_read < unat (i_size (idata inode))" by simp_all
  then show ?case by simp
qed simp

declare read_loop.simps [simp del]

definition fnode_read_unaligned ::
  "'d Ext2 \<Rightarrow> nat \<Rightarrow> byte list \<Rightarrow> INode \<Rightarrow> 'd \<Rightarrow> (FsError, byte list \<times> nat) outcome" where
  "fnode_read_unaligned fs offset buffer inode d =
    (if unat (i_size (idata inode)) \<le> offset then Ok (buffer, 0)
     else read_loop fs inode offset buffer 0 d)"

function write_page_loop ::
  "'d Ext2 \<Rightarrow> byte list \<Rightarrow> nat \<Rightarrow> nat \<Rightarrow> nat \<Rightarrow> 'd \<times> INode \<Rightarrow> (FsError, nat) outcome \<times> ('d \<times> INode)" where
  "write_page_loop fs page offset pref written st =
    (if \<not> written < PAGE_SIZE then (Ok written, st)
     else if block_size fs = 0 \<or> USIZE_MAX < offset + written then (Panic, st)
     else let file_pos = offset + written;
              block_number = file_pos div block_size fs;
              block_offset = file_pos mod block_size fs;
              chunk_len = min (PAGE_SIZE - written) (block_size fs - block_offset)
          in case (if block_offset = 0 \<and> chunk_len = block_size fs
                   then fnode_write_block fs block_number (subslice written chunk_len page) None pref st
                   else io_bind the_inode (\<lambda>inode.
                        io_bind (on_disk_read (fnode_read_block fs block_number inode)) (\<lambda>scratch.
                        fnode_write_block fs block_number
                          (blit block_offset (subslice written chunk_len page) scratch) None pref)) st) of
               (Ok _, st') \<Rightarrow> write_page_loop fs page offset pref (written + chunk_len) st'
             | (Err e, st') \<Rightarrow> (Err e, st')
             | (Panic, st') \<Rightarrow> (Panic, st'))"
  by pat_completeness auto
termination
proof (relation "measure (\<lambda>(fs, page, offset, pref, written, st). PAGE_SIZE - written)", goal_cases)
  case (2 fs page offset pref written st file_pos block_number block_offset chunk_len)
  then have "0 < chunk_len" by simp
  then show ?case using 2(1) by simp
qed simp

declare write_page_loop.simps [simp del]

definition extend_size :: "'d Ext2 \<Rightarrow> nat \<Rightarrow> ('d, unit) node_io" where
  "extend_size fs end_pos =
    io_bind the_inode (\<lambda>inode.
    let new_size = max (unat (i_size (idata inode))) end_pos
    in if new_size = unat (i_size (idata inode)) then io_ret ()
       else update_inode fs \<lparr>number = number inode, idata = (idata inode)\<lparr>i_size := of_nat new_size\<rparr>, dirty = True\<rparr>)"

definition fnode_write_page :: "'d Ext2 \<Rightarrow> byte list \<Rightarrow> nat \<Rightarrow> ('d, nat) node_io" where
  "fnode_write_page fs page offset =
    io_bind the_inode (\<lambda>inode.
    if number inode = 0 \<or> sb_inodes_per_group (superblock fs) = 0 then io_lift (\<lambda>_. Panic)
    else io_bind (write_page_loop fs page offset
             ((number inode - 1) div unat (sb_inodes_per_group (superblock fs))) 0) (\<lambda>written.
         io_bind (io_lift (\<lambda>_. uadd offset PAGE_SIZE)) (\<lambda>end_pos.
         io_bind (extend_size fs end_pos) (\<lambda>_.
         io_ret written))))"

definition fnode_size :: "INode \<Rightarrow> nat" where
  "fnode_size inode = unat (i_size (idata inode))"

definition fnode_lookup :: "'d Ext2 \<Rightarrow> byte list \<Rightarrow> INode \<Rightarrow> 'd \<Rightarrow> (FsError, INode) outcome option" where
  "fnode_lookup fs target inode d =
    (if fnode_get_type inode \<noteq> INodeDirectory then Some (Err InvalidOperation) else search fs target inode d)"

definition fnode_add_entry :: "'d Ext2 \<Rightarrow> byte list \<Rightarrow> nat \<Rightarrow> INodeType \<Rightarrow> ('d, unit) node_io" where
  "fnode_add_entry fs target inum inode_type =
    io_bind the_inode (\<lambda>inode.
    if fnode_get_type inode \<noteq> INodeDirectory then io_lift (\<lambda>_. Err InvalidOperation)
    else case inode_type of
           INodeDirectory \<Rightarrow> create_entry fs target (of_nat inum) 2
         | INodeFile \<Rightarrow> create_entry fs target (of_nat inum) 1
         | INodeOther \<Rightarrow> create_entry fs target (of_nat inum) 0
         | _ \<Rightarrow> io_lift (\<lambda>_. Err InvalidInput))"

function write_loop ::
  "'d Ext2 \<Rightarrow> byte list \<Rightarrow> nat \<Rightarrow> nat \<Rightarrow> 'd \<times> INode \<Rightarrow> (FsError, nat) outcome \<times> ('d \<times> INode)" where
  "write_loop fs buffer offset written st =
    (if \<not> written < length buffer then (Ok written, st)
     else if block_size fs = 0 \<or> USIZE_MAX < offset + written then (Panic, st)
     else let file_pos = offset + written;
              block_number = file_pos div block_size fs;
              block_offset = file_pos mod block_size fs;
              to_copy = min (length buffer - written) (block_size fs - block_offset)
          in case io_bind the_inode (\<lambda>inode.
                  io_bind (on_disk_read (fnode_read_block fs block_number inode)) (\<lambda>scratch.
                  fnode_write_block fs block_number
                    (blit block_offset (subslice written to_copy buffer) scratch) None 0)) st of
               (Ok _, st') \<Rightarrow> write_loop fs buffer offset (written + to_copy) st'
             | (Err e, st') \<Rightarrow> (Err e, st')
             | (Panic, st') \<Rightarrow> (Panic, st'))"
  by pat_completeness auto
termination
proof (relation "measure (\<lambda>(fs, buffer, offset, written, st). length buffer - written)", goal_cases)
  case (2 fs buffer offset written st file_pos block_number block_offset to_copy)
  then have "0 < to_copy" by simp
  then show ?case using 2(1) by simp
qed simp

declare write_loop.simps [simp del]

definition fnode_write_unaligned :: "'d Ext2 \<Rightarrow> nat \<Rightarrow> byte list \<Rightarrow> ('d, nat) node_io" where
  "fnode_write_unaligned fs offset buffer =
    io_bind (write_loop fs buffer offset 0) (\<lambda>written.
    io_bind (io_lift (\<lambda>_. uadd offset (length buffer))) (\<lambda>end_pos.
    io_bind (extend_size fs end_pos) (\<lambda>_.
    io_ret written)))"

definition fnode_get_inode_key :: "'d Ext2 \<Rightarrow> INode \<Rightarrow> (FsError, INodeKey) outcome" where
  "fnode_get_inode_key fs inode =
    obind (ok_or NotFound (vfs_id fs)) (\<lambda>i. Ok \<lparr>filesystem_id = i, inumber = number inode\<rparr>)"

subsection \<open>Lemmas on the block tree\<close>

text \<open>The block of a file that a path of indices leads to, level by level.\<close>

definition path_block :: "nat \<Rightarrow> nat list \<Rightarrow> nat \<Rightarrow> nat" where
  "path_block bpb path depth =
    (if depth = 1 then path ! 0
     else if depth = 2 then 12 + path ! 1
     else if depth = 3 then 12 + bpb + path ! 1 * bpb + path ! 2
     else 12 + bpb + bpb * bpb + (path ! 1 * bpb + path ! 2) * bpb + path ! 3)"

lemma tree_loop_split:
  assumes "tree_loop fs path i m tree d = Ok t" "t ! (i + m - 1) \<noteq> 0" "i + m - 1 < length tree" "0 < i"
    and "\<forall>j\<in>{i..<length tree}. tree ! j = 0"
  shows "tree_loop fs path i (m + n) tree d = tree_loop fs path (i + m) n t d"
  using assms
proof (induction m arbitrary: i tree)
  case (Suc m)
  from Suc.prems have "tree ! (i - 1) \<noteq> 0" by (auto split: if_splits)
  with Suc.prems(1) obtain s where s: "ext_read_block fs (tree ! (i - 1)) d = Ok s" "path ! i * 4 + 4 \<le> length s"
    "tree_loop fs path (i + 1) m (tree[i := unat (u32_at (path ! i * 4) s)]) d = Ok t"
    by (auto simp: outcome_simps Let_def not_less split: if_splits)
  from Suc.prems s have "tree_loop fs path (i + 1) (m + n) (tree[i := unat (u32_at (path ! i * 4) s)]) d
      = tree_loop fs path (i + 1 + m) n t d"
    by (intro Suc.IH) auto
  then show ?case using s \<open>tree ! (i - 1) \<noteq> 0\<close> by simp
qed simp

lemma block_tree_indirect:
  assumes "12 \<le> n" "n - 12 < block_size fs div 4" "i_block (idata inode) ! 12 = ib" "ib \<noteq> 0"
    and "ext_read_block fs (unat ib) d = Ok s" "length s = block_size fs"
  shows "block_tree fs n inode d = Ok ([unat ib, unat (u32_at (4 * (n - 12)) s), 0, 0], [12, n - 12, 0, 0], 2)"
proof -
  have "(n - 12) * 4 + 4 \<le> block_size fs" using assms(2) by linarith
  moreover have "unat ib \<noteq> 0" using assms(4) by (simp add: unat_gt_0)
  ultimately show ?thesis
    using assms by (simp add: block_tree_def block_tree_indices_def Let_def mult.commute numeral_2_eq_2)
qed

subsection \<open>Lemmas on reading\<close>

definition file_blocks :: "'d Ext2 \<Rightarrow> INode \<Rightarrow> 'd \<Rightarrow> (nat \<Rightarrow> byte list) \<Rightarrow> bool" where
  "file_blocks fs inode d blk \<longleftrightarrow> 0 < block_size fs \<and>
    (\<forall>n. n * block_size fs < unat (i_size (idata inode)) \<longrightarrow>
       fnode_read_block fs n inode d = Ok (blk n) \<and> length (blk n) = block_size fs)"

definition file_bytes :: "nat \<Rightarrow> nat \<Rightarrow> (nat \<Rightarrow> byte list) \<Rightarrow> byte list" where
  "file_bytes bs sz blk = map (\<lambda>p. blk (p div bs) ! (p mod bs)) [0..<sz]"

lemma length_file_bytes [simp]: "length (file_bytes bs sz blk) = sz"
  by (simp add: file_bytes_def)

lemma file_blocks_read:
  assumes "file_blocks fs inode d blk" "p < unat (i_size (idata inode))"
  shows "fnode_read_block fs (p div block_size fs) inode d = Ok (blk (p div block_size fs))"
    "length (blk (p div block_size fs)) = block_size fs"
  using assms le_less_trans [OF div_times_less_eq_dividend, of p _ "block_size fs"]
  by (auto simp: file_blocks_def)

lemma slice_file_bytes:
  assumes "0 < bs" "k \<le> bs - p mod bs" "p + k \<le> sz" "length (blk (p div bs)) = bs"
  shows "subslice (p mod bs) k (blk (p div bs)) = subslice p k (file_bytes bs sz blk)"
proof (rule nth_equalityI)
  show "length (subslice (p mod bs) k (blk (p div bs))) = length (subslice p k (file_bytes bs sz blk))"
    using assms by simp
next
  fix j assume "j < length (subslice (p mod bs) k (blk (p div bs)))"
  then have j: "j < k" "p mod bs + j < bs" using assms by auto
  have split: "p + j = p div bs * bs + (p mod bs + j)" by simp
  have "(x * bs + y) div bs = x" "(x * bs + y) mod bs = y" if "y < bs" for x y :: nat
    using that by auto
  note aux = this [OF j(2), of "p div bs"]
  have dm: "(p + j) div bs = p div bs" "(p + j) mod bs = p mod bs + j"
    by (simp_all only: split aux)
  have "p + j < sz" using j(1) assms(3) by simp
  then have "subslice p k (file_bytes bs sz blk) ! j = blk (p div bs) ! (p mod bs + j)"
    using j(1) dm by (simp add: nth_slice file_bytes_def)
  then show "subslice (p mod bs) k (blk (p div bs)) ! j = subslice p k (file_bytes bs sz blk) ! j"
    using j assms(4) by (simp add: nth_slice)
qed

lemma blit_blit: "t + length a \<le> length buf \<Longrightarrow> blit (t + length a) b (blit t a buf) = blit t (a @ b) buf"
  by (simp add: blit_def add_ac)

lemma read_loop_bytes:
  assumes "file_blocks fs inode d blk" "t \<le> length buf"
  shows "read_loop fs inode off buf t d =
    Ok (blit t (subslice (off + t) (length buf - t) (file_bytes (block_size fs) (unat (i_size (idata inode))) blk)) buf,
        t + length (subslice (off + t) (length buf - t) (file_bytes (block_size fs) (unat (i_size (idata inode))) blk)))"
  using assms(1,2)
proof (induction fs inode off buf t d rule: read_loop.induct)
  case (1 fs inode off buf t d)
  let ?C = "file_bytes (block_size fs) (unat (i_size (idata inode))) blk"
  let ?p = "off + t" and ?sz = "unat (i_size (idata inode))" and ?bs = "block_size fs"
  define k where "k = min (min (length buf - t) (?bs - ?p mod ?bs)) (?sz - ?p)"
  have k: "k \<le> length buf - t" "k \<le> ?bs - ?p mod ?bs" "k \<le> ?sz - ?p" by (simp_all add: k_def)
  show ?case
  proof (cases "t < length buf \<and> ?p < ?sz")
    case False
    then show ?thesis using 1(3) by (subst read_loop.simps) (auto simp: subslice_def)
  next
    case True
    have bs: "0 < ?bs" using 1(2) by (simp add: file_blocks_def)
    note rd = file_blocks_read [OF 1(2), of ?p]
    have sl: "subslice (?p mod ?bs) k (blk (?p div ?bs)) = subslice ?p k ?C"
      using True bs rd(2) k by (intro slice_file_bytes) auto
    have len: "length (subslice ?p k ?C) = k" using k(3) by simp
    let ?buf = "blit t (subslice ?p k ?C) buf"
    have fits: "t + k \<le> length buf" using True k(1) by linarith
    have lb: "length ?buf = length buf" using fits len by (simp only: length_blit)
    have IH: "read_loop fs inode off ?buf (t + k) d = Ok (blit (t + k) (subslice (off + (t + k)) (length ?buf - (t + k)) ?C) ?buf,
        t + k + length (subslice (off + (t + k)) (length ?buf - (t + k)) ?C))"
      using 1(1) [OF refl _ _ refl refl refl rd(1)] True bs 1(2) fits lb by (simp add: sl k_def [symmetric])
    have step: "read_loop fs inode off buf t d = read_loop fs inode off ?buf (t + k) d"
      using True bs rd(1) by (subst read_loop.simps) (simp add: Let_def sl k_def [symmetric])
    have cat: "subslice ?p k ?C @ subslice (?p + k) (length buf - (t + k)) ?C = subslice ?p (length buf - t) ?C"
      using fits by (subst slice_append_slice) (simp add: algebra_simps)
    have "blit (t + k) (subslice (?p + k) (length buf - (t + k)) ?C) ?buf
        = blit t (subslice ?p (length buf - t) ?C) buf"
      using blit_blit [of t "subslice ?p k ?C" buf "subslice (?p + k) (length buf - (t + k)) ?C"] fits len cat by simp
    moreover have "k + length (subslice (?p + k) (length buf - (t + k)) ?C) = length (subslice ?p (length buf - t) ?C)"
      using arg_cong [OF cat, of length] len by simp
    ultimately show ?thesis unfolding step IH lb by (simp add: add.assoc)
  qed
qed

lemma read_page_loop_eq:
  assumes "file_blocks fs inode d blk" "n = min (length page) (unat (i_size (idata inode)) - off)"
  shows "read_page_loop fs inode off n page t d = read_loop fs inode off page t d"
  using assms
proof (induction fs inode off n page t d rule: read_page_loop.induct)
  case (1 fs inode off n page t d)
  let ?p = "off + t" and ?sz = "unat (i_size (idata inode))" and ?bs = "block_size fs"
  define k where "k = min (n - t) (?bs - ?p mod ?bs)"
  show ?case
  proof (cases "t < n")
    case False
    then have "\<not> (t < length page \<and> ?p < ?sz)" using 1(3) by linarith
    then show ?thesis using False by (subst read_page_loop.simps, subst read_loop.simps) (simp add: Let_def)
  next
    case True
    then have c: "t < length page" "?p < ?sz" using 1(3) by auto
    have bs: "0 < ?bs" using 1(2) by (simp add: file_blocks_def)
    note rd = file_blocks_read [OF 1(2) c(2)]
    have k: "min (min (length page - t) (?bs - ?p mod ?bs)) (?sz - ?p) = k"
      using c 1(3) unfolding k_def by linarith
    have whole: "(if ?p mod ?bs = 0 \<and> k = ?bs then blk (?p div ?bs) else subslice (?p mod ?bs) k (blk (?p div ?bs)))
        = subslice (?p mod ?bs) k (blk (?p div ?bs))"
      using rd(2) by (simp add: subslice_def)
    let ?page = "blit t (subslice (?p mod ?bs) k (blk (?p div ?bs))) page"
    have "length (subslice (?p mod ?bs) k (blk (?p div ?bs))) = k" using rd(2) by (simp add: k_def)
    moreover have "t + k \<le> length page" using c 1(3) unfolding k_def by linarith
    ultimately have lp: "length ?page = length page" by simp
    have "\<not> \<not> t < n" "block_size fs \<noteq> 0" using True bs by simp_all
    note IH = 1(1) [OF this refl refl refl rd(1), folded k_def, unfolded whole]
    have "read_page_loop fs inode off n ?page (t + k) d = read_loop fs inode off ?page (t + k) d"
      by (rule IH [OF 1(2)]) (unfold lp, rule 1(3))
    moreover have "read_page_loop fs inode off n page t d = read_page_loop fs inode off n ?page (t + k) d"
      using True bs rd by (subst read_page_loop.simps) (simp add: Let_def k_def [symmetric] subslice_def)
    moreover have "read_loop fs inode off page t d = read_loop fs inode off ?page (t + k) d"
      using c bs rd(1) by (subst read_loop.simps) (simp add: Let_def k)
    ultimately show ?thesis by simp
  qed
qed

lemma subslice_beyond: "length xs \<le> off \<Longrightarrow> subslice off n xs = []"
  by (simp add: subslice_def)

text \<open>
  C27. Reading a file: when the blocks of the file can be read, an unaligned read
  copies into the buffer exactly the bytes of the file from the offset on, up to
  the end of the buffer or of the file, leaves the rest of the buffer and returns
  their number; reading a page does the same into a zeroed page. Both loops end.
\<close>

theorem fnode_read_exact:
  assumes "file_blocks fs inode d blk"
  shows "\<exists>C. length C = unat (i_size (idata inode)) \<and>
    (\<forall>p<length C. C ! p = blk (p div block_size fs) ! (p mod block_size fs)) \<and>
    (\<forall>off buf. fnode_read_unaligned fs off buf inode d
       = Ok (blit 0 (subslice off (length buf) C) buf, length (subslice off (length buf) C))) \<and>
    (\<forall>off. fnode_read_page fs off inode d
       = Ok (blit 0 (subslice off PAGE_SIZE C) (replicate PAGE_SIZE 0), length (subslice off PAGE_SIZE C)))"
proof (intro exI conjI allI impI)
  let ?C = "file_bytes (block_size fs) (unat (i_size (idata inode))) blk"
  show "length ?C = unat (i_size (idata inode))" by simp
  show "?C ! p = blk (p div block_size fs) ! (p mod block_size fs)" if "p < length ?C" for p
    using that by (simp add: file_bytes_def)
  show "fnode_read_unaligned fs off buf inode d
      = Ok (blit 0 (subslice off (length buf) ?C) buf, length (subslice off (length buf) ?C))" for off buf
    using read_loop_bytes [OF assms, of 0 buf off] by (auto simp: fnode_read_unaligned_def subslice_beyond)
  show "fnode_read_page fs off inode d
      = Ok (blit 0 (subslice off PAGE_SIZE ?C) (replicate PAGE_SIZE 0), length (subslice off PAGE_SIZE ?C))" for off
    using read_loop_bytes [OF assms, of 0 "replicate PAGE_SIZE 0" off]
      read_page_loop_eq [OF assms refl, of off "replicate PAGE_SIZE 0" 0]
    by (auto simp: fnode_read_page_def Let_def subslice_beyond)
qed

subsection \<open>Properties of the block tree\<close>

text \<open>
  C28. The path of indices to a block of a file that needs at most two levels of
  indirection is right: it stays within the tables, and the block it leads to is
  the block asked for, so no two blocks share a path.
\<close>

theorem block_tree_indices_correct:
  assumes "bpb = block_size fs div 4" "n < 12 + bpb + bpb * bpb" "block_tree_indices fs n = (path, depth)"
  shows "depth \<in> {1, 2, 3} \<and> path ! 0 < 15 \<and> (\<forall>j\<in>{1..<depth}. path ! j < bpb) \<and> path_block bpb path depth = n"
proof -
  consider (direct) "n < 12" | (one) "12 \<le> n" "n - 12 < bpb" | (two) "12 \<le> n" "bpb \<le> n - 12" by linarith
  then show ?thesis
  proof cases
    case direct
    then show ?thesis using assms(3) by (auto simp: block_tree_indices_def path_block_def)
  next
    case one
    then show ?thesis using assms(1,3) by (auto simp: block_tree_indices_def path_block_def Let_def less_Suc_eq numeral_2_eq_2)
  next
    case two
    define m where "m = n - 12 - bpb"
    have m: "m < bpb * bpb" "n = 12 + bpb + m" using two assms(2) by (auto simp: m_def)
    then have "0 < bpb" by (cases bpb) auto
    then have "m div bpb < bpb" "m mod bpb < bpb" using m(1) by (auto simp: less_mult_imp_div_less)
    moreover have "block_tree_indices fs n = ([13, m div bpb, m mod bpb, 0], 3)"
      unfolding block_tree_indices_def Let_def assms(1) [symmetric] using two m(1) by (simp add: m(2))
    then have "path = [13, m div bpb, m mod bpb, 0]" "depth = 3" using assms(3) by simp_all
    moreover have "{1..<3} = {1, 2 :: nat}" by auto
    ultimately show ?thesis using m(2) by (simp add: path_block_def)
  qed
qed

text \<open>
  C29. With three levels of indirection the last index is taken modulo the square
  of the table size instead of the table size. From the second table of the last
  level on the index lies outside the table, and reading such a block panics when
  the tables that lead to it exist.
\<close>

theorem triple_indirect_read_panics:
  assumes "bpb = block_size fs div 4" "n = 12 + bpb + bpb * bpb + m" "bpb \<le> m mod (bpb * bpb)"
    and "tree_loop fs (fst (block_tree_indices fs n)) 1 2 [unat (i_block (idata inode) ! 14), 0, 0, 0] d = Ok [p, q, r, 0]"
    and "r \<noteq> 0" "ext_read_block fs r d = Ok s" "length s = block_size fs"
  shows "fnode_read_block fs n inode d = Panic"
proof -
  have idx: "block_tree_indices fs n = ([14, m div (bpb * bpb), m div bpb mod bpb, m mod (bpb * bpb)], 4)"
    using assms(1,2) by (simp add: block_tree_indices_def Let_def)
  have out: "length s < m mod (bpb * bpb) * 4 + 4"
    using assms(1,3,7) by linarith
  have "tree_loop fs [14, m div (bpb * bpb), m div bpb mod bpb, m mod (bpb * bpb)] 1 (2 + 1)
      [unat (i_block (idata inode) ! 14), 0, 0, 0] d = Panic"
    using assms(4-6) out
    by (subst tree_loop_split [where t = "[p, q, r, 0]"]) (auto simp: idx less_Suc_eq numeral_eq_Suc Let_def)
  then show ?thesis by (simp add: fnode_read_block_def block_tree_def idx)
qed

lemma u32_at_zeros: "u32_at off (replicate n 0) = 0"
  by (simp add: u32_at_def subslice_def le_nat_replicate_0 take_replicate drop_replicate)

lemma u32_at_blit_other:
  "s + length ys \<le> length xs \<Longrightarrow> a + 4 \<le> s \<or> s + length ys \<le> a \<Longrightarrow> u32_at a (blit s ys xs) = u32_at a xs"
  by (simp add: u32_at_def slice_blit_other)

lemma attach_child_ok:
  assumes "ext2_volume fs bytes" "vol_ok fs bytes d" "parent < block_count fs" "path ! i * 4 + 4 \<le> block_size fs"
  obtains d' where "attach_child fs path i parent b (d, inode) = (Ok (), (d', inode))" "vol_ok fs bytes d'"
    "vol_block fs bytes d' = (vol_block fs bytes d)
       (parent := blit (path ! i * 4) (u32_bytes (of_nat b)) (replicate (block_size fs) 0))"
proof -
  let ?s = "blit (path ! i * 4) (u32_bytes (of_nat b)) (replicate (block_size fs) 0)"
  have "length ?s = block_size fs" using assms(4) by simp
  from ext2_volume.ext_write_block_ok [OF assms(1-3) this]
  obtain d' where d': "ext_write_block fs parent ?s d = (Ok (), d')" "vol_ok fs bytes d'"
    "vol_block fs bytes d' = (vol_block fs bytes d)(parent := ?s)" by blast
  then show ?thesis using assms(4) by (intro that) (simp_all add: attach_child_def put_at_def)
qed

text \<open>
  C30. Writing a block of a file whose slot in an existing indirect block is
  empty replaces the whole indirect block: the pointer of every other block in it
  is lost, and those blocks of the file read as zeros afterwards.
\<close>

theorem write_block_drops_siblings:
  assumes vol: "ext2_volume fs bytes" "vol_ok fs bytes d" and ib: "i_block (idata inode) ! 12 = ib" "ib \<noteq> 0" "unat ib < block_count fs"
    and slots: "k < block_size fs div 4" "j < block_size fs div 4" "j \<noteq> k"
    and ptrs: "u32_at (4 * k) (vol_block fs bytes d (unat ib)) = 0" "u32_at (4 * j) (vol_block fs bytes d (unat ib)) \<noteq> 0"
    and alloc: "alloc_block fs pref d = (Ok b, d1)" "vol_ok fs bytes d1" "0 < b" "b < block_count fs" "b \<noteq> unat ib"
    and buf: "length buf = block_size fs"
  shows "\<exists>d2. fnode_write_block fs (12 + k) buf None pref (d, inode) = (Ok (), d2, inode) \<and>
    fnode_read_block fs (12 + k) inode d2 = Ok buf \<and>
    fnode_read_block fs (12 + j) inode d2 = Ok (replicate (block_size fs) 0)"
proof -
  let ?B = "vol_block fs bytes" and ?n = "block_size fs" and ?ib = "unat ib"
  let ?t = "blit (k * 4) (u32_bytes (of_nat b)) (replicate ?n 0)"
  note V = ext2_volume.ext_read_block_ok [OF vol(1)] and L = ext2_volume.length_vol_block [OF vol(1)]
  have nz: "?ib \<noteq> 0" using ib(2) by (simp add: unat_gt_0)
  have fits: "k * 4 + 4 \<le> ?n" "j * 4 + 4 \<le> ?n" using slots(1,2) by linarith+
  have tree: "block_tree fs (12 + k) inode d = Ok ([?ib, 0, 0, 0], [12, k, 0, 0], 2)"
    using block_tree_indirect [OF _ _ ib(1,2) V [OF vol(2) ib(3)] L [OF vol(2) ib(3)], of "12 + k"] slots(1) ptrs(1) by simp
  obtain d' where d': "attach_child fs [12, k, 0, 0] 1 ?ib b (d1, inode) = (Ok (), (d', inode))" "vol_ok fs bytes d'"
    "?B d' = (?B d1)(?ib := ?t)"
    using attach_child_ok [OF vol(1) alloc(2) ib(3), of "[12, k, 0, 0]" 1 b inode] fits(1) by auto
  obtain d2 where d2: "ext_write_block fs b buf d' = (Ok (), d2)" "vol_ok fs bytes d2" "?B d2 = (?B d')(b := buf)"
    by (rule ext2_volume.ext_write_block_ok [OF vol(1) d'(2) alloc(4) buf])
  have "grow_tree fs [12, k, 0, 0] None pref 0 2 [?ib, 0, 0, 0] (d, inode) = (Ok [?ib, b, 0, 0], (d', inode))"
    using nz alloc(1) d'(1) by (simp add: numeral_2_eq_2)
  then have wr: "fnode_write_block fs (12 + k) buf None pref (d, inode) = (Ok (), d2, inode)"
    using tree d2(1) by (simp add: fnode_write_block_def)
  have at: "?B d2 ?ib = ?t" "?B d2 b = buf" using d2(3) d'(3) alloc(5) by simp_all
  have lt: "length ?t = ?n" using fits(1) by simp
  note T = block_tree_indirect [OF _ _ ib(1,2) V [OF d2(2) ib(3), unfolded at(1)] lt]
  have ptr_k: "u32_at (4 * k) ?t = of_nat b"
    using slice_blit_same [of "k * 4" "u32_bytes (of_nat b)" "replicate ?n 0"] fits(1)
    by (intro u32_at_bytes) (simp add: mult.commute)
  have ptr_j: "u32_at (4 * j) ?t = 0"
    using fits slots(3) by (subst u32_at_blit_other) (auto simp: u32_at_zeros)
  have "unat (of_nat b :: u32) = b"
    using alloc(4) unsigned_less [of "sb_blocks_count (superblock fs)", where ?'a = nat]
    by (simp add: unsigned_of_nat take_bit_nat_eq_self)
  then have "fnode_read_block fs (12 + k) inode d2 = Ok buf"
    using T [of "12 + k"] slots(1) ptr_k V [OF d2(2) alloc(4)] alloc(3) at(2) by (simp add: fnode_read_block_def)
  moreover have "fnode_read_block fs (12 + j) inode d2 = Ok (replicate ?n 0)"
    using T [of "12 + j"] slots(2) ptr_j by (simp add: fnode_read_block_def)
  ultimately show ?thesis using wr by blast
qed

subsection \<open>Properties of directories\<close>

text \<open>The entries of a directory: \<open>es\<close> are the records that start at a position, one
  behind the other up to the end of the directory, none of them empty.\<close>

fun dir_layout :: "nat \<Rightarrow> nat \<Rightarrow> (nat \<Rightarrow> byte list) \<Rightarrow> nat \<Rightarrow> (u32 \<times> u16 \<times> byte list) list \<Rightarrow> bool" where
  "dir_layout bs sz blk p [] \<longleftrightarrow> sz \<le> p"
| "dir_layout bs sz blk p ((inum, rec_len, name) # es) \<longleftrightarrow>
    p < sz \<and> p mod 4 = 0 \<and> dirent_at (p mod bs) (blk (p div bs)) = Ok (inum, rec_len, name) \<and> rec_len \<noteq> 0 \<and>
    dir_layout bs sz blk (p + unat rec_len) es"

definition is_entry :: "byte list \<Rightarrow> u32 \<times> u16 \<times> byte list \<Rightarrow> bool" where
  "is_entry name = (\<lambda>(inum, _, nm). inum \<noteq> 0 \<and> nm = name)"

lemma fetch_block_ok:
  assumes "file_blocks fs inode d blk" "p < unat (i_size (idata inode))" "p mod 4 = 0"
    and "l = p div block_size fs \<Longrightarrow> buf = blk l"
  shows "fetch_block fs inode p l buf d = Ok (blk (p div block_size fs))"
  using assms file_blocks_read(1) [OF assms(1,2)] by (auto simp: fetch_block_def)

lemma search_loop_finds:
  assumes "file_blocks fs inode d blk" "dir_layout (block_size fs) (unat (i_size (idata inode))) blk p es"
    and "l = p div block_size fs \<Longrightarrow> buf = blk l"
  shows "search_loop fs inode name p l buf d =
    Some (case List.find (is_entry name) es of Some (inum, _, _) \<Rightarrow> Ok inum | None \<Rightarrow> Err NotFound)"
  using assms(2-)
proof (induction es arbitrary: p l buf)
  case Nil
  then show ?case by (subst search_loop.simps) simp
next
  case (Cons e es)
  obtain inum rec_len nm where e: "e = (inum, rec_len, nm)" by (cases e)
  have p: "p < unat (i_size (idata inode))" "p mod 4 = 0" using Cons.prems(1) e by simp_all
  have step: "search_loop fs inode name p l buf d =
      (if inum \<noteq> 0 \<and> nm = name then Some (Ok inum)
       else search_loop fs inode name (p + unat rec_len) (p div block_size fs) (blk (p div block_size fs)) d)"
    using fetch_block_ok [OF assms(1) p Cons.prems(2)] Cons.prems(1) e p
    by (subst search_loop.simps) simp
  show ?case unfolding step e
    using Cons.prems(1) e Cons.IH [of "p + unat rec_len" "p div block_size fs" "blk (p div block_size fs)"]
    by (simp add: is_entry_def)
qed

text \<open>
  C31. Searching a well-formed directory ends and is right: the result is the
  inode of the first entry in use with the name asked for, and NotFound when there
  is none.
\<close>

theorem search_finds_entry:
  assumes "is_directory inode" "file_blocks fs inode d blk"
    and "dir_layout (block_size fs) (unat (i_size (idata inode))) blk 0 es"
  shows "search fs name inode d = Some (case List.find (is_entry name) es of
    Some (inum, _, _) \<Rightarrow> get_fnode fs inum d | None \<Rightarrow> Err NotFound)"
  using assms(1) search_loop_finds [OF assms(2,3), of 1 "replicate (block_size fs) 0" name]
  by (simp add: search_def split: option.split)

lemma search_loop_stuck:
  assumes "search_loop fs inode name p l buf d = Some r" "p = 0" "l = 0 \<longrightarrow> buf = b0"
    and "0 < unat (i_size (idata inode))" "fnode_read_block fs 0 inode d = Ok b0"
    and "dirent_at 0 b0 = Ok (inum, 0, nm)" "\<not> (inum \<noteq> 0 \<and> nm = name)"
  shows False
  using assms
proof (induction fs inode name p l buf d r rule: search_loop.raw_induct [rotated 1, consumes 1, case_names step])
  case (step loop fs inode name p l buf d r)
  have "fetch_block fs inode p l buf d = Ok b0" using step by (auto simp: fetch_block_def)
  then have "loop fs inode name 0 0 b0 d = Some r" using step by (auto split: if_splits)
  then show ?case by (rule step.IH [OF _ refl]) (use step.prems in simp_all)
qed

text \<open>
  A directory entry with a record length of 0 makes the search run forever:
  the position does not advance, and unlike the code that adds an entry the search
  has no check of the length.
\<close>

theorem search_loops_on_empty_record:
  assumes "is_directory inode" "0 < unat (i_size (idata inode))" "fnode_read_block fs 0 inode d = Ok b0"
    and "dirent_at 0 b0 = Ok (inum, 0, nm)" "\<not> (inum \<noteq> 0 \<and> nm = name)"
  shows "search fs name inode d = None"
proof -
  have "search_loop fs inode name 0 1 (replicate (block_size fs) 0) d = None"
    using search_loop_stuck [OF _ refl _ assms(2-5)] by fastforce
  then show ?thesis using assms(1) by (simp add: search_def)
qed

lemma dirent_at_iff:
  assumes "inum \<noteq> 0"
  shows "dirent_at off X = Ok (inum, rec_len, name) \<longleftrightarrow> off + 8 + length name \<le> length X \<and>
    subslice off 4 X = u32_bytes inum \<and> subslice (off + 4) 2 X = u16_bytes rec_len \<and>
    X ! (off + 6) = of_nat (length name) \<and> length name < 256 \<and>
    subslice (off + 8) (length name) X = name \<and> valid_utf8 name"
    (is "?l \<longleftrightarrow> ?r")
proof
  assume l: ?l
  define k where "k = unat (X ! (off + 6))"
  have k: "k < 256" "of_nat k = X ! (off + 6)" unfolding k_def by (simp_all add: unat_byte)
  from l assms have f: "\<not> length X < off + 7" "inum = u32_at off X" "rec_len = u16_at (off + 4) X"
    "\<not> length X < off + 8 + k" "name = subslice (off + 8) k X" "valid_utf8 name"
    by (auto simp: dirent_at_def Let_def k_def split: if_splits)
  then have "length name = k" by simp
  then show ?r using f k u_bytes_at [of off X] u_bytes_at [of "off + 4" X] by auto
next
  assume r: ?r
  then have "unat (X ! (off + 6)) = length name" by (simp add: unsigned_of_nat take_bit_nat_eq_self)
  then show ?l using r assms by (simp add: dirent_at_def Let_def u32_at_bytes u16_at_bytes)
qed

lemma write_entry_eq:
  assumes "off + 8 + length name \<le> length buf"
  shows "write_entry off inum rec_len file_type name buf =
    Ok (blit off (u32_bytes inum @ u16_bytes rec_len @ [of_nat (length name), file_type] @ name) buf)"
proof -
  let ?a = "u32_bytes inum" and ?b = "u16_bytes rec_len"
  have "blit (off + 4) ?b (blit off ?a buf) = blit off (?a @ ?b) buf"
    using assms blit_blit [of off ?a buf ?b] by simp
  moreover have "blit (off + 6) [c] (blit off (?a @ ?b) buf) = blit off ((?a @ ?b) @ [c]) buf" for c
    using assms blit_blit [of off "?a @ ?b" buf "[c]"] by simp
  moreover have "blit (off + 7) [t] (blit off ((?a @ ?b) @ [c]) buf) = blit off (((?a @ ?b) @ [c]) @ [t]) buf" for c t
    using assms blit_blit [of off "(?a @ ?b) @ [c]" buf "[t]"] by simp
  moreover have "blit (off + 8) name (blit off (((?a @ ?b) @ [c]) @ [t]) buf)
      = blit off ((((?a @ ?b) @ [c]) @ [t]) @ name) buf" for c t
    using assms blit_blit [of off "((?a @ ?b) @ [c]) @ [t]" buf name] by simp
  ultimately show ?thesis using assms by (simp add: write_entry_def put_at_def)
qed

lemma slice_blit_inner:
  assumes "s + length ys \<le> length xs" "a + n \<le> length ys"
  shows "subslice (s + a) n (blit s ys xs) = subslice a n ys"
  using assms by (simp add: subslice_def blit_def)

lemma blit_two:
  fixes a b :: nat
  assumes "a + length u \<le> b" "b + length E \<le> length buf"
  shows "length (blit a u (blit b E buf)) = length buf"
    and "x + n \<le> a \<or> a + length u \<le> x \<Longrightarrow> x + n \<le> b \<Longrightarrow>
      subslice x n (blit a u (blit b E buf)) = subslice x n buf"
    and "x + n \<le> length E \<Longrightarrow> subslice (b + x) n (blit a u (blit b E buf)) = subslice x n E"
    and "subslice a (length u) (blit a u (blit b E buf)) = u"
    and "p < length buf \<Longrightarrow> blit a u (blit b E buf) ! p =
      (if a \<le> p \<and> p < a + length u then u ! (p - a)
       else if b \<le> p \<and> p < b + length E then E ! (p - b) else buf ! p)"
proof -
  have lX: "length (blit b E buf) = length buf" using assms(2) by simp
  have room: "a + length u \<le> length (blit b E buf)" unfolding lX using assms by linarith
  show "length (blit a u (blit b E buf)) = length buf" using room lX by simp
  show "subslice a (length u) (blit a u (blit b E buf)) = u" by (rule slice_blit_same [OF room])
  show "subslice x n (blit a u (blit b E buf)) = subslice x n buf"
    if "x + n \<le> a \<or> a + length u \<le> x" "x + n \<le> b"
    using that slice_blit_other [OF room, of x n] slice_blit_other [OF assms(2), of x n] by simp
  show "subslice (b + x) n (blit a u (blit b E buf)) = subslice x n E" if "x + n \<le> length E"
    using assms(1) slice_blit_other [OF room, of "b + x" n] slice_blit_inner [OF assms(2) that] by simp
  show "blit a u (blit b E buf) ! p = (if a \<le> p \<and> p < a + length u then u ! (p - a)
      else if b \<le> p \<and> p < b + length E then E ! (p - b) else buf ! p)" if "p < length buf"
    using that nth_blit [OF room, of p] nth_blit [OF assms(2), of p] lX by simp
qed

lemma entry_space_ge: "8 + length name \<le> entry_space name"
  unfolding entry_space_def by (rule div_ceil_ge) simp

text \<open>
  C32. Adding an entry behind an entry that has room for it splits the record:
  in the new block the old entry keeps its inode and name and has the length it
  needs, the new entry follows at once with the rest of the record and is read
  back as written, and every byte outside the old record is unchanged.
\<close>

theorem place_entry_splits_record:
  assumes "length buf = bs" "placement mod bs = off" "dirent_at off buf = Ok (i, r, nm)" "i \<noteq> 0"
    and "entry_space nm + entry_space name \<le> unat r" "off + unat r \<le> bs"
    and "valid_utf8 name" "length name < 256" "inum \<noteq> 0"
  shows "\<exists>buf'. place_entry bs placement (entry_space nm) r False inum file_type name buf = Ok buf' \<and>
    length buf' = bs \<and> dirent_at off buf' = Ok (i, of_nat (entry_space nm), nm) \<and>
    dirent_at (off + entry_space nm) buf' = Ok (inum, r - of_nat (entry_space nm), name) \<and>
    buf' ! (off + entry_space nm + 7) = file_type \<and>
    (\<forall>p<bs. p < off \<or> off + unat r \<le> p \<longrightarrow> buf' ! p = buf ! p)"
proof -
  let ?w = "entry_space nm"
  let ?o = "off + ?w" and ?u = "u16_bytes (of_nat ?w)"
  define E where "E = u32_bytes inum @ u16_bytes (r - of_nat ?w) @ [of_nat (length name), file_type] @ name"
  let ?Z = "blit (off + 4) ?u (blit ?o E buf)"
  have lE: "length E = 8 + length name" by (simp add: E_def)
  have sp: "8 + length nm \<le> ?w" "8 + length name \<le> entry_space name" by (rule entry_space_ge)+
  have fits: "?o + 8 + length name \<le> length buf" "?o + length E \<le> length buf" "off + 4 + length ?u \<le> ?o" "?o < bs"
    using sp assms(1,5,6) lE by simp_all
  note Z = blit_two [OF fits(3,2)]
  have lZ: "length ?Z = bs" using Z(1) assms(1) by simp
  have "(placement + ?w) mod bs = ?o" using fits(4) assms(2) mod_add_left_eq [of placement bs ?w] by simp
  then have res: "place_entry bs placement ?w r False inum file_type name buf = Ok ?Z"
    using assms(1,2) sp(1) fits write_entry_eq [OF fits(1), of inum "r - of_nat ?w" file_type]
    by (simp add: place_entry_def put_at_def E_def)
  note old = assms(3) [unfolded dirent_at_iff [OF assms(4)]]
  have z: "subslice off 4 ?Z = u32_bytes i" "subslice (off + 8) (length nm) ?Z = nm" "subslice (off + 4) 2 ?Z = ?u"
    "?Z ! (off + 6) = of_nat (length nm)" "off + 8 + length nm \<le> length ?Z"
    using old sp(1) fits(4) Z(2) [of off 4] Z(2) [of "off + 8" "length nm"] Z(4) Z(5) [of "off + 6"] lZ assms(1) by simp_all
  then have first: "dirent_at off ?Z = Ok (i, of_nat ?w, nm)"
    unfolding dirent_at_iff [OF assms(4)] using old by blast
  have y: "subslice ?o 4 ?Z = u32_bytes inum" "subslice (?o + 4) 2 ?Z = u16_bytes (r - of_nat ?w)"
    "subslice (?o + 8) (length name) ?Z = name"
    using Z(3) [of 0 4] Z(3) [of 4 2] Z(3) [of 8 "length name"] lE by (simp_all add: E_def subslice_def)
  have y': "?Z ! (?o + 6) = of_nat (length name)" "?Z ! (?o + 7) = file_type" "?o + 8 + length name \<le> length ?Z"
    using Z(5) [of "?o + 6"] Z(5) [of "?o + 7"] lE lZ fits(1,3) assms(1) by (simp_all add: E_def nth_append)
  with y have second: "dirent_at ?o ?Z = Ok (inum, r - of_nat ?w, name)"
    unfolding dirent_at_iff [OF assms(9)] using assms(7,8) by blast
  have "?Z ! p = buf ! p" if "p < bs" "p < off \<or> off + unat r \<le> p" for p
  proof -
    have "\<not> (off + 4 \<le> p \<and> p < off + 4 + length ?u)" "\<not> (?o \<le> p \<and> p < ?o + length E)"
      using that(2) sp assms(5) lE fits(3) by linarith+
    then show ?thesis using Z(5) [of p] that(1) assms(1) by (simp only: if_False)
  qed
  then show ?thesis using res lZ first second y'(2) by blast
qed

subsection \<open>Properties of inodes\<close>

definition inode_group :: "'d Ext2 \<Rightarrow> u32 \<Rightarrow> nat" where
  "inode_group fs inum = unat ((inum - 1) div sb_inodes_per_group (superblock fs))"

definition inode_slot :: "'d Ext2 \<Rightarrow> (nat \<Rightarrow> byte list) \<Rightarrow> u32 \<Rightarrow> nat \<times> nat" where
  "inode_slot fs B inum =
    (let isz = unat (sb_inode_size (superblock fs)); ipb = block_size fs div isz;
         idx = unat ((inum - 1) mod sb_inodes_per_group (superblock fs))
     in (unat (bg_inode_table (bgd_at fs B (inode_group fs inum))) + idx div ipb, idx mod ipb * isz))"

definition inode_place_ok :: "'d Ext2 \<Rightarrow> (nat \<Rightarrow> byte list) \<Rightarrow> u32 \<Rightarrow> bool" where
  "inode_place_ok fs B inum \<longleftrightarrow> inum \<noteq> 0 \<and> sb_inodes_per_group (superblock fs) \<noteq> 0 \<and>
     128 \<le> unat (sb_inode_size (superblock fs)) \<and> unat (sb_inode_size (superblock fs)) \<le> block_size fs \<and>
     bgd_block_of fs (inode_group fs inum) < block_count fs \<and> fst (inode_slot fs B inum) < block_count fs"

lemma inode_slot_fits:
  assumes "inode_place_ok fs B inum"
  shows "snd (inode_slot fs B inum) + 128 \<le> block_size fs"
proof -
  let ?isz = "unat (sb_inode_size (superblock fs))"
  let ?ipb = "block_size fs div ?isz"
  have isz: "0 < ?isz" "128 \<le> ?isz" "?isz \<le> block_size fs" using assms by (auto simp: inode_place_ok_def)
  then have "0 < ?ipb" by (simp add: div_greater_zero_iff)
  define k where "k = unat ((inum - 1) mod sb_inodes_per_group (superblock fs)) mod ?ipb"
  have "Suc k \<le> ?ipb" using \<open>0 < ?ipb\<close> by (simp add: k_def Suc_leI)
  then have "Suc k * ?isz \<le> ?ipb * ?isz" by (rule mult_right_mono) simp
  then have "Suc k * ?isz \<le> block_size fs" using div_times_less_eq_dividend le_trans by blast
  then have "k * ?isz + 128 \<le> block_size fs" using isz(2) by simp
  then show ?thesis by (simp add: inode_slot_def Let_def k_def)
qed

context ext2_volume
begin

lemma get_inode_ok:
  assumes "vol_ok fs bytes d" "inode_place_ok fs (vol_block fs bytes d) inum"
    and "inode_slot fs (vol_block fs bytes d) inum = (ib, io)"
  shows "get_ext2_inode fs inum d = Ok (\<lparr>number = unat inum, idata = inode_of (drop io (vol_block fs bytes d ib)),
    dirty = False\<rparr>, ib, io, vol_block fs bytes d ib)"
proof -
  have p: "inum \<noteq> 0" "sb_inodes_per_group (superblock fs) \<noteq> 0" "sb_inode_size (superblock fs) \<noteq> 0"
    "bgd_block_of fs (inode_group fs inum) < block_count fs" "ib < block_count fs"
    "0 < block_size fs div unat (sb_inode_size (superblock fs))"
    using assms(2,3) by (auto simp: inode_place_ok_def div_greater_zero_iff)
  have "io + 128 \<le> block_size fs" using inode_slot_fits [OF assms(2)] assms(3) by simp
  then show ?thesis
    using p assms(3) get_bgd_ok [OF assms(1) p(4)] ext_read_block_ok [OF assms(1) p(5)] length_vol_block [OF assms(1) p(5)]
    by (auto simp: get_ext2_inode_def inode_slot_def inode_group_def Let_def)
qed

end

text \<open>
  Writing an inode back and reading it again returns the data written; no
  other block of the volume and no other byte of its block changes.
\<close>

theorem write_inode_data_read_back:
  assumes "ext2_volume fs bytes" "vol_ok fs bytes d" "inode_data_ok (idata inode)" "number inode < 2 ^ 32"
    and "inode_place_ok fs (vol_block fs bytes d) (of_nat (number inode))"
    and "inode_slot fs (vol_block fs bytes d) (of_nat (number inode)) = (ib, io)"
    and "ib \<noteq> bgd_block_of fs (inode_group fs (of_nat (number inode)))"
  shows "\<exists>d'. write_inode_data fs inode d = (Ok (), d') \<and> vol_ok fs bytes d' \<and>
    vol_block fs bytes d' = (vol_block fs bytes d)(ib := blit io (inode_bytes (idata inode)) (vol_block fs bytes d ib)) \<and>
    get_fnode fs (of_nat (number inode)) d' = Ok (inode\<lparr>dirty := False\<rparr>)"
proof -
  let ?B = "vol_block fs bytes d" and ?n = "of_nat (number inode) :: u32"
  have ib: "ib < block_count fs" using assms(5,6) by (simp add: inode_place_ok_def)
  have fits: "io + length (inode_bytes (idata inode)) \<le> length (?B ib)"
    using inode_slot_fits [OF assms(5)] assms(3,6) ext2_volume.length_vol_block [OF assms(1,2) ib] by simp
  let ?X = "blit io (inode_bytes (idata inode)) (?B ib)"
  obtain d' where d': "ext_write_block fs ib ?X d = (Ok (), d')" "vol_ok fs bytes d'"
    "vol_block fs bytes d' = ?B(ib := ?X)"
    using ext2_volume.ext_write_block_ok [OF assms(1,2) ib, of ?X] fits
      ext2_volume.length_vol_block [OF assms(1,2) ib] by (metis length_blit)
  have same: "bgd_at fs (vol_block fs bytes d') (inode_group fs ?n) = bgd_at fs ?B (inode_group fs ?n)"
    using assms(7) d'(3) by (simp add: bgd_at_upd_other)
  have slot: "inode_slot fs (vol_block fs bytes d') ?n = (ib, io)" using assms(6) same by (simp add: inode_slot_def)
  have place: "inode_place_ok fs (vol_block fs bytes d') ?n" using assms(5,6) slot by (simp add: inode_place_ok_def)
  have "unat ?n = number inode" using assms(4) by (simp add: unsigned_of_nat take_bit_nat_eq_self)
  moreover have "inode_of (drop io ?X) = idata inode"
    using fits inode_of_bytes [OF assms(3)] by (simp add: blit_def)
  ultimately have "get_fnode fs ?n d' = Ok (inode\<lparr>dirty := False\<rparr>)"
    using ext2_volume.get_inode_ok [OF assms(1) d'(2) place slot] d'(3) by (simp add: get_fnode_def)
  moreover have "write_inode_data fs inode d = (Ok (), d')"
    using ext2_volume.get_inode_ok [OF assms(1,2,5,6)] fits d'(1) by (simp add: write_inode_data_def put_at_def)
  ultimately show ?thesis using d'(2,3) by blast
qed

subsection \<open>Concrete files and directories\<close>

definition sample_inode :: "u16 \<Rightarrow> u32 \<Rightarrow> u32 list \<Rightarrow> INode" where
  "sample_inode mode sz ptrs =
    \<lparr>number = 2,
     idata = \<lparr>i_mode = mode, i_uid = 0, i_size = sz, i_atime = 0, i_ctime = 0, i_mtime = 0, i_dtime = 0, i_gid = 0,
       i_links_count = 1, i_blocks = 0, i_flags = 0, i_osd1 = 0, i_block = ptrs, i_generation = 0, i_file_acl = 0,
       i_dir_acl = 0, i_faddr = 0, i_osd2 = replicate 12 0\<rparr>,
     dirty = False\<rparr>"

lemma sample_read_block:
  assumes "small_blocks tail" "k < length tail"
  shows "ext_read_block sample_ext2 (4 + k) (sample_disk n tail) = Ok (tail ! k)"
proof -
  have "4 + k < block_count sample_ext2" using assms by (simp add: sample_ext2_def)
  then show ?thesis
    using sample.ext_read_block_ok [OF sample_vol_ok [OF assms(1)]] sample_block(4) [OF assms] by simp
qed

text \<open>A file or directory whose first block is the block 4 of the volume.\<close>

lemma sample_first_block:
  assumes "small_blocks (b # tail)" "ptrs ! 0 = 4"
  shows "fnode_read_block sample_ext2 0 (sample_inode mode sz ptrs) (sample_disk n (b # tail)) = Ok b"
  using sample_read_block [OF assms(1), of 0 n] assms(2)
  by (simp add: fnode_read_block_def block_tree_def block_tree_indices_def sample_inode_def)

lemma sample_hole:
  assumes "k < 12" "ptrs ! k = 0"
  shows "fnode_read_block sample_ext2 k (sample_inode mode sz ptrs) d = Ok (replicate 32 0)"
  using assms by (simp add: fnode_read_block_def block_tree_def block_tree_indices_def sample_inode_def)
    (simp add: sample_ext2_def)

theorem fnode_read_exact_witness:
  "\<exists>C. length C = 40 \<and>
    fnode_read_unaligned sample_ext2 0 (replicate 50 9) (sample_inode 0x8000 40 (4 # replicate 14 0))
      (sample_disk 9 [replicate 32 7]) = Ok (blit 0 C (replicate 50 9), 40)"
proof -
  let ?i = "sample_inode 0x8000 40 (4 # replicate 14 0)" and ?d = "sample_disk 9 [replicate 32 7]"
  have "fnode_read_block sample_ext2 n ?i ?d = Ok (if n = 0 then replicate 32 7 else replicate 32 0)" if "n * 32 < 40" for n
    using that sample_first_block [of "replicate 32 7" "[]" "4 # replicate 14 0"] sample_hole [of n "4 # replicate 14 0"]
    by (cases "n = 0") (auto simp: nth_Cons' )
  then have "file_blocks sample_ext2 ?i ?d (\<lambda>n. if n = 0 then replicate 32 7 else replicate 32 0)"
    by (simp add: file_blocks_def sample_inode_def) (simp add: sample_ext2_def)
  from fnode_read_exact [OF this] obtain C where "length C = unat (i_size (idata ?i))"
    "\<forall>off buf. fnode_read_unaligned sample_ext2 off buf ?i ?d
       = Ok (blit 0 (subslice off (length buf) C) buf, length (subslice off (length buf) C))" by blast
  then have "length C = 40" "fnode_read_unaligned sample_ext2 0 (replicate 50 9) ?i ?d
       = Ok (blit 0 (subslice 0 50 C) (replicate 50 9), length (subslice 0 50 C))"
    by (simp_all add: sample_inode_def)
  then show ?thesis by (intro exI [of _ C]) (simp add: subslice_def)
qed

theorem block_tree_indices_correct_witness:
  "block_tree_indices sample_ext2 83 = ([13, 7, 7, 0], 3) \<and> path_block 8 [13, 7, 7, 0] 3 = 83"
proof -
  have "block_tree_indices sample_ext2 83 = ([13, 7, 7, 0], 3)"
    by (simp add: block_tree_indices_def sample_ext2_def Let_def)
  then show ?thesis
    using block_tree_indices_correct [of 8 sample_ext2 83 "[13, 7, 7, 0]" 3] by (simp add: sample_ext2_def)
qed

definition table_blocks :: "byte list list" where
  "table_blocks = [u32_bytes 5 @ replicate 28 0, replicate 4 0 @ u32_bytes 6 @ replicate 24 0, replicate 32 0]"

lemma table_blocks_small: "small_blocks table_blocks"
  by (simp add: table_blocks_def)

lemma table_read:
  "ext_read_block sample_ext2 4 (sample_disk n table_blocks) = Ok (u32_bytes 5 @ replicate 28 0)"
  "ext_read_block sample_ext2 5 (sample_disk n table_blocks) = Ok (replicate 4 0 @ u32_bytes 6 @ replicate 24 0)"
  "ext_read_block sample_ext2 6 (sample_disk n table_blocks) = Ok (replicate 32 0)"
  using sample_read_block [OF table_blocks_small, of 0 n] sample_read_block [OF table_blocks_small, of 1 n]
    sample_read_block [OF table_blocks_small, of 2 n] by (simp_all add: table_blocks_def)

lemma table_ptrs:
  "u32_at 0 (u32_bytes 5 @ replicate 28 0) = 5" "u32_at 4 (replicate 4 0 @ u32_bytes 6 @ replicate 24 0) = 6"
  "u32_at 0 (replicate 4 0 @ u32_bytes 6 @ replicate 24 0) = 0"
  by (simp_all add: u32_at_def subslice_def u32_of_bytes le_nat_replicate_0)

theorem triple_indirect_read_panics_witness:
  "fnode_read_block sample_ext2 92 (sample_inode 0x8000 4096 (replicate 14 0 @ [4])) (sample_disk 9 table_blocks) = Panic"
proof (rule triple_indirect_read_panics [where bpb = 8 and m = 8 and p = 4 and q = 5 and r = 6 and s = "replicate 32 0"])
  have "block_tree_indices sample_ext2 92 = ([14, 0, 1, 8], 4)"
    by (simp add: block_tree_indices_def sample_ext2_def Let_def)
  then show "tree_loop sample_ext2 (fst (block_tree_indices sample_ext2 92)) 1 2
      [unat (i_block (idata (sample_inode 0x8000 4096 (replicate 14 0 @ [4]))) ! 14), 0, 0, 0]
      (sample_disk 9 table_blocks) = Ok [4, 5, 6, 0]"
    unfolding numeral_2_eq_2 by (simp add: sample_inode_def nth_append table_read table_ptrs Let_def)
qed (simp_all add: table_read, simp_all add: sample_ext2_def)

theorem write_block_drops_siblings_witness:
  "\<exists>d2. fnode_write_block sample_ext2 12 (replicate 32 1) None 0
      (sample_disk 9 [replicate 32 0, replicate 32 0, replicate 4 0 @ u32_bytes 6 @ replicate 24 0],
       sample_inode 0x8000 4096 (replicate 12 0 @ [6, 0, 0]))
    = (Ok (), d2, sample_inode 0x8000 4096 (replicate 12 0 @ [6, 0, 0])) \<and>
    fnode_read_block sample_ext2 13 (sample_inode 0x8000 4096 (replicate 12 0 @ [6, 0, 0])) d2 = Ok (replicate 32 0)"
proof -
  let ?tl = "[replicate 32 0, replicate 32 0, replicate 4 0 @ u32_bytes 6 @ replicate 24 0]"
  let ?d = "sample_disk 9 ?tl" and ?i = "sample_inode 0x8000 4096 (replicate 12 0 @ [6, 0, 0])"
  have small: "small_blocks ?tl" by simp
  note at = sample_bgd_at(1) [OF small, of 9]
  obtain d1 where "alloc_block_given_group sample_ext2 0 ?d = (Ok (Some 5), d1)" "vol_ok sample_ext2 (\<lambda>d. d) d1"
    using sample.alloc_some [OF sample_vol_ok [OF small] sample_group_ok [OF small], of 9 5, unfolded at]
      sample_block(3) [OF small] sample_first_zero by (auto simp: sample_bgd_def sample_ext2_def)
  then have d1: "alloc_block sample_ext2 0 ?d = (Ok 5, d1)" "vol_ok sample_ext2 (\<lambda>d. d) d1"
    by (simp_all add: alloc_block_def)
  have ptr: "vol_block sample_ext2 (\<lambda>d. d) ?d 6 = replicate 4 0 @ u32_bytes 6 @ replicate 24 0"
    using sample_block(4) [OF small, of 2 9] by (simp add: numeral_2_eq_2)
  have sz: "block_size sample_ext2 = 32" "block_count sample_ext2 = 128" by (simp_all add: sample_ext2_def)
  show ?thesis
    using write_block_drops_siblings [OF sample.ext2_volume_axioms sample_vol_ok [OF small], where
        inode = ?i and ib = 6 and k = 0 and j = 1 and b = 5 and pref = 0 and buf = "replicate 32 1", OF _ _ _ _ _ _ _ _ d1]
    by (auto simp: sz ptr table_ptrs sample_inode_def nth_append)
qed

definition entry_bytes :: "u32 \<Rightarrow> u16 \<Rightarrow> byte list \<Rightarrow> nat \<Rightarrow> byte list" where
  "entry_bytes inum rec_len name pad =
    u32_bytes inum @ u16_bytes rec_len @ [of_nat (length name), 1] @ name @ replicate pad 0"

lemma dirent_at_entry_bytes:
  assumes "inum \<noteq> 0" "valid_utf8 name" "length name < 256"
  shows "dirent_at (length xs) (xs @ entry_bytes inum rec_len name pad @ ys) = Ok (inum, rec_len, name)"
  unfolding dirent_at_iff [OF assms(1)] using assms by (simp add: entry_bytes_def subslice_def nth_append)

lemma ascii_names [simp]: "valid_utf8 [0x2e]" "valid_utf8 [0x61, 0x62]" "valid_utf8 [0x61]"
  by (simp_all add: valid_utf8.simps in_bytes_def)

lemma sample_directory: "is_directory (sample_inode 0x4000 sz ptrs)"
  by (simp add: is_directory_def sample_inode_def)

lemma sample_dir_blocks:
  assumes "length b = 32"
  shows "file_blocks sample_ext2 (sample_inode 0x4000 32 (4 # replicate 14 0)) (sample_disk 9 [b]) (\<lambda>_. b)"
  using assms sample_first_block [of b "[]" "4 # replicate 14 0"]
  by (simp add: file_blocks_def sample_inode_def) (auto simp: sample_ext2_def)

theorem search_finds_entry_witness:
  "search sample_ext2 [0x61, 0x62] (sample_inode 0x4000 32 (4 # replicate 14 0))
      (sample_disk 9 [entry_bytes 2 16 [0x2e] 7 @ entry_bytes 7 16 [0x61, 0x62] 6])
    = Some (get_fnode sample_ext2 7 (sample_disk 9 [entry_bytes 2 16 [0x2e] 7 @ entry_bytes 7 16 [0x61, 0x62] 6]))"
proof -
  let ?b = "entry_bytes 2 16 [0x2e] 7 @ entry_bytes 7 16 [0x61, 0x62] 6"
  have len: "length ?b = 32" "length (entry_bytes 2 16 [0x2e] 7) = 16" by (simp_all add: entry_bytes_def)
  have "dirent_at 0 ?b = Ok (2, 16, [0x2e])" "dirent_at 16 ?b = Ok (7, 16, [0x61, 0x62])"
    using dirent_at_entry_bytes [of 2 "[0x2e]" "[]" 16 7]
      dirent_at_entry_bytes [of 7 "[0x61, 0x62]" "entry_bytes 2 16 [0x2e] 7" 16 6 "[]"] len(2) by simp_all
  then have "dir_layout (block_size sample_ext2) (unat (i_size (idata (sample_inode 0x4000 32 (4 # replicate 14 0)))))
      (\<lambda>_. ?b) 0 [(2, 16, [0x2e]), (7, 16, [0x61, 0x62])]"
    by (simp add: sample_inode_def sample_ext2_def)
  from search_finds_entry [OF sample_directory sample_dir_blocks [OF len(1)] this, of "[0x61, 0x62]"]
  show ?thesis by (simp add: is_entry_def)
qed

theorem search_loops_on_empty_record_witness:
  "search sample_ext2 [0x61] (sample_inode 0x4000 32 (4 # replicate 14 0))
    (sample_disk 9 [entry_bytes 2 0 [0x2e] 23]) = None"
proof (rule search_loops_on_empty_record [OF sample_directory, of _ _ _ _ "entry_bytes 2 0 [0x2e] 23" 2 "[0x2e]"])
  show "fnode_read_block sample_ext2 0 (sample_inode 0x4000 32 (4 # replicate 14 0))
      (sample_disk 9 [entry_bytes 2 0 [0x2e] 23]) = Ok (entry_bytes 2 0 [0x2e] 23)"
    by (rule sample_first_block) (simp_all add: entry_bytes_def)
  show "dirent_at 0 (entry_bytes 2 0 [0x2e] 23) = Ok (2, 0, [0x2e])"
    using dirent_at_entry_bytes [of 2 "[0x2e]" "[]" 0 23 "[]"] by simp
qed (simp_all add: sample_inode_def)

theorem place_entry_splits_record_witness:
  "\<exists>buf'. place_entry 32 64 (entry_space [0x2e]) 32 False 7 1 [0x61] (entry_bytes 2 32 [0x2e] 23) = Ok buf' \<and>
    dirent_at 12 buf' = Ok (7, 20, [0x61])"
proof -
  have "dirent_at 0 (entry_bytes 2 32 [0x2e] 23) = Ok (2, 32, [0x2e])"
    using dirent_at_entry_bytes [of 2 "[0x2e]" "[]" 32 23 "[]"] by simp
  moreover have "entry_space [0x2e] = 12" "entry_space [0x61] = 12" by (simp_all add: entry_space_def div_ceil_def)
  ultimately show ?thesis
    using place_entry_splits_record [of "entry_bytes 2 32 [0x2e] 23" 32 64 0 2 32 "[0x2e]" "[0x61]" 7 1]
    by (auto simp: entry_bytes_def)
qed

text \<open>A volume of 32 blocks of 128 bytes, one inode in each block of the table.\<close>

definition wide_ext2 :: "byte list Ext2" where
  "wide_ext2 = sample_ext2\<lparr>block_size := 128, superblock := (superblock sample_ext2)\<lparr>sb_blocks_count := 32\<rparr>\<rparr>"

definition wide_disk :: "byte list" where
  "wide_disk = replicate 128 0 @ bgd_bytes (sample_bgd 3 9) @ replicate 3950 0"

interpretation wide: ext2_volume wide_ext2 "\<lambda>d. d"
proof -
  have "block_device (ext_device wide_ext2) (\<lambda>d. d)"
    using memory_disk.driver.block_device_axioms [of 8] by (simp add: wide_ext2_def sample_ext2_def)
  then show "ext2_volume wide_ext2 (\<lambda>d. d)"
    by (intro ext2_volume.intro ext2_volume_axioms.intro) (simp_all add: wide_ext2_def BGD_SIZE_def)
qed

lemma wide_vol_ok: "vol_ok wide_ext2 (\<lambda>d. d) wide_disk"
  by (simp add: vol_ok_def wide_ext2_def sample_ext2_def wide_disk_def virtio_blk_def PAGE_SIZE_def USIZE_MAX_def)

lemma wide_slot:
  "bgd_at wide_ext2 (vol_block wide_ext2 (\<lambda>d. d) wide_disk) 0 = sample_bgd 3 9"
  "inode_group wide_ext2 2 = 0" "inode_slot wide_ext2 (vol_block wide_ext2 (\<lambda>d. d) wide_disk) 2 = (9, 0)"
  "inode_place_ok wide_ext2 (vol_block wide_ext2 (\<lambda>d. d) wide_disk) 2" "bgd_block_of wide_ext2 0 = 1"
proof -
  show bgd: "bgd_at wide_ext2 (vol_block wide_ext2 (\<lambda>d. d) wide_disk) 0 = sample_bgd 3 9"
    by (simp add: bgd_at_def bgd_block_of_def bgd_offset_of_def vol_block_def subslice_def wide_disk_def
        wide_ext2_def sample_ext2_def BGD_SIZE_def bgd_of_bytes)
  show g: "inode_group wide_ext2 2 = 0" "bgd_block_of wide_ext2 0 = 1"
    by (simp_all add: inode_group_def bgd_block_of_def wide_ext2_def sample_ext2_def BGD_SIZE_def)
  show slot: "inode_slot wide_ext2 (vol_block wide_ext2 (\<lambda>d. d) wide_disk) 2 = (9, 0)"
    by (simp add: inode_slot_def g(1) bgd Let_def) (simp add: sample_bgd_def wide_ext2_def sample_ext2_def)
  show "inode_place_ok wide_ext2 (vol_block wide_ext2 (\<lambda>d. d) wide_disk) 2"
    using slot g by (simp add: inode_place_ok_def) (simp add: wide_ext2_def sample_ext2_def)
qed

theorem write_inode_data_read_back_witness:
  "\<exists>d'. write_inode_data wide_ext2 (sample_inode 0x8000 40 (replicate 15 3)) wide_disk = (Ok (), d') \<and>
    get_fnode wide_ext2 2 d' = Ok (sample_inode 0x8000 40 (replicate 15 3))"
  using write_inode_data_read_back [OF wide.ext2_volume_axioms wide_vol_ok, of "sample_inode 0x8000 40 (replicate 15 3)" 9 0]
  by (auto simp: sample_inode_def inode_data_ok_def wide_slot)

end
