(* ===== verification/Locks.thy ===== *)
theory Locks
  imports Cab_Prelude
begin

section \<open>Interrupt-safe locks\<close>

text \<open>
  Model of \<^verbatim>\<open>src/src/sync/int_spinlock.rs\<close> and \<^verbatim>\<open>int_mutex.rs\<close>, of the guards
  of \<^verbatim>\<open>src/src/state.rs\<close>, and of the parts of
  \<^verbatim>\<open>src/src/thread.rs\<close> that decide whether a thread may sleep.

  The first part is the state of one core that \<open>can_yield\<close> looks at and what
  taking a lock does to it. The second is the mutex as a step relation over all
  threads: each rule is one atomic access of the code (the swap of the flag, the
  critical section of the queue lock, the store that frees the mutex), so the
  relation has every interleaving of the code. A thread is a number.
\<close>

type_synonym tid = nat

subsection \<open>Interrupts and yielding\<close>

record Cpu =
  irq_enabled :: bool
  mp_preempt :: bool
  on_thread :: bool
  thread_can_yield :: bool
  pinned_to_core :: bool

definition can_yield_for_preempt :: "Cpu \<Rightarrow> bool" where
  "can_yield_for_preempt c \<longleftrightarrow> mp_preempt c \<and> on_thread c \<and> thread_can_yield c"

definition can_yield :: "Cpu \<Rightarrow> bool" where
  "can_yield c \<longleftrightarrow> irq_enabled c \<and> can_yield_for_preempt c"

text \<open>One attempt to take a lock: the flag before the swap, the core and the
  interrupt state to restore. The result is whether the lock was taken.\<close>

definition attempt_acquire_lock :: "bool \<Rightarrow> bool \<Rightarrow> Cpu \<Rightarrow> bool \<times> bool \<times> Cpu" where
  "attempt_acquire_lock locked irq c =
    (let c1 = c\<lparr>irq_enabled := False\<rparr>
     in if \<not> locked then (True, True, c1) else (False, True, c1\<lparr>irq_enabled := irq\<rparr>))"

text \<open>Waiting for a lock: \<open>flags\<close> is what the swaps of this thread find, one after the
  other. The result is the flag and the core when the lock is taken, None while it
  is still waiting.\<close>

fun lock_block :: "bool \<Rightarrow> bool list \<Rightarrow> Cpu \<Rightarrow> (bool \<times> Cpu) option" where
  "lock_block irq [] c = None"
| "lock_block irq (locked # flags) c =
    (case attempt_acquire_lock locked irq c of (got, locked', c') \<Rightarrow>
       if got then Some (locked', c') else lock_block irq flags c')"

text \<open>The result carries the interrupt state that the guard will restore.\<close>

definition lock_impl :: "bool \<Rightarrow> bool list \<Rightarrow> Cpu \<Rightarrow> (bool \<times> bool \<times> Cpu) option" where
  "lock_impl guard_state flags c =
    (let irq = irq_enabled c
     in case flags of
          [] \<Rightarrow> None
        | locked # rest \<Rightarrow>
            (case attempt_acquire_lock locked irq c of (got, locked', c') \<Rightarrow>
               map_option (Pair guard_state) (if got then Some (locked', c') else lock_block irq rest c')))"

definition lock :: "bool list \<Rightarrow> Cpu \<Rightarrow> (bool \<times> bool \<times> Cpu) option" where
  "lock flags c = lock_impl (irq_enabled c) flags c"

definition lock_no_restore_irq :: "bool list \<Rightarrow> Cpu \<Rightarrow> (bool \<times> bool \<times> Cpu) option" where
  "lock_no_restore_irq flags c = lock_impl False flags c"

definition guard_drop :: "bool \<Rightarrow> Cpu \<Rightarrow> bool \<times> Cpu" where
  "guard_drop irq c = (False, c\<lparr>irq_enabled := irq\<rparr>)"

lemma acquired_disables_irq:
  "attempt_acquire_lock locked irq c = (True, locked', c') \<Longrightarrow> locked' \<and> \<not> locked \<and> c' = c\<lparr>irq_enabled := False\<rparr>"
  by (auto simp: attempt_acquire_lock_def Let_def split: if_splits)

lemma not_can_yield_locked:
  "attempt_acquire_lock locked irq c = (True, locked', c') \<Longrightarrow> \<not> can_yield c'"
  by (auto dest: acquired_disables_irq simp: can_yield_def)

lemma attempt_keeps_core:
  "attempt_acquire_lock locked (irq_enabled c) c = (got, locked', c') \<Longrightarrow>
    got = (\<not> locked) \<and> locked' \<and> c' = (if got then c\<lparr>irq_enabled := False\<rparr> else c)"
  by (auto simp: attempt_acquire_lock_def Let_def split: if_splits)

lemma lock_block_waits:
  "lock_block (irq_enabled c) flags c = (if False \<in> set flags then Some (True, c\<lparr>irq_enabled := False\<rparr>) else None)"
  by (induction flags) (auto simp: attempt_acquire_lock_def Let_def)

text \<open>A lock is taken at the first free flag, with interrupts off and the core otherwise
  as it was; dropping the guard frees the lock and restores the core, or leaves
  interrupts off after \<open>lock_no_restore_irq\<close>.\<close>

lemma lock_then_drop:
  assumes "False \<in> set flags"
  shows "\<exists>irq c'. lock flags c = Some (irq, True, c') \<and> \<not> irq_enabled c' \<and> guard_drop irq c' = (False, c)"
    "\<exists>irq c'. lock_no_restore_irq flags c = Some (irq, True, c') \<and> \<not> irq_enabled c' \<and>
      guard_drop irq c' = (False, c\<lparr>irq_enabled := False\<rparr>)"
  using assms lock_block_waits [of c "tl flags"]
  by (cases flags; auto simp: lock_def lock_no_restore_irq_def lock_impl_def attempt_acquire_lock_def Let_def guard_drop_def)+

subsection \<open>Guards of saved state\<close>

text \<open>The traits of \<^verbatim>\<open>src/src/state.rs\<close>: a piece of the core's or thread's state that a
  guard locks down and its drop restores.\<close>

record ('s, 'v) StateTrait =
  st_get :: "'s \<Rightarrow> 'v"
  st_set :: "'v \<Rightarrow> 's \<Rightarrow> 's"
  exchange_guarded :: "'s \<Rightarrow> 'v \<times> 's"

definition Irq :: "(Cpu, bool) StateTrait" where
  "Irq = \<lparr>st_get = irq_enabled, st_set = (\<lambda>v c. c\<lparr>irq_enabled := v\<rparr>),
     exchange_guarded = (\<lambda>c. (irq_enabled c, c\<lparr>irq_enabled := False\<rparr>))\<rparr>"

definition CorePin :: "(Cpu, bool) StateTrait" where
  "CorePin = \<lparr>st_get = pinned_to_core, st_set = (\<lambda>v c. c\<lparr>pinned_to_core := v\<rparr>),
     exchange_guarded = (\<lambda>c. (pinned_to_core c, c\<lparr>pinned_to_core := True\<rparr>))\<rparr>"

definition Preemption :: "(Cpu, bool) StateTrait" where
  "Preemption = \<lparr>st_get = thread_can_yield, st_set = (\<lambda>v c. c\<lparr>thread_can_yield := v\<rparr>),
     exchange_guarded = (\<lambda>c. (thread_can_yield c, c\<lparr>thread_can_yield := False\<rparr>))\<rparr>"

definition state_guard :: "('s, 'v) StateTrait \<Rightarrow> 's \<Rightarrow> 'v \<times> 's" where
  "state_guard T s = exchange_guarded T s"

definition state_preserve :: "('s, 'v) StateTrait \<Rightarrow> 's \<Rightarrow> 'v \<times> 's" where
  "state_preserve T s = (st_get T s, s)"

definition state_drop :: "('s, 'v) StateTrait \<Rightarrow> 'v \<Rightarrow> 's \<Rightarrow> 's" where
  "state_drop T v s = st_set T v s"

text \<open>Code between the creation of a guard and its drop is a block; it may set the state
  and holds further blocks.\<close>

datatype 'v state_block = Guarded "'v state_block list" | Preserved "'v state_block list" | SetTo 'v

fun run_block :: "('s, 'v) StateTrait \<Rightarrow> 'v state_block \<Rightarrow> 's \<Rightarrow> 's" where
  "run_block T (Guarded bs) s = (case state_guard T s of (v, s1) \<Rightarrow> state_drop T v (fold (run_block T) bs s1))"
| "run_block T (Preserved bs) s = (case state_preserve T s of (v, s1) \<Rightarrow> state_drop T v (fold (run_block T) bs s1))"
| "run_block T (SetTo v) s = st_set T v s"

locale state_trait =
  fixes T :: "('s, 'v) StateTrait" and down :: 'v
  assumes get_set: "st_get T (st_set T v s) = v"
    and set_get: "st_set T (st_get T s) s = s"
    and set_set: "st_set T v (st_set T w s) = st_set T v s"
    and exchange: "exchange_guarded T s = (st_get T s, st_set T down s)"
begin

lemma fold_frame:
  assumes "\<And>b s. b \<in> set bs \<Longrightarrow> \<exists>v. run_block T b s = st_set T v s"
  shows "\<exists>v. fold (run_block T) bs s = st_set T v s"
  using assms
proof (induction bs arbitrary: s)
  case Nil
  then show ?case using set_get [of s] by (metis fold_simps(1))
next
  case (Cons b bs)
  obtain v where "run_block T b s = st_set T v s" using Cons.prems [of b s] by auto
  moreover obtain w where "fold (run_block T) bs (st_set T v s) = st_set T w (st_set T v s)"
    using Cons.IH [of "st_set T v s"] Cons.prems by auto
  ultimately show ?case by (auto simp: set_set)
qed

lemma run_block_frame: "\<exists>v. run_block T b s = st_set T v s"
proof (induction b arbitrary: s)
  case (Guarded bs)
  obtain v where "fold (run_block T) bs (st_set T down s) = st_set T v (st_set T down s)"
    using fold_frame [of bs "st_set T down s"] Guarded by auto
  then show ?case by (auto simp: state_guard_def state_drop_def exchange set_set)
next
  case (Preserved bs)
  obtain v where "fold (run_block T) bs s = st_set T v s" using fold_frame [of bs s] Preserved by auto
  then show ?case by (auto simp: state_preserve_def state_drop_def set_set)
qed auto

text \<open>Whatever runs between, a block leaves the state as it found it, and it starts
  locked down.\<close>

lemma guarded_restores: "run_block T (Guarded bs) s = s" "run_block T (Preserved bs) s = s"
proof -
  have "\<exists>v. fold (run_block T) bs s' = st_set T v s'" for s' by (rule fold_frame) (rule run_block_frame)
  then obtain f where f: "\<And>s'. fold (run_block T) bs s' = st_set T (f s') s'" by metis
  show "run_block T (Guarded bs) s = s" "run_block T (Preserved bs) s = s"
    by (simp_all add: state_guard_def state_preserve_def state_drop_def exchange f set_set set_get)
qed

lemma guard_locks_down: "st_get T (snd (state_guard T s)) = down"
  by (simp add: state_guard_def exchange get_set)

end

interpretation irq: state_trait Irq False
  by unfold_locales (simp_all add: Irq_def)

interpretation core_pin: state_trait CorePin True
  by unfold_locales (simp_all add: CorePin_def)

interpretation preemption: state_trait Preemption False
  by unfold_locales (simp_all add: Preemption_def)

text \<open>Under a guard of the interrupts or of preemption a thread cannot yield, and after
  the guard it can exactly when it could before.\<close>

lemma guard_blocks_yield:
  "\<not> can_yield (snd (state_guard Irq c))" "\<not> can_yield (snd (state_guard Preemption c))"
  "can_yield (run_block Irq (Guarded bs) c) = can_yield c" "can_yield (run_block Preemption (Guarded bs') c) = can_yield c"
  by (simp_all only: irq.guarded_restores preemption.guarded_restores)
    (simp_all add: state_guard_def Irq_def Preemption_def can_yield_def can_yield_for_preempt_def)

subsection \<open>The mutex as a transition system\<close>

datatype mutex_phase = Out | Trying | Checked | Asleep | Holding | Releasing

record IntMutexSys =
  mlock :: bool
  blocked :: "tid list"
  queue_owner :: "tid option"
  phase :: "tid \<Rightarrow> mutex_phase"

definition mutex_init :: IntMutexSys where
  "mutex_init = \<lparr>mlock = False, blocked = [], queue_owner = None, phase = (\<lambda>_. Out)\<rparr>"

abbreviation goto :: "tid \<Rightarrow> mutex_phase \<Rightarrow> IntMutexSys \<Rightarrow> IntMutexSys" where
  "goto t p s \<equiv> s\<lparr>phase := (phase s)(t := p)\<rparr>"

inductive mutex_step :: "IntMutexSys \<Rightarrow> IntMutexSys \<Rightarrow> bool" where
  enter: "phase s t = Out \<Longrightarrow> mutex_step s (goto t Trying s)"
| acquire: "phase s t = Trying \<Longrightarrow> \<not> mlock s \<Longrightarrow> mutex_step s ((goto t Holding s)\<lparr>mlock := True\<rparr>)"
| swap_fails: "phase s t = Trying \<Longrightarrow> mlock s \<Longrightarrow> mutex_step s s"
| check_held: "phase s t = Trying \<Longrightarrow> queue_owner s = None \<Longrightarrow> mlock s \<Longrightarrow>
    mutex_step s ((goto t Checked s)\<lparr>queue_owner := Some t\<rparr>)"
| check_free: "phase s t = Trying \<Longrightarrow> queue_owner s = None \<Longrightarrow> \<not> mlock s \<Longrightarrow> mutex_step s s"
| enqueue: "phase s t = Checked \<Longrightarrow>
    mutex_step s ((goto t Asleep s)\<lparr>blocked := blocked s @ [t], queue_owner := None\<rparr>)"
| release: "phase s t = Holding \<Longrightarrow> mutex_step s ((goto t Releasing s)\<lparr>mlock := False\<rparr>)"
| wake: "phase s t = Releasing \<Longrightarrow> queue_owner s = None \<Longrightarrow> blocked s = u # us \<Longrightarrow>
    mutex_step s ((goto u Trying (goto t Out s))\<lparr>blocked := us\<rparr>)"
| wake_none: "phase s t = Releasing \<Longrightarrow> queue_owner s = None \<Longrightarrow> blocked s = [] \<Longrightarrow> mutex_step s (goto t Out s)"

inductive_cases mutex_stepE: "mutex_step s s'"

definition mutex_reachable :: "IntMutexSys \<Rightarrow> bool" where
  "mutex_reachable s \<longleftrightarrow> mutex_step\<^sup>*\<^sup>* mutex_init s"

definition hold_inv :: "IntMutexSys \<Rightarrow> bool" where
  "hold_inv s \<longleftrightarrow> (mlock s \<longleftrightarrow> (\<exists>t. phase s t = Holding)) \<and>
    (\<forall>t u. phase s t = Holding \<longrightarrow> phase s u = Holding \<longrightarrow> t = u)"

definition queue_inv :: "IntMutexSys \<Rightarrow> bool" where
  "queue_inv s \<longleftrightarrow> (\<forall>t. t \<in> set (blocked s) \<longleftrightarrow> phase s t = Asleep) \<and> distinct (blocked s) \<and>
    (\<forall>t. phase s t = Checked \<longleftrightarrow> queue_owner s = Some t)"

definition wake_inv :: "IntMutexSys \<Rightarrow> bool" where
  "wake_inv s \<longleftrightarrow> (queue_owner s \<noteq> None \<longrightarrow> mlock s \<or> (\<exists>t. phase s t = Releasing)) \<and>
    (blocked s \<noteq> [] \<longrightarrow> mlock s \<or> (\<exists>t. phase s t = Releasing \<or> phase s t = Trying))"

definition mutex_inv :: "IntMutexSys \<Rightarrow> bool" where
  "mutex_inv s \<longleftrightarrow> hold_inv s \<and> queue_inv s \<and> wake_inv s"

lemma mutex_inv_init: "mutex_inv mutex_init"
  by (simp add: mutex_inv_def hold_inv_def queue_inv_def wake_inv_def mutex_init_def)

text \<open>A step that moves one thread between two phases keeps every statement about
  the threads in a third phase.\<close>

lemma other_phase: "phase s t = p \<Longrightarrow> r \<noteq> p \<Longrightarrow> r \<noteq> q \<Longrightarrow> ((phase s)(t := q)) v = r \<longleftrightarrow> phase s v = r"
  by auto

lemma hold_inv_step:
  assumes "mutex_step s s'" "hold_inv s" "queue_inv s"
  shows "hold_inv s'"
  using assms(1)
proof cases
  case (wake t u us)
  then have "phase s u = Asleep" using assms(3) by (auto simp: queue_inv_def)
  then have "phase s' v = Holding \<longleftrightarrow> phase s v = Holding" for v using wake by auto
  then show ?thesis using wake assms(2) by (simp add: hold_inv_def)
next
  case (acquire t)
  then show ?thesis using assms(2) by (auto simp: hold_inv_def)
next
  case (release t)
  then show ?thesis using assms(2) by (auto simp: hold_inv_def)
qed (use assms(2) in \<open>simp_all add: hold_inv_def other_phase del: fun_upd_apply\<close>)

lemma queue_inv_step:
  assumes "mutex_step s s'" "queue_inv s"
  shows "queue_inv s'"
  using assms(1)
proof cases
  case (wake t u us)
  then have "phase s u = Asleep" using assms(2) by (auto simp: queue_inv_def)
  then have "u \<noteq> t" using wake by auto
  then show ?thesis using wake assms(2) by (auto simp: queue_inv_def)
next
  case (enqueue t)
  then have "t \<notin> set (blocked s)" using assms(2) unfolding queue_inv_def by (metis mutex_phase.simps)
  moreover have "phase s v = Checked \<longleftrightarrow> v = t" for v
    using enqueue assms(2) unfolding queue_inv_def by (metis option.inject)
  then have "phase s' v \<noteq> Checked" for v using enqueue by auto
  moreover have "phase s' v = Asleep \<longleftrightarrow> v = t \<or> phase s v = Asleep" for v using enqueue by auto
  moreover have "blocked s' = blocked s @ [t]" "queue_owner s' = None" using enqueue by simp_all
  ultimately show ?thesis using assms(2) by (auto simp: queue_inv_def)
next
  case (check_held t)
  then show ?thesis using assms(2) by (auto simp: queue_inv_def)
qed (use assms(2) in \<open>simp_all add: queue_inv_def other_phase del: fun_upd_apply\<close>)

lemma wake_inv_step:
  assumes "mutex_step s s'" "hold_inv s" "queue_inv s" "wake_inv s"
  shows "wake_inv s'"
  using assms(1)
proof cases
  case (enter t)
  then have "phase s v = Trying \<Longrightarrow> phase s' v = Trying" "phase s v = Releasing \<Longrightarrow> phase s' v = Releasing" for v by auto
  moreover have "mlock s' = mlock s" "queue_owner s' = queue_owner s" "blocked s' = blocked s" using enter by simp_all
  ultimately show ?thesis using assms(4) unfolding wake_inv_def by metis
next
  case (enqueue t)
  then have "queue_owner s \<noteq> None" using assms(3) by (auto simp: queue_inv_def)
  then have "mlock s \<or> (\<exists>u. phase s u = Releasing)" using assms(4) by (auto simp: wake_inv_def)
  moreover have "phase s' u = Releasing" if "phase s u = Releasing" for u using that enqueue by auto
  moreover have "mlock s' = mlock s" "queue_owner s' = None" using enqueue by simp_all
  ultimately show ?thesis unfolding wake_inv_def by metis
next
  case (wake t u us)
  then have "phase s' u = Trying" "queue_owner s' = None" by simp_all
  then show ?thesis unfolding wake_inv_def by blast
next
  case (wake_none t)
  then show ?thesis by (simp add: wake_inv_def)
qed (use assms(4) in \<open>auto simp: wake_inv_def\<close>)

lemma mutex_inv_reachable:
  assumes "mutex_reachable s"
  shows "mutex_inv s"
  using assms unfolding mutex_reachable_def
proof (induction rule: rtranclp_induct)
  case base
  then show ?case by (rule mutex_inv_init)
next
  case (step s s')
  then show ?case using hold_inv_step queue_inv_step wake_inv_step by (simp add: mutex_inv_def)
qed

text \<open>
  C33. Mutual exclusion and no lost wake-up: in every state that any interleaving
  of the threads can reach, at most one thread holds the mutex, and while a thread
  sleeps in its queue the mutex is held, or a release is about to wake a sleeper,
  or an awake thread is trying to take it. So when nobody holds the mutex or works
  on it, nobody is asleep.
\<close>

theorem mutex_safe:
  assumes "mutex_reachable s"
  shows "(phase s t = Holding \<and> phase s u = Holding \<longrightarrow> t = u) \<and>
    ((\<forall>v. phase s v \<notin> {Holding, Releasing, Trying}) \<longrightarrow> blocked s = [] \<and> phase s t \<noteq> Asleep)"
proof -
  note inv = mutex_inv_reachable [OF assms, unfolded mutex_inv_def]
  have "blocked s = []" if "\<forall>v. phase s v \<notin> {Holding, Releasing, Trying}"
    using that inv by (auto simp: hold_inv_def wake_inv_def)
  moreover have "blocked s = [] \<Longrightarrow> phase s t \<noteq> Asleep" using inv by (auto simp: queue_inv_def)
  ultimately show ?thesis using inv by (auto simp: hold_inv_def)
qed

text \<open>A run: thread 0 takes the mutex, thread 1 finds it held and goes to sleep.\<close>

definition sample_sleeping :: IntMutexSys where
  "sample_sleeping = \<lparr>mlock = True, blocked = [1], queue_owner = None,
     phase = (\<lambda>_. Out)(0 := Trying, 0 := Holding, 1 := Trying, 1 := Checked, 1 := Asleep)\<rparr>"

lemma sample_sleeping_reachable: "mutex_reachable sample_sleeping"
proof -
  define s1 where "s1 = goto 0 Trying mutex_init"
  define s2 where "s2 = (goto 0 Holding s1)\<lparr>mlock := True\<rparr>"
  define s3 where "s3 = goto 1 Trying s2"
  define s4 where "s4 = (goto 1 Checked s3)\<lparr>queue_owner := Some 1\<rparr>"
  define s5 where "s5 = (goto 1 Asleep s4)\<lparr>blocked := blocked s4 @ [1], queue_owner := None\<rparr>"
  note defs = s1_def s2_def s3_def s4_def s5_def mutex_init_def
  have "mutex_step mutex_init s1" unfolding s1_def by (rule mutex_step.enter) (simp add: defs)
  moreover have "mutex_step s1 s2" unfolding s2_def by (rule mutex_step.acquire) (simp_all add: defs)
  moreover have "mutex_step s2 s3" unfolding s3_def by (rule mutex_step.enter) (simp add: defs)
  moreover have "mutex_step s3 s4" unfolding s4_def by (rule mutex_step.check_held) (simp_all add: defs)
  moreover have "mutex_step s4 s5" unfolding s5_def by (rule mutex_step.enqueue) (simp add: defs)
  moreover have "s5 = sample_sleeping" by (simp add: defs sample_sleeping_def)
  ultimately show ?thesis unfolding mutex_reachable_def
    by (metis rtranclp.rtrancl_into_rtrancl rtranclp.rtrancl_refl)
qed

theorem mutex_safe_witness:
  "blocked sample_sleeping = [1] \<and> \<not> (phase sample_sleeping 0 = Holding \<and> phase sample_sleeping 1 = Holding) \<and>
   \<not> (\<forall>v. phase sample_sleeping v \<notin> {Holding, Releasing, Trying})"
  using mutex_safe [OF sample_sleeping_reachable, of 0 1] by (auto simp: sample_sleeping_def)

end
