(* ===== verification/Semaphore.thy ===== *)
theory Semaphore
  imports Locks
begin

section \<open>Semaphores and promises\<close>

text \<open>
  Model of \<^verbatim>\<open>src/src/sync/semaphore.rs\<close> and \<^verbatim>\<open>promise.rs\<close>. A
  call is a loop of critical sections under the lock of the state; each section is
  one function here, so a run is a sequence of sections of any threads. What
  \<open>can_yield\<close> returned is an argument of a section; the actual value is that of the
  core with the lock held. Suspending is part of the section, since the lock is
  released only after the thread is in the queue.

  The transition systems count the threads that are between two sections.
\<close>

subsection \<open>Semaphore\<close>

datatype attempt = Acquired | Spin | Suspended

record SemState =
  count :: nat
  waiters :: "tid list"

definition sem_new :: "nat \<Rightarrow> SemState" where
  "sem_new initial = \<lparr>count = initial, waiters = []\<rparr>"

definition down_section :: "bool \<Rightarrow> bool \<Rightarrow> tid \<Rightarrow> SemState \<Rightarrow> (unit, attempt \<times> SemState) outcome" where
  "down_section yield_ok is_thread t st =
    (if 0 < count st then Ok (Acquired, st\<lparr>count := count st - 1\<rparr>)
     else if \<not> yield_ok then Ok (Spin, st)
     else if \<not> is_thread then Panic
     else Ok (Suspended, st\<lparr>waiters := waiters st @ [t]\<rparr>))"

definition up :: "SemState \<Rightarrow> (unit, tid option \<times> SemState) outcome" where
  "up st =
    obind (uadd (count st) 1) (\<lambda>c.
    case waiters st of
      [] \<Rightarrow> Ok (None, st\<lparr>count := c\<rparr>)
    | t # ts \<Rightarrow> Ok (Some t, st\<lparr>count := c, waiters := ts\<rparr>))"

text \<open>A semaphore with the number of threads awake inside \<open>down\<close>, and the number of
  calls of \<open>down\<close> and \<open>up\<close> that have taken and given a permit.\<close>

record sem_sys =
  sem :: SemState
  awake :: nat
  taken :: nat
  given :: nat

inductive sem_step :: "sem_sys \<Rightarrow> sem_sys \<Rightarrow> bool" where
  enter: "sem_step s (s\<lparr>awake := awake s + 1\<rparr>)"
| take: "0 < awake s \<Longrightarrow> down_section y th t (sem s) = Ok (Acquired, st) \<Longrightarrow>
    sem_step s (s\<lparr>sem := st, awake := awake s - 1, taken := taken s + 1\<rparr>)"
| spin: "0 < awake s \<Longrightarrow> down_section y th t (sem s) = Ok (Spin, st) \<Longrightarrow> sem_step s (s\<lparr>sem := st\<rparr>)"
| sleep: "0 < awake s \<Longrightarrow> down_section y th t (sem s) = Ok (Suspended, st) \<Longrightarrow>
    sem_step s (s\<lparr>sem := st, awake := awake s - 1\<rparr>)"
| up_quiet: "up (sem s) = Ok (None, st) \<Longrightarrow> sem_step s (s\<lparr>sem := st, given := given s + 1\<rparr>)"
| up_wake: "up (sem s) = Ok (Some t, st) \<Longrightarrow>
    sem_step s (s\<lparr>sem := st, awake := awake s + 1, given := given s + 1\<rparr>)"

inductive_cases sem_stepE: "sem_step s s'"

definition sem_start :: "nat \<Rightarrow> sem_sys" where
  "sem_start n = \<lparr>sem = sem_new n, awake = 0, taken = 0, given = 0\<rparr>"

definition sem_inv :: "nat \<Rightarrow> sem_sys \<Rightarrow> bool" where
  "sem_inv n s \<longleftrightarrow> count (sem s) + taken s = n + given s \<and> (waiters (sem s) \<noteq> [] \<longrightarrow> count (sem s) \<le> awake s)"

lemma down_section_cases:
  assumes "down_section y th t st = Ok (r, st')"
  shows "(r = Acquired \<and> 0 < count st \<and> st' = st\<lparr>count := count st - 1\<rparr>) \<or> (r = Spin \<and> count st = 0 \<and> st' = st) \<or>
    (r = Suspended \<and> count st = 0 \<and> st' = st\<lparr>waiters := waiters st @ [t]\<rparr>)"
  using assms by (auto simp: down_section_def split: if_splits)

lemma up_cases:
  assumes "up st = Ok (r, st')"
  shows "count st' = count st + 1 \<and>
    (case r of None \<Rightarrow> waiters st = [] \<and> waiters st' = [] | Some t \<Rightarrow> waiters st = t # waiters st')"
  using assms by (auto simp: up_def outcome_simps split: list.splits)

lemma sem_inv_step:
  assumes "sem_step s s'" "sem_inv n s"
  shows "sem_inv n s'"
  using assms by cases (auto simp: sem_inv_def dest!: down_section_cases up_cases)

lemma sem_inv_reachable:
  assumes "sem_step\<^sup>*\<^sup>* (sem_start n) s"
  shows "sem_inv n s"
  using assms by (induction rule: rtranclp_induct) (auto simp: sem_inv_def sem_start_def sem_new_def dest: sem_inv_step)

text \<open>
  C36. Counting and no lost wake-up, for every run of any number of threads: the
  permits taken are never more than the initial number plus those given back, the
  count is exactly the difference, and when permits are available while threads
  sleep in the queue there are at least as many threads awake and about to take
  them. So with no thread on its way in, nobody sleeps beside a free permit.
\<close>

theorem semaphore_safe:
  assumes "sem_step\<^sup>*\<^sup>* (sem_start n) s"
  shows "taken s \<le> n + given s \<and> count (sem s) = n + given s - taken s \<and>
    (awake s = 0 \<and> waiters (sem s) \<noteq> [] \<longrightarrow> count (sem s) = 0)"
  using sem_inv_reachable [OF assms] by (auto simp: sem_inv_def)

text \<open>
  The blocking path is dead: the code asks \<open>can_yield\<close> while it holds the lock
  of the state, which has disabled interrupts on the core, and \<open>can_yield\<close> requires
  them enabled. A section never suspends its thread, whatever the core was doing
  before; a thread without a permit always spins.
\<close>

theorem down_never_suspends:
  assumes "attempt_acquire_lock locked irq c = (True, locked', c')"
  shows "down_section (can_yield c') (on_thread c') t st \<noteq> Ok (Suspended, st') \<and>
    (count st = 0 \<longrightarrow> down_section (can_yield c') (on_thread c') t st = Ok (Spin, st))"
  using not_can_yield_locked [OF assms] by (auto simp: down_section_def)

theorem down_never_suspends_witness:
  "down_section (can_yield \<lparr>irq_enabled = False, mp_preempt = True, on_thread = True, thread_can_yield = True, pinned_to_core = False\<rparr>)
      True 7 (sem_new 0) = Ok (Spin, sem_new 0)"
  using down_never_suspends [of False True "\<lparr>irq_enabled = True, mp_preempt = True, on_thread = True, thread_can_yield = True, pinned_to_core = False\<rparr>"
      True "\<lparr>irq_enabled = False, mp_preempt = True, on_thread = True, thread_can_yield = True, pinned_to_core = False\<rparr>" 7 "sem_new 0"]
  by (simp add: attempt_acquire_lock_def sem_new_def)

text \<open>A run with one permit: thread 0 takes it, thread 1 goes to sleep.\<close>

lemma sample_sem_run:
  "sem_step\<^sup>*\<^sup>* (sem_start 1) \<lparr>sem = \<lparr>count = 0, waiters = [1]\<rparr>, awake = 0, taken = 1, given = 0\<rparr>"
proof -
  let ?s = "\<lambda>c w a k. \<lparr>sem = \<lparr>count = c, waiters = w\<rparr>, awake = a, taken = k, given = 0\<rparr>"
  have "sem_step (sem_start 1) (?s 1 [] 1 0)"
    using sem_step.enter [of "sem_start 1"] by (simp add: sem_start_def sem_new_def)
  moreover have "sem_step (?s 1 [] 1 0) (?s 0 [] 0 1)"
    using sem_step.take [of "?s 1 [] 1 0" True True 0 "\<lparr>count = 0, waiters = []\<rparr>"] by (simp add: down_section_def)
  moreover have "sem_step (?s 0 [] 0 1) (?s 0 [] 1 1)"
    using sem_step.enter [of "?s 0 [] 0 1"] by simp
  moreover have "sem_step (?s 0 [] 1 1) (?s 0 [1] 0 1)"
    using sem_step.sleep [of "?s 0 [] 1 1" True True 1 "\<lparr>count = 0, waiters = [1]\<rparr>"] by (simp add: down_section_def)
  ultimately show ?thesis by (metis rtranclp.rtrancl_into_rtrancl rtranclp.rtrancl_refl)
qed

theorem semaphore_safe_witness:
  "count (sem \<lparr>sem = \<lparr>count = 0, waiters = [1]\<rparr>, awake = 0, taken = 1, given = 0\<rparr>) = 1 + 0 - 1"
  using semaphore_safe [OF sample_sem_run] by simp

subsection \<open>Promise\<close>

record 'a PromiseState =
  value_of :: "'a option"
  pwaiters :: "tid list"

definition promise_new :: "'a PromiseState" where
  "promise_new = \<lparr>value_of = None, pwaiters = []\<rparr>"

definition promise_set :: "'a \<Rightarrow> 'a PromiseState \<Rightarrow> (unit, tid list \<times> 'a PromiseState) outcome" where
  "promise_set x st =
    (if value_of st \<noteq> None then Panic
     else Ok (pwaiters st, \<lparr>value_of = Some x, pwaiters = []\<rparr>))"

datatype 'a promise_attempt = Ready 'a | NotReady | Waiting

definition get_section :: "bool \<Rightarrow> bool \<Rightarrow> tid \<Rightarrow> 'a PromiseState \<Rightarrow> (unit, 'a promise_attempt \<times> 'a PromiseState) outcome" where
  "get_section yield_ok is_thread t st =
    (case value_of st of
       Some v \<Rightarrow> Ok (Ready v, st)
     | None \<Rightarrow>
         if \<not> yield_ok then Ok (NotReady, st)
         else if \<not> is_thread then Panic
         else Ok (Waiting, st\<lparr>pwaiters := pwaiters st @ [t]\<rparr>))"

text \<open>The sections of a run: sets with the value and gets with the thread.\<close>

inductive promise_step :: "'a PromiseState \<Rightarrow> 'a PromiseState \<Rightarrow> bool" where
  set_once: "promise_set x st = Ok (woken, st') \<Longrightarrow> promise_step st st'"
| get_once: "get_section y th t st = Ok (r, st') \<Longrightarrow> promise_step st st'"

lemma promise_step_value:
  assumes "promise_step st st'" "value_of st = Some v" "pwaiters st = []"
  shows "st' = st"
  using assms by cases (auto simp: promise_set_def get_section_def split: if_splits)

lemma promise_stable:
  assumes "promise_step\<^sup>*\<^sup>* st st'" "value_of st = Some v" "pwaiters st = []"
  shows "st' = st"
  using assms by (induction rule: rtranclp_induct) (auto dest: promise_step_value)

text \<open>
  A promise is written once: after a successful \<open>set\<close> all threads that waited
  are handed back for waking, in the order they came; in every later state of any
  run every \<open>get\<close> returns that value at once, nobody waits, and a second \<open>set\<close>
  panics.
\<close>

theorem promise_write_once:
  assumes "promise_set x st = Ok (woken, st1)" "promise_step\<^sup>*\<^sup>* st1 st2"
  shows "woken = pwaiters st \<and> get_section y th t st2 = Ok (Ready x, st2) \<and> pwaiters st2 = [] \<and>
    promise_set z st2 = Panic"
proof -
  have "st1 = \<lparr>value_of = Some x, pwaiters = []\<rparr>" "woken = pwaiters st"
    using assms(1) by (auto simp: promise_set_def split: if_splits)
  then show ?thesis using promise_stable [OF assms(2)] by (simp add: get_section_def promise_set_def)
qed

theorem promise_write_once_witness:
  "get_section False True 3 (\<lparr>value_of = Some (5 :: nat), pwaiters = []\<rparr>)
    = Ok (Ready 5, \<lparr>value_of = Some 5, pwaiters = []\<rparr>)"
  using promise_write_once [of "5 :: nat" "\<lparr>value_of = None, pwaiters = [4, 2]\<rparr>" "[4, 2]" "\<lparr>value_of = Some 5, pwaiters = []\<rparr>"
      "\<lparr>value_of = Some 5, pwaiters = []\<rparr>" False True 3 9]
  by (simp add: promise_set_def)

end
