(* ===== verification/Bounded_Buffer.thy ===== *)
theory Bounded_Buffer
  imports Semaphore
begin

section \<open>Bounded buffer\<close>

text \<open>
  Model of \<^verbatim>\<open>src/src/sync/bounded_buffer.rs\<close>: a ring of \<open>N\<close> slots between two
  semaphores. A slot that was never written, or was read out, is None; reading one
  is the undefined behaviour that the semaphores must exclude, and is a panic of
  the model. The transition system has every interleaving of the sections of any
  number of pushing and popping threads: it counts the threads between the
  semaphore and the ring, and records the values in the order the ring saw them.
\<close>

subsection \<open>The ring\<close>

record 'a BufferState =
  buffer :: "'a option list"
  head :: nat
  tail :: nat
  len :: nat

definition buffer_new :: "nat \<Rightarrow> 'a BufferState" where
  "buffer_new N = \<lparr>buffer = replicate N None, head = 0, tail = 0, len = 0\<rparr>"

definition push_section :: "nat \<Rightarrow> 'a \<Rightarrow> 'a BufferState \<Rightarrow> (unit, 'a BufferState) outcome" where
  "push_section N x st =
    (if \<not> len st < N \<or> length (buffer st) \<le> tail st then Panic
     else Ok (st\<lparr>buffer := (buffer st)[tail st := Some x], tail := (tail st + 1) mod N, len := len st + 1\<rparr>))"

definition pop_section :: "nat \<Rightarrow> 'a BufferState \<Rightarrow> (unit, 'a \<times> 'a BufferState) outcome" where
  "pop_section N st =
    (if \<not> 0 < len st \<or> length (buffer st) \<le> head st then Panic
     else case buffer st ! head st of
            None \<Rightarrow> Panic
          | Some x \<Rightarrow> Ok (x, st\<lparr>buffer := (buffer st)[head st := None], head := (head st + 1) mod N, len := len st - 1\<rparr>))"

fun drop_loop :: "nat \<Rightarrow> nat \<Rightarrow> nat \<Rightarrow> 'a option list \<Rightarrow> (unit, 'a list) outcome" where
  "drop_loop N idx 0 buf = Ok []"
| "drop_loop N idx (Suc n) buf =
    obind (index_get buf idx) (\<lambda>slot.
    obind (unwrap slot) (\<lambda>x.
    omap (Cons x) (drop_loop N ((idx + 1) mod N) n buf)))"

definition buffer_drop :: "nat \<Rightarrow> 'a BufferState \<Rightarrow> (unit, 'a list) outcome" where
  "buffer_drop N st = drop_loop N (head st) (len st) (buffer st)"

definition contents :: "nat \<Rightarrow> 'a BufferState \<Rightarrow> 'a list" where
  "contents N st = map (\<lambda>i. the (buffer st ! ((head st + i) mod N))) [0..<len st]"

definition ring_ok :: "nat \<Rightarrow> 'a BufferState \<Rightarrow> bool" where
  "ring_ok N st \<longleftrightarrow> 0 < N \<and> length (buffer st) = N \<and> head st < N \<and> len st \<le> N \<and> tail st = (head st + len st) mod N \<and>
    (\<forall>i<N. buffer st ! ((head st + i) mod N) \<noteq> None \<longleftrightarrow> i < len st)"

lemma mod_add_inj:
  assumes "i < N" "j < N" "(h + i) mod N = (h + j) mod (N :: nat)"
  shows "i = j"
proof -
  have le: "a = b" if "a \<le> b" "b < N" "(h + a) mod N = (h + b) mod N" for a b
  proof -
    have "N dvd (h + b) - (h + a)" using that by (metis mod_eq_dvd_iff_nat nat_add_left_cancel_le)
    then have "N dvd b - a" by simp
    then show ?thesis using that(1,2) by (metis diff_is_0_eq dvd_imp_le le_antisym less_imp_diff_less linorder_not_le neq0_conv)
  qed
  show ?thesis using le [of i j] le [of j i] assms by (cases "i \<le> j") auto
qed

lemma ring_ok_new: "0 < N \<Longrightarrow> ring_ok N (buffer_new N)"
  by (simp add: ring_ok_def buffer_new_def)

lemma push_section_ok:
  assumes "ring_ok N st" "len st < N"
  shows "\<exists>st'. push_section N x st = Ok st' \<and> ring_ok N st' \<and> len st' = len st + 1 \<and> contents N st' = contents N st @ [x]"
proof -
  let ?st = "st\<lparr>buffer := (buffer st)[tail st := Some x], tail := (tail st + 1) mod N, len := len st + 1\<rparr>"
  have r: "0 < N" "length (buffer st) = N" "head st < N" "tail st = (head st + len st) mod N" "tail st < N"
    "\<And>i. i < N \<Longrightarrow> buffer st ! ((head st + i) mod N) \<noteq> None \<longleftrightarrow> i < len st"
    using assms by (auto simp: ring_ok_def)
  have slot: "(head st + i) mod N = tail st \<longleftrightarrow> i = len st" if "i < N" for i
    using mod_add_inj [of i N "len st" "head st"] that assms(2) r(4) by auto
  have upd: "(buffer st)[tail st := Some x] ! ((head st + i) mod N)
      = (if i = len st then Some x else buffer st ! ((head st + i) mod N))" if "i < N" for i
    using slot [OF that] r(2,5) by (auto simp: nth_list_update)
  have "contents N ?st = contents N st @ [x]"
    using upd assms(2) by (auto simp: contents_def)
  moreover have "ring_ok N ?st"
    using r assms(2) upd by (auto simp: ring_ok_def mod_Suc_eq less_Suc_eq)
  moreover have "push_section N x st = Ok ?st" using assms(2) r(2,5) by (simp add: push_section_def)
  ultimately show ?thesis by auto
qed

lemma pop_section_ok:
  assumes "ring_ok N st" "0 < len st"
  shows "\<exists>x st'. pop_section N st = Ok (x, st') \<and> ring_ok N st' \<and> len st' = len st - 1 \<and> contents N st = x # contents N st'"
proof -
  have r: "0 < N" "length (buffer st) = N" "head st < N" "len st \<le> N"
    "\<And>i. i < N \<Longrightarrow> buffer st ! ((head st + i) mod N) \<noteq> None \<longleftrightarrow> i < len st"
    using assms by (auto simp: ring_ok_def)
  obtain x where x: "buffer st ! head st = Some x" using r(5) [of 0] r(1,3) assms(2) by auto
  let ?st = "st\<lparr>buffer := (buffer st)[head st := None], head := (head st + 1) mod N, len := len st - 1\<rparr>"
  have next_idx: "(Suc (head st) mod N + i) mod N = Suc (head st + i) mod N" for i by (simp add: mod_simps)
  have slot: "Suc (head st + i) mod N = head st \<longleftrightarrow> Suc i = N" if "i < N" for i
    using mod_add_inj [of "Suc i" N 0 "head st"] mod_add_self2 [of "head st" N] that r(1,3)
    by (cases "Suc i = N") (auto simp del: mod_add_self2)
  have upd: "(buffer st)[head st := None] ! (Suc (head st + i) mod N)
      = (if Suc i = N then None else buffer st ! (Suc (head st + i) mod N))" if "i < N" for i
    using slot [OF that] r(1-3) by (auto simp: nth_list_update)
  have "ring_ok N ?st"
    unfolding ring_ok_def
  proof (intro conjI allI impI)
    fix i assume i: "i < N"
    show "(buffer ?st ! ((head ?st + i) mod N) \<noteq> None) = (i < len ?st)"
      using upd [OF i] r(5) [of "Suc i"] i r(4) by (auto simp: next_idx)
  next
    have "tail st = Suc (head st + (len st - 1)) mod N" using assms by (simp add: ring_ok_def)
    then show "tail ?st = (head ?st + len ?st) mod N" by (simp only: next_idx [symmetric]) simp
  qed (use r in auto)
  moreover have "contents N st = x # contents N ?st"
  proof -
    have "[0..<len st] = 0 # map Suc [0..<len st - 1]"
      using assms(2) by (metis Suc_diff_1 map_Suc_upt upt_conv_Cons)
    then show ?thesis using x upd r(3,4) by (auto simp: contents_def next_idx)
  qed
  moreover have "pop_section N st = Ok (x, ?st)" using assms(2) r(2,3) x by (simp add: pop_section_def)
  ultimately show ?thesis by auto
qed

text \<open>Dropping the buffer reads the initialised slots, and only those, in order.\<close>

lemma drop_loop_reads:
  assumes "\<And>i. i < n \<Longrightarrow> (idx + i) mod N < length buf \<and> buf ! ((idx + i) mod N) \<noteq> None" "idx < N"
  shows "drop_loop N idx n buf = Ok (map (\<lambda>i. the (buf ! ((idx + i) mod N))) [0..<n])"
  using assms
proof (induction n arbitrary: idx)
  case (Suc n)
  have shift: "(Suc idx mod N + i) mod N = (idx + Suc i) mod N" for i by (simp add: mod_simps)
  have rest: "drop_loop N (Suc idx mod N) n buf = Ok (map (\<lambda>i. the (buf ! ((Suc idx mod N + i) mod N))) [0..<n])"
    by (rule Suc.IH) (use Suc.prems in \<open>auto simp: shift simp del: add_Suc_right\<close>)
  have split: "[0..<Suc n] = 0 # map Suc [0..<n]" by (metis map_Suc_upt upt_conv_Cons zero_less_Suc)
  obtain x where "idx < length buf" "buf ! idx = Some x" using Suc.prems(1) [of 0] Suc.prems(2) by auto
  then show ?case
    using rest Suc.prems(2) by (simp only: split) (simp add: shift o_def)
qed simp

lemma buffer_drop_contents:
  assumes "ring_ok N st"
  shows "buffer_drop N st = Ok (contents N st)"
  unfolding buffer_drop_def contents_def
  by (rule drop_loop_reads) (use assms in \<open>auto simp: ring_ok_def\<close>)

subsection \<open>All interleavings of pushes and pops\<close>

text \<open>The counters are the threads that took a space and have not written yet, wrote
  and have not announced the item yet, took an item and have not read yet, and read
  and have not returned the space yet.\<close>

record 'a BoundedBuffer =
  ring :: "'a BufferState"
  items :: SemState
  spaces :: SemState
  writing :: nat
  announcing :: nat
  reading :: nat
  returning :: nat
  pushed :: "'a list"
  popped :: "'a list"

definition bounded_new :: "nat \<Rightarrow> 'a BoundedBuffer" where
  "bounded_new N = \<lparr>ring = buffer_new N, items = sem_new 0, spaces = sem_new N,
     writing = 0, announcing = 0, reading = 0, returning = 0, pushed = [], popped = []\<rparr>"

inductive bounded_step :: "nat \<Rightarrow> 'a BoundedBuffer \<Rightarrow> 'a BoundedBuffer \<Rightarrow> bool" for N where
  push_take: "down_section y th t (spaces s) = Ok (Acquired, st) \<Longrightarrow>
    bounded_step N s (s\<lparr>spaces := st, writing := writing s + 1\<rparr>)"
| push_wait: "down_section y th t (spaces s) = Ok (r, st) \<Longrightarrow> r \<noteq> Acquired \<Longrightarrow> bounded_step N s (s\<lparr>spaces := st\<rparr>)"
| push_write: "0 < writing s \<Longrightarrow> push_section N x (ring s) = Ok b \<Longrightarrow>
    bounded_step N s (s\<lparr>ring := b, writing := writing s - 1, announcing := announcing s + 1, pushed := pushed s @ [x]\<rparr>)"
| push_up: "0 < announcing s \<Longrightarrow> up (items s) = Ok (w, st) \<Longrightarrow>
    bounded_step N s (s\<lparr>items := st, announcing := announcing s - 1\<rparr>)"
| pop_take: "down_section y th t (items s) = Ok (Acquired, st) \<Longrightarrow>
    bounded_step N s (s\<lparr>items := st, reading := reading s + 1\<rparr>)"
| pop_wait: "down_section y th t (items s) = Ok (r, st) \<Longrightarrow> r \<noteq> Acquired \<Longrightarrow> bounded_step N s (s\<lparr>items := st\<rparr>)"
| pop_read: "0 < reading s \<Longrightarrow> pop_section N (ring s) = Ok (x, b) \<Longrightarrow>
    bounded_step N s (s\<lparr>ring := b, reading := reading s - 1, returning := returning s + 1, popped := popped s @ [x]\<rparr>)"
| pop_up: "0 < returning s \<Longrightarrow> up (spaces s) = Ok (w, st) \<Longrightarrow>
    bounded_step N s (s\<lparr>spaces := st, returning := returning s - 1\<rparr>)"

definition bounded_inv :: "nat \<Rightarrow> 'a BoundedBuffer \<Rightarrow> bool" where
  "bounded_inv N s \<longleftrightarrow> ring_ok N (ring s) \<and>
    count (spaces s) + writing s + len (ring s) + returning s = N \<and>
    count (items s) + announcing s + reading s = len (ring s) \<and>
    pushed s = popped s @ contents N (ring s)"

lemma bounded_inv_new: "0 < N \<Longrightarrow> bounded_inv N (bounded_new N)"
  using ring_ok_new [of N] by (auto simp: bounded_inv_def bounded_new_def sem_new_def buffer_new_def contents_def)

lemma bounded_inv_write:
  assumes "bounded_inv N s" "0 < writing s"
  shows "\<exists>b. push_section N x (ring s) = Ok b \<and> bounded_inv N
    (s\<lparr>ring := b, writing := writing s - 1, announcing := announcing s + 1, pushed := pushed s @ [x]\<rparr>)"
  using push_section_ok [of N "ring s" x] assms by (auto simp: bounded_inv_def)

lemma bounded_inv_read:
  assumes "bounded_inv N s" "0 < reading s"
  shows "\<exists>x b. pop_section N (ring s) = Ok (x, b) \<and> bounded_inv N
    (s\<lparr>ring := b, reading := reading s - 1, returning := returning s + 1, popped := popped s @ [x]\<rparr>)"
  using pop_section_ok [of N "ring s"] assms by (auto simp: bounded_inv_def)

lemma bounded_inv_step:
  assumes "bounded_step N s s'" "bounded_inv N s"
  shows "bounded_inv N s'"
  using assms
proof cases
  case (push_write x b)
  then show ?thesis using bounded_inv_write [OF assms(2), of x] by auto
next
  case (pop_read x b)
  then show ?thesis using bounded_inv_read [OF assms(2)] by auto
qed (use assms(2) in \<open>auto simp: bounded_inv_def dest!: down_section_cases up_cases\<close>)

lemma bounded_inv_reachable:
  assumes "(bounded_step N)\<^sup>*\<^sup>* (bounded_new N) s" "0 < N"
  shows "bounded_inv N s"
  using assms by (induction rule: rtranclp_induct) (auto intro: bounded_inv_step bounded_inv_new)

lemma up_fits: "count st < USIZE_MAX \<Longrightarrow> \<exists>w st'. up st = Ok (w, st')"
  by (auto simp: up_def split: list.splits)

text \<open>
  C34. The bounded buffer is a FIFO queue of capacity \<open>N\<close> under every interleaving of
  any number of producers and consumers: what was pushed is what was popped followed
  by the contents of the ring, in order; the ring never holds more than \<open>N\<close> values; a
  thread that passed its semaphore always finds its slot (the assertions hold, no
  uninitialised slot is read); returning a permit cannot overflow; and dropping the
  buffer at that point drops exactly the values not yet popped.
\<close>

theorem bounded_buffer_fifo:
  assumes "(bounded_step N)\<^sup>*\<^sup>* (bounded_new N) s" "0 < N" "N < USIZE_MAX"
  shows "pushed s = popped s @ contents N (ring s) \<and> len (ring s) \<le> N \<and>
    (0 < writing s \<longrightarrow> is_ok (push_section N x (ring s))) \<and> (0 < reading s \<longrightarrow> is_ok (pop_section N (ring s))) \<and>
    is_ok (up (items s)) \<and> is_ok (up (spaces s)) \<and> buffer_drop N (ring s) = Ok (contents N (ring s))"
proof -
  have inv: "bounded_inv N s" using bounded_inv_reachable assms by blast
  then have "count (items s) < USIZE_MAX" "count (spaces s) < USIZE_MAX"
    using assms(3) by (auto simp: bounded_inv_def)
  then show ?thesis
    using inv bounded_inv_write [OF inv] bounded_inv_read [OF inv] buffer_drop_contents up_fits
    unfolding bounded_inv_def is_ok_iff ring_ok_def by (metis surj_pair)
qed

text \<open>A run over a ring of two slots: one producer has written 5 and not yet announced it.\<close>

definition sample_bounded :: "nat BoundedBuffer" where
  "sample_bounded = \<lparr>ring = \<lparr>buffer = [Some 5, None], head = 0, tail = 1, len = 1\<rparr>, items = sem_new 0, spaces = sem_new 1,
     writing = 0, announcing = 1, reading = 0, returning = 0, pushed = [5], popped = []\<rparr>"

lemma sample_bounded_run: "(bounded_step 2)\<^sup>*\<^sup>* (bounded_new 2) sample_bounded"
proof -
  let ?s = "bounded_new 2 :: nat BoundedBuffer"
  let ?s1 = "?s\<lparr>spaces := sem_new 1, writing := 1\<rparr>"
  have "bounded_step 2 ?s ?s1"
    using bounded_step.push_take [of False False 0 ?s "sem_new 1" 2]
    by (simp add: bounded_new_def sem_new_def down_section_def)
  moreover have "bounded_step 2 ?s1 sample_bounded"
    using bounded_step.push_write [of ?s1 2 5 "\<lparr>buffer = [Some 5, None], head = 0, tail = 1, len = 1\<rparr>"]
    by (simp add: bounded_new_def sample_bounded_def push_section_def buffer_new_def numeral_2_eq_2)
  ultimately show ?thesis by (metis rtranclp.rtrancl_into_rtrancl rtranclp.rtrancl_refl)
qed

theorem bounded_buffer_fifo_witness:
  "pushed sample_bounded = popped sample_bounded @ contents 2 (ring sample_bounded) \<and>
    buffer_drop 2 (ring sample_bounded) = Ok (contents 2 (ring sample_bounded))"
  using bounded_buffer_fifo [OF sample_bounded_run] by (simp add: USIZE_MAX_def)

end
