(* ===== verification/Rw_Lock.thy ===== *)
theory Rw_Lock
  imports Semaphore
begin

section \<open>Reader-writer lock\<close>

text \<open>
  Model of \<^verbatim>\<open>src/src/sync/rwlock.rs\<close>. As for the semaphore, each critical section of
  the state lock is one function; what \<open>can_yield\<close> and \<open>is_on_thread\<close> returned are
  arguments. The transition system counts the threads that hold the lock and those
  awake inside \<open>read_lock\<close> and \<open>write_lock\<close>, the writers split by their local
  variable \<open>registered_waiter\<close>.
\<close>

record RwState =
  readers :: nat
  writer_active :: bool
  waiting_writers :: nat
  read_wait :: "tid list"
  write_wait :: "tid list"

definition rw_new :: RwState where
  "rw_new = \<lparr>readers = 0, writer_active = False, waiting_writers = 0, read_wait = [], write_wait = []\<rparr>"

definition read_section :: "bool \<Rightarrow> bool \<Rightarrow> tid \<Rightarrow> RwState \<Rightarrow> (unit, attempt \<times> RwState) outcome" where
  "read_section yield_ok is_thread t st =
    (if \<not> writer_active st \<and> waiting_writers st = 0
     then omap (\<lambda>r. (Acquired, st\<lparr>readers := r\<rparr>)) (uadd (readers st) 1)
     else if \<not> yield_ok then Ok (Spin, st)
     else if \<not> is_thread then Panic
     else Ok (Suspended, st\<lparr>read_wait := read_wait st @ [t]\<rparr>))"

definition write_section ::
  "bool \<Rightarrow> bool \<Rightarrow> tid \<Rightarrow> bool \<Rightarrow> RwState \<Rightarrow> (unit, attempt \<times> RwState) outcome" where
  "write_section yield_ok is_thread t registered st =
    (if \<not> writer_active st \<and> readers st = 0
     then omap (\<lambda>w. (Acquired, st\<lparr>writer_active := True, waiting_writers := w\<rparr>))
            (if registered then usub (waiting_writers st) 1 else Ok (waiting_writers st))
     else obind (if registered then Ok (waiting_writers st) else uadd (waiting_writers st) 1) (\<lambda>w.
          let st1 = st\<lparr>waiting_writers := w\<rparr>
          in if \<not> yield_ok then Ok (Spin, st1)
             else if \<not> is_thread then Panic
             else Ok (Suspended, st1\<lparr>write_wait := write_wait st @ [t]\<rparr>)))"

definition read_unlock :: "RwState \<Rightarrow> (unit, tid option \<times> RwState) outcome" where
  "read_unlock st =
    (if readers st = 0 then Panic
     else let st1 = st\<lparr>readers := readers st - 1\<rparr>
          in if readers st1 = 0 \<and> 0 < waiting_writers st1
             then case write_wait st1 of
                    [] \<Rightarrow> Ok (None, st1)
                  | t # ts \<Rightarrow> Ok (Some t, st1\<lparr>write_wait := ts\<rparr>)
             else Ok (None, st1))"

definition write_unlock :: "RwState \<Rightarrow> (unit, tid option \<times> tid list \<times> RwState) outcome" where
  "write_unlock st =
    (if \<not> writer_active st then Panic
     else let st1 = st\<lparr>writer_active := False\<rparr>
          in if 0 < waiting_writers st1
             then case write_wait st1 of
                    [] \<Rightarrow> Ok (None, [], st1)
                  | t # ts \<Rightarrow> Ok (Some t, [], st1\<lparr>write_wait := ts\<rparr>)
             else Ok (None, read_wait st1, st1\<lparr>read_wait := []\<rparr>))"

subsection \<open>All interleavings\<close>

record rw_sys =
  rw :: RwState
  rd_try :: nat
  wr_try :: nat
  wr_reg :: nat
  rd_hold :: nat
  wr_hold :: nat

definition rw_start :: rw_sys where
  "rw_start = \<lparr>rw = rw_new, rd_try = 0, wr_try = 0, wr_reg = 0, rd_hold = 0, wr_hold = 0\<rparr>"

inductive rw_step :: "rw_sys \<Rightarrow> rw_sys \<Rightarrow> bool" where
  read_enter: "rw_step s (s\<lparr>rd_try := rd_try s + 1\<rparr>)"
| read_take: "0 < rd_try s \<Longrightarrow> read_section y th t (rw s) = Ok (Acquired, st) \<Longrightarrow>
    rw_step s (s\<lparr>rw := st, rd_try := rd_try s - 1, rd_hold := rd_hold s + 1\<rparr>)"
| read_spin: "0 < rd_try s \<Longrightarrow> read_section y th t (rw s) = Ok (Spin, st) \<Longrightarrow> rw_step s (s\<lparr>rw := st\<rparr>)"
| read_sleep: "0 < rd_try s \<Longrightarrow> read_section y th t (rw s) = Ok (Suspended, st) \<Longrightarrow>
    rw_step s (s\<lparr>rw := st, rd_try := rd_try s - 1\<rparr>)"
| write_enter: "rw_step s (s\<lparr>wr_try := wr_try s + 1\<rparr>)"
| write_take: "0 < wr_try s \<Longrightarrow> write_section y th t False (rw s) = Ok (Acquired, st) \<Longrightarrow>
    rw_step s (s\<lparr>rw := st, wr_try := wr_try s - 1, wr_hold := wr_hold s + 1\<rparr>)"
| write_spin: "0 < wr_try s \<Longrightarrow> write_section y th t False (rw s) = Ok (Spin, st) \<Longrightarrow>
    rw_step s (s\<lparr>rw := st, wr_try := wr_try s - 1, wr_reg := wr_reg s + 1\<rparr>)"
| write_sleep: "0 < wr_try s \<Longrightarrow> write_section y th t False (rw s) = Ok (Suspended, st) \<Longrightarrow>
    rw_step s (s\<lparr>rw := st, wr_try := wr_try s - 1\<rparr>)"
| retake: "0 < wr_reg s \<Longrightarrow> write_section y th t True (rw s) = Ok (Acquired, st) \<Longrightarrow>
    rw_step s (s\<lparr>rw := st, wr_reg := wr_reg s - 1, wr_hold := wr_hold s + 1\<rparr>)"
| respin: "0 < wr_reg s \<Longrightarrow> write_section y th t True (rw s) = Ok (Spin, st) \<Longrightarrow> rw_step s (s\<lparr>rw := st\<rparr>)"
| resleep: "0 < wr_reg s \<Longrightarrow> write_section y th t True (rw s) = Ok (Suspended, st) \<Longrightarrow>
    rw_step s (s\<lparr>rw := st, wr_reg := wr_reg s - 1\<rparr>)"
| read_done: "0 < rd_hold s \<Longrightarrow> read_unlock (rw s) = Ok (w, st) \<Longrightarrow>
    rw_step s (s\<lparr>rw := st, rd_hold := rd_hold s - 1, wr_reg := wr_reg s + (if w = None then 0 else 1)\<rparr>)"
| write_done: "0 < wr_hold s \<Longrightarrow> write_unlock (rw s) = Ok (w, rs, st) \<Longrightarrow>
    rw_step s (s\<lparr>rw := st, wr_hold := wr_hold s - 1, wr_reg := wr_reg s + (if w = None then 0 else 1),
      rd_try := rd_try s + length rs\<rparr>)"

definition rw_hold_inv :: "rw_sys \<Rightarrow> bool" where
  "rw_hold_inv s \<longleftrightarrow> readers (rw s) = rd_hold s \<and> wr_hold s = (if writer_active (rw s) then 1 else 0) \<and>
    (writer_active (rw s) \<longrightarrow> readers (rw s) = 0) \<and>
    waiting_writers (rw s) = wr_reg s + length (write_wait (rw s))"

definition rw_wake_inv :: "rw_sys \<Rightarrow> bool" where
  "rw_wake_inv s \<longleftrightarrow> (read_wait (rw s) \<noteq> [] \<longrightarrow> writer_active (rw s) \<or> 0 < waiting_writers (rw s)) \<and>
    (write_wait (rw s) \<noteq> [] \<longrightarrow> writer_active (rw s) \<or> 0 < readers (rw s) \<or> 0 < wr_reg s)"

lemma read_section_cases:
  assumes "read_section y th t st = Ok (r, st')"
  shows "(r = Acquired \<and> \<not> writer_active st \<and> waiting_writers st = 0 \<and> st' = st\<lparr>readers := readers st + 1\<rparr>) \<or>
    ((writer_active st \<or> 0 < waiting_writers st) \<and>
      ((r = Spin \<and> st' = st) \<or> (r = Suspended \<and> st' = st\<lparr>read_wait := read_wait st @ [t]\<rparr>)))"
  using assms by (auto simp: read_section_def outcome_simps split: if_splits)

lemma write_section_cases:
  assumes "write_section y th t g st = Ok (r, st')"
  shows "(r = Acquired \<and> \<not> writer_active st \<and> readers st = 0 \<and> (g \<longrightarrow> 0 < waiting_writers st) \<and>
      st' = st\<lparr>writer_active := True, waiting_writers := waiting_writers st - (if g then 1 else 0)\<rparr>) \<or>
    ((writer_active st \<or> 0 < readers st) \<and>
      ((r = Spin \<and> st' = st\<lparr>waiting_writers := waiting_writers st + (if g then 0 else 1)\<rparr>) \<or>
       (r = Suspended \<and> st' = st\<lparr>waiting_writers := waiting_writers st + (if g then 0 else 1),
          write_wait := write_wait st @ [t]\<rparr>)))"
  using assms by (auto simp: write_section_def Let_def outcome_simps split: if_splits)

lemma read_unlock_cases:
  assumes "read_unlock st = Ok (w, st')"
  shows "0 < readers st \<and> (if readers st = 1 \<and> 0 < waiting_writers st \<and> write_wait st \<noteq> []
    then w \<noteq> None \<and> st' = st\<lparr>readers := 0, write_wait := tl (write_wait st)\<rparr>
    else w = None \<and> st' = st\<lparr>readers := readers st - 1\<rparr>)"
  using assms by (auto simp: read_unlock_def Let_def split: if_splits list.splits)

lemma write_unlock_cases:
  assumes "write_unlock st = Ok (w, rs, st')"
  shows "writer_active st \<and> (if waiting_writers st = 0
    then w = None \<and> rs = read_wait st \<and> st' = st\<lparr>writer_active := False, read_wait := []\<rparr>
    else rs = [] \<and> (w = None \<longleftrightarrow> write_wait st = []) \<and> st' = st\<lparr>writer_active := False, write_wait := tl (write_wait st)\<rparr>)"
  using assms by (auto simp: write_unlock_def Let_def split: if_splits list.splits)

lemma rw_hold_inv_step:
  assumes "rw_step s s'" "rw_hold_inv s"
  shows "rw_hold_inv s'"
  using assms
proof cases
  case (read_done w st)
  then show ?thesis using read_unlock_cases [OF read_done(3)] assms(2)
    by (cases "write_wait (rw s)") (auto simp: rw_hold_inv_def split: if_splits)
next
  case (write_done w rs st)
  then show ?thesis using write_unlock_cases [OF write_done(3)] assms(2)
    by (cases "write_wait (rw s)") (auto simp: rw_hold_inv_def split: if_splits)
qed (use assms(2) in \<open>auto simp: rw_hold_inv_def dest!: read_section_cases write_section_cases split: if_splits\<close>)

lemma rw_wake_inv_step:
  assumes "rw_step s s'" "rw_hold_inv s" "rw_wake_inv s"
  shows "rw_wake_inv s'"
  using assms(1)
proof cases
  case (read_done w st)
  then show ?thesis using read_unlock_cases [OF read_done(3)] assms(2,3)
    by (auto simp: rw_hold_inv_def rw_wake_inv_def split: if_splits)
next
  case (write_done w rs st)
  then show ?thesis using write_unlock_cases [OF write_done(3)] assms(2,3)
    by (auto simp: rw_hold_inv_def rw_wake_inv_def split: if_splits)
qed (use assms(2,3) in \<open>auto simp: rw_hold_inv_def rw_wake_inv_def dest!: read_section_cases write_section_cases split: if_splits\<close>)

lemma rw_inv_reachable:
  assumes "rw_step\<^sup>*\<^sup>* rw_start s"
  shows "rw_hold_inv s \<and> rw_wake_inv s"
  using assms
proof (induction rule: rtranclp_induct)
  case base
  then show ?case by (simp add: rw_hold_inv_def rw_wake_inv_def rw_start_def rw_new_def)
next
  case (step s s')
  then show ?case using rw_hold_inv_step rw_wake_inv_step by blast
qed

text \<open>
  C35. Exclusion, writer preference and no lost wake-up of the reader-writer lock,
  for every interleaving: at most one writer holds it and then no reader does; while
  a writer waits no reader gets in; the assertions of both unlocks hold; and when no
  thread holds the lock or is awake inside it, no thread sleeps in its queues.
\<close>

theorem rw_lock_safe:
  assumes "rw_step\<^sup>*\<^sup>* rw_start s"
  shows "wr_hold s \<le> 1 \<and> (wr_hold s = 1 \<longrightarrow> rd_hold s = 0) \<and>
    (0 < wr_reg s + length (write_wait (rw s)) \<longrightarrow> read_section y th t (rw s) \<noteq> Ok (Acquired, st)) \<and>
    (0 < rd_hold s \<longrightarrow> is_ok (read_unlock (rw s))) \<and> (0 < wr_hold s \<longrightarrow> is_ok (write_unlock (rw s))) \<and>
    (rd_hold s = 0 \<and> wr_hold s = 0 \<and> rd_try s = 0 \<and> wr_reg s = 0 \<longrightarrow>
      read_wait (rw s) = [] \<and> write_wait (rw s) = [])"
proof -
  have inv: "rw_hold_inv s" "rw_wake_inv s" using rw_inv_reachable [OF assms] by blast+
  have "read_section y th t (rw s) \<noteq> Ok (Acquired, st)" if "0 < wr_reg s + length (write_wait (rw s))"
    using that inv(1) by (auto simp: rw_hold_inv_def dest: read_section_cases)
  moreover have "is_ok (read_unlock (rw s))" if "0 < rd_hold s"
    using that inv(1) by (auto simp: rw_hold_inv_def read_unlock_def Let_def split: list.splits)
  moreover have "is_ok (write_unlock (rw s))" if "0 < wr_hold s"
    using that inv(1) by (auto simp: rw_hold_inv_def write_unlock_def Let_def split: list.splits if_splits)
  ultimately show ?thesis using inv by (auto simp: rw_hold_inv_def rw_wake_inv_def split: if_splits)
qed

text \<open>A run: a reader holds the lock and a writer goes to sleep behind it.\<close>

definition sample_rw :: rw_sys where
  "sample_rw = \<lparr>rw = \<lparr>readers = 1, writer_active = False, waiting_writers = 1, read_wait = [], write_wait = [9]\<rparr>,
     rd_try = 0, wr_try = 0, wr_reg = 0, rd_hold = 1, wr_hold = 0\<rparr>"

lemma sample_rw_run: "rw_step\<^sup>*\<^sup>* rw_start sample_rw"
proof -
  let ?s1 = "rw_start\<lparr>rd_try := 1\<rparr>"
  let ?s2 = "rw_start\<lparr>rw := rw_new\<lparr>readers := 1\<rparr>, rd_hold := 1\<rparr>"
  have "rw_step rw_start ?s1" using rw_step.read_enter [of rw_start] by (simp add: rw_start_def)
  moreover have "rw_step ?s1 ?s2"
    using rw_step.read_take [of ?s1 True True 3 "rw_new\<lparr>readers := 1\<rparr>"]
    by (simp add: rw_start_def rw_new_def read_section_def USIZE_MAX_def)
  moreover have "rw_step ?s2 (?s2\<lparr>wr_try := 1\<rparr>)"
    using rw_step.write_enter [of ?s2] by (simp add: rw_start_def)
  moreover have "rw_step (?s2\<lparr>wr_try := 1\<rparr>) sample_rw"
    using rw_step.write_sleep [of "?s2\<lparr>wr_try := 1\<rparr>" True True 9 "rw sample_rw"]
    by (simp add: rw_start_def rw_new_def write_section_def sample_rw_def USIZE_MAX_def)
  ultimately show ?thesis by (metis rtranclp.rtrancl_into_rtrancl rtranclp.rtrancl_refl)
qed

theorem rw_lock_safe_witness:
  "wr_hold sample_rw \<le> 1 \<and> is_ok (read_unlock (rw sample_rw)) \<and>
    read_section True True 4 (rw sample_rw) \<noteq> Ok (Acquired, rw_new)"
  using rw_lock_safe [OF sample_rw_run, of True True 4 rw_new] by (simp add: sample_rw_def)

end
