(* ===== verification/Scheduler.thy ===== *)
theory Scheduler
  imports Locks "HOL-Library.Multiset"
begin

section \<open>Thread scheduler\<close>

text \<open>
  Model of the scheduling part of \<^verbatim>\<open>src/src/thread.rs\<close>, with the thread side of
  \<^verbatim>\<open>src/src/event.rs\<close> and the timer and trap entries of
  \<^verbatim>\<open>src/src/arch/x86_64/interrupt.rs\<close>. The state has the core-local and global queues
  and the thread-local flags that scheduling reads. The idle thread of a core is
  never queued and is its own constructor; saving and restoring register contexts
  is not modelled. Each rule of the step relation is the effect of one call on
  core \<open>c\<close>; calls of different cores interleave freely. The wait queues are those of
  the locks of the kernel, numbered.
\<close>

subsection \<open>State\<close>

datatype runner = Idle | Run tid

record SleepState =
  sleeper :: tid
  wakeup_tick :: nat

record Sched =
  ncores :: nat
  nqueues :: nat
  mp_stage_preempt :: bool
  running :: "nat \<Rightarrow> runner"
  local_work_queue :: "nat \<Rightarrow> tid list"
  global_work_queue :: "tid list"
  sleep_queue :: "nat \<Rightarrow> SleepState list"
  event_thread_queue :: "nat \<Rightarrow> tid list"
  handling :: "nat \<Rightarrow> tid list"
  wait_queue :: "nat \<Rightarrow> tid list"
  ticks :: "nat \<Rightarrow> nat"
  pinned :: "tid \<Rightarrow> bool"
  core_pinned_to :: "tid \<Rightarrow> nat"
  yield_flag :: "tid \<Rightarrow> bool"
  home :: "tid \<Rightarrow> nat"
  live :: "tid set"

text \<open>The last two fields are not in the code: the core on which a thread was pinned, and
  the threads spawned and not yet ended. The core state that \<open>can_yield_for_preempt\<close>
  reads; the idle thread is a thread whose flag is never set.\<close>

definition cpu_view :: "nat \<Rightarrow> Sched \<Rightarrow> Cpu" where
  "cpu_view c s = \<lparr>irq_enabled = False, mp_preempt = mp_stage_preempt s, on_thread = True,
     thread_can_yield = (case running s c of Idle \<Rightarrow> False | Run t \<Rightarrow> yield_flag s t),
     pinned_to_core = (case running s c of Idle \<Rightarrow> False | Run t \<Rightarrow> pinned s t)\<rparr>"

subsection \<open>Operations\<close>

abbreviation push :: "nat \<Rightarrow> 'a \<Rightarrow> (nat \<Rightarrow> 'a list) \<Rightarrow> nat \<Rightarrow> 'a list" where
  "push c x q \<equiv> q(c := q c @ [x])"

definition schedule_thread :: "nat \<Rightarrow> tid \<Rightarrow> Sched \<Rightarrow> (unit, Sched) outcome" where
  "schedule_thread c t s =
    (if pinned s t
     then (if core_pinned_to s t < ncores s
           then Ok (s\<lparr>local_work_queue := push (core_pinned_to s t) t (local_work_queue s)\<rparr>)
           else Panic)
     else Ok (s\<lparr>local_work_queue := push c t (local_work_queue s)\<rparr>))"

definition spawn_thread :: "tid \<Rightarrow> Sched \<Rightarrow> Sched" where
  "spawn_thread t s = s\<lparr>global_work_queue := global_work_queue s @ [t], yield_flag := (yield_flag s)(t := True),
     pinned := (pinned s)(t := False), core_pinned_to := (core_pinned_to s)(t := USIZE_MAX), live := insert t (live s)\<rparr>"

text \<open>Leaving a thread: its target is the idle thread everywhere but in \<open>poll_tasks\<close>, which
  is the idle thread itself going to a thread.\<close>

definition note_pinned_core :: "nat \<Rightarrow> tid \<Rightarrow> Sched \<Rightarrow> Sched" where
  "note_pinned_core c t s = (if pinned s t then s\<lparr>core_pinned_to := (core_pinned_to s)(t := c)\<rparr> else s)"

definition yield_thread :: "nat \<Rightarrow> Sched \<Rightarrow> Sched" where
  "yield_thread c s =
    (case running s c of
       Idle \<Rightarrow> s
     | Run t \<Rightarrow>
         let s1 = note_pinned_core c t s;
             s2 = (if pinned s t then s1\<lparr>local_work_queue := push c t (local_work_queue s1)\<rparr>
                   else s1\<lparr>global_work_queue := global_work_queue s1 @ [t]\<rparr>)
         in s2\<lparr>running := (running s2)(c := Idle)\<rparr>)"

definition suspend_to_queue :: "nat \<Rightarrow> nat \<Rightarrow> Sched \<Rightarrow> Sched" where
  "suspend_to_queue c q s =
    (case running s c of
       Idle \<Rightarrow> s
     | Run t \<Rightarrow>
         let s1 = note_pinned_core c t s
         in s1\<lparr>wait_queue := push q t (wait_queue s1), running := (running s1)(c := Idle)\<rparr>)"

definition suspend_to_queue_if :: "nat \<Rightarrow> nat \<Rightarrow> bool \<Rightarrow> Sched \<Rightarrow> Sched" where
  "suspend_to_queue_if c q condition s =
    (case running s c of
       Idle \<Rightarrow> s
     | Run t \<Rightarrow> if \<not> condition then note_pinned_core c t s else suspend_to_queue c q s)"

definition end_thread :: "nat \<Rightarrow> Sched \<Rightarrow> Sched" where
  "end_thread c s =
    (case running s c of
       Idle \<Rightarrow> s
     | Run t \<Rightarrow> s\<lparr>running := (running s)(c := Idle), live := live s - {t}\<rparr>)"

definition poll_local :: "nat \<Rightarrow> Sched \<Rightarrow> Sched" where
  "poll_local c s =
    (case local_work_queue s c of
       [] \<Rightarrow> s
     | t # ts \<Rightarrow>
         let s1 = s\<lparr>local_work_queue := (local_work_queue s)(c := ts)\<rparr>
         in if pinned s t then s1\<lparr>running := (running s1)(c := Run t)\<rparr>
            else s1\<lparr>global_work_queue := global_work_queue s1 @ [t]\<rparr>)"

definition poll_global :: "nat \<Rightarrow> Sched \<Rightarrow> Sched" where
  "poll_global c s =
    (case global_work_queue s of
       [] \<Rightarrow> s
     | t # ts \<Rightarrow> s\<lparr>global_work_queue := ts, running := (running s)(c := Run t)\<rparr>)"

definition preempt_to_idle :: "nat \<Rightarrow> bool \<Rightarrow> Sched \<Rightarrow> Sched" where
  "preempt_to_idle c requeue s =
    (case running s c of
       Idle \<Rightarrow> s
     | Run t \<Rightarrow>
         if can_yield_for_preempt (cpu_view c s)
         then let s1 = (if requeue then s\<lparr>local_work_queue := push c t (local_work_queue s)\<rparr> else s)
              in s1\<lparr>running := (running s1)(c := Idle)\<rparr>
         else s)"

definition push_event :: "nat \<Rightarrow> Sched \<Rightarrow> Sched" where
  "push_event c s =
    (case running s c of
       Idle \<Rightarrow> s
     | Run t \<Rightarrow> s\<lparr>event_thread_queue := push c t (event_thread_queue s)\<rparr>)"

text \<open>A system call or page fault: the thread is queued for the event handler of the core,
  and the core goes to idle.\<close>

definition trap :: "nat \<Rightarrow> Sched \<Rightarrow> Sched" where
  "trap c s = preempt_to_idle c False (push_event c s)"

subsection \<open>Sleeping\<close>

definition TIMER_HZ :: nat where
  "TIMER_HZ = 1000"

definition saturating_add :: "nat \<Rightarrow> nat \<Rightarrow> nat" where
  "saturating_add a b = min (a + b) USIZE_MAX"

definition saturating_mul :: "nat \<Rightarrow> nat \<Rightarrow> nat" where
  "saturating_mul a b = min (a * b) USIZE_MAX"

fun sleep_insert :: "SleepState \<Rightarrow> SleepState list \<Rightarrow> SleepState list" where
  "sleep_insert x [] = [x]"
| "sleep_insert x (y # ys) = (if wakeup_tick x < wakeup_tick y then x # y # ys else y # sleep_insert x ys)"

definition sleep :: "nat \<Rightarrow> tid \<Rightarrow> nat \<Rightarrow> Sched \<Rightarrow> Sched" where
  "sleep c t duration_ms s =
    (let duration_ticks = div_ceil (saturating_mul duration_ms TIMER_HZ) 1000;
         x = \<lparr>sleeper = t, wakeup_tick = saturating_add (ticks s c) duration_ticks\<rparr>
     in s\<lparr>sleep_queue := (sleep_queue s)(c := sleep_insert x (sleep_queue s c))\<rparr>)"

fun wake_loop :: "nat \<Rightarrow> nat \<Rightarrow> SleepState list \<Rightarrow> Sched \<Rightarrow> (unit, SleepState list \<times> Sched) outcome" where
  "wake_loop c current_tick [] s = Ok ([], s)"
| "wake_loop c current_tick (x # xs) s =
    (if wakeup_tick x \<le> current_tick
     then obind (schedule_thread c (sleeper x) s) (wake_loop c current_tick xs)
     else Ok (x # xs, s))"

definition wakeup_sleepers :: "nat \<Rightarrow> Sched \<Rightarrow> (unit, Sched) outcome" where
  "wakeup_sleepers c s =
    omap (\<lambda>(queue, s'). s'\<lparr>sleep_queue := (sleep_queue s')(c := queue)\<rparr>)
      (wake_loop c (ticks s c) (sleep_queue s c) s)"

definition timer_interrupt_handler :: "nat \<Rightarrow> Sched \<Rightarrow> (unit, Sched) outcome" where
  "timer_interrupt_handler c s =
    omap (preempt_to_idle c True) (wakeup_sleepers c (s\<lparr>ticks := (ticks s)(c := wrapping_add (ticks s c) 1)\<rparr>))"

subsection \<open>Steps\<close>

text \<open>\<open>ok\<close> restricts the threads that may trap. A trap needs a thread that can be
  preempted; the event handler of a core takes a queued thread in hand and then
  makes it runnable, puts it to sleep or drops it.\<close>

inductive sched_step :: "(Sched \<Rightarrow> tid \<Rightarrow> bool) \<Rightarrow> Sched \<Rightarrow> Sched \<Rightarrow> bool" for ok where
  spawn: "t \<notin> live s \<Longrightarrow> sched_step ok s (spawn_thread t s)"
| yield: "c < ncores s \<Longrightarrow> sched_step ok s (yield_thread c s)"
| suspend: "c < ncores s \<Longrightarrow> q < nqueues s \<Longrightarrow> sched_step ok s (suspend_to_queue_if c q b s)"
| finish: "c < ncores s \<Longrightarrow> sched_step ok s (end_thread c s)"
| poll_own: "c < ncores s \<Longrightarrow> running s c = Idle \<Longrightarrow> sched_step ok s (poll_local c s)"
| poll_shared: "c < ncores s \<Longrightarrow> running s c = Idle \<Longrightarrow> sched_step ok s (poll_global c s)"
| timer: "c < ncores s \<Longrightarrow> timer_interrupt_handler c s = Ok s' \<Longrightarrow> sched_step ok s s'"
| wake: "c < ncores s \<Longrightarrow> q < nqueues s \<Longrightarrow> wait_queue s q = t # ts \<Longrightarrow>
    schedule_thread c t (s\<lparr>wait_queue := (wait_queue s)(q := ts)\<rparr>) = Ok s' \<Longrightarrow> sched_step ok s s'"
| traps: "c < ncores s \<Longrightarrow> running s c = Run t \<Longrightarrow> can_yield_for_preempt (cpu_view c s) \<Longrightarrow> ok s t \<Longrightarrow>
    sched_step ok s (trap c s)"
| take_event: "c < ncores s \<Longrightarrow> event_thread_queue s c = t # ts \<Longrightarrow>
    sched_step ok s (s\<lparr>event_thread_queue := (event_thread_queue s)(c := ts), handling := push c t (handling s)\<rparr>)"
| event_done: "c < ncores s \<Longrightarrow> handling s c = t # ts \<Longrightarrow>
    schedule_thread c t (s\<lparr>handling := (handling s)(c := ts)\<rparr>) = Ok s' \<Longrightarrow> sched_step ok s s'"
| event_sleep: "c < ncores s \<Longrightarrow> handling s c = t # ts \<Longrightarrow>
    sched_step ok s (sleep c t ms (s\<lparr>handling := (handling s)(c := ts)\<rparr>))"
| event_exit: "c < ncores s \<Longrightarrow> handling s c = t # ts \<Longrightarrow>
    sched_step ok s (s\<lparr>handling := (handling s)(c := ts), live := live s - {t}\<rparr>)"
| pin: "c < ncores s \<Longrightarrow> running s c = Run t \<Longrightarrow>
    sched_step ok s (s\<lparr>pinned := (pinned s)(t := True), home := (home s)(t := c)\<rparr>)"
| unpin: "c < ncores s \<Longrightarrow> running s c = Run t \<Longrightarrow> sched_step ok s (s\<lparr>pinned := (pinned s)(t := False)\<rparr>)"
| set_yield: "c < ncores s \<Longrightarrow> running s c = Run t \<Longrightarrow> sched_step ok s (s\<lparr>yield_flag := (yield_flag s)(t := b)\<rparr>)"

definition sched_init :: "nat \<Rightarrow> nat \<Rightarrow> Sched" where
  "sched_init n m = \<lparr>ncores = n, nqueues = m, mp_stage_preempt = True, running = (\<lambda>_. Idle), local_work_queue = (\<lambda>_. []),
     global_work_queue = [], sleep_queue = (\<lambda>_. []), event_thread_queue = (\<lambda>_. []), handling = (\<lambda>_. []),
     wait_queue = (\<lambda>_. []), ticks = (\<lambda>_. 0), pinned = (\<lambda>_. False), core_pinned_to = (\<lambda>_. USIZE_MAX),
     yield_flag = (\<lambda>_. False), home = (\<lambda>_. 0), live = {}\<rparr>"

subsection \<open>Every live thread is in one place\<close>

definition in_queues :: "nat \<Rightarrow> (nat \<Rightarrow> 'a list) \<Rightarrow> 'a multiset" where
  "in_queues n q = (\<Sum>i<n. mset (q i))"

definition runners :: "nat \<Rightarrow> (nat \<Rightarrow> runner) \<Rightarrow> tid multiset" where
  "runners n r = (\<Sum>i<n. case r i of Idle \<Rightarrow> {#} | Run t \<Rightarrow> {#t#})"

definition places :: "Sched \<Rightarrow> tid multiset" where
  "places s = runners (ncores s) (running s) + in_queues (ncores s) (local_work_queue s) + mset (global_work_queue s)
    + image_mset sleeper (in_queues (ncores s) (sleep_queue s)) + in_queues (ncores s) (event_thread_queue s)
    + in_queues (ncores s) (handling s) + in_queues (nqueues s) (wait_queue s)"

lemma sum_upd:
  fixes f :: "nat \<Rightarrow> 'a :: cancel_comm_monoid_add"
  assumes "c < n"
  shows "(\<Sum>i<n. f i) = f c + (\<Sum>i \<in> {..<n} - {c}. f i)"
  using assms by (simp add: sum.remove)

lemma in_queues_upd:
  assumes "c < n"
  shows "in_queues n (q(c := xs)) + mset (q c) = in_queues n q + mset xs"
proof -
  have "(\<Sum>i \<in> {..<n} - {c}. mset ((q(c := xs)) i)) = (\<Sum>i \<in> {..<n} - {c}. mset (q i))"
    by (rule sum.cong) auto
  then show ?thesis
    using sum_upd [OF assms, of "\<lambda>i. mset ((q(c := xs)) i)"] sum_upd [OF assms, of "\<lambda>i. mset (q i)"]
    by (simp add: in_queues_def)
qed

lemma in_queues_push: "c < n \<Longrightarrow> in_queues n (push c x q) = add_mset x (in_queues n q)"
  using in_queues_upd [of c n q "q c @ [x]"] by simp

lemma in_queues_pop: "c < n \<Longrightarrow> q c = x # xs \<Longrightarrow> in_queues n q = add_mset x (in_queues n (q(c := xs)))"
  using in_queues_upd [of c n q xs] by simp

lemma runners_upd:
  assumes "c < n"
  shows "runners n (r(c := x)) + (case r c of Idle \<Rightarrow> {#} | Run t \<Rightarrow> {#t#})
    = runners n r + (case x of Idle \<Rightarrow> {#} | Run t \<Rightarrow> {#t#})"
proof -
  let ?f = "\<lambda>x. case x of Idle \<Rightarrow> {#} | Run t \<Rightarrow> {#t#}"
  have "(\<Sum>i \<in> {..<n} - {c}. ?f ((r(c := x)) i)) = (\<Sum>i \<in> {..<n} - {c}. ?f (r i))"
    by (rule sum.cong) auto
  then show ?thesis
    using sum_upd [OF assms, of "\<lambda>i. ?f ((r(c := x)) i)"] sum_upd [OF assms, of "\<lambda>i. ?f (r i)"]
    by (simp add: runners_def)
qed

lemma runners_start: "c < n \<Longrightarrow> r c = Idle \<Longrightarrow> runners n (r(c := Run t)) = add_mset t (runners n r)"
  using runners_upd [of c n r "Run t"] by simp

lemma runners_stop: "c < n \<Longrightarrow> r c = Run t \<Longrightarrow> runners n r = add_mset t (runners n (r(c := Idle)))"
  using runners_upd [of c n r Idle] by simp

lemma mset_sleep_insert: "mset (sleep_insert x q) = add_mset x (mset q)"
  by (induction q) auto

lemma in_queues_sleep: "c < n \<Longrightarrow> in_queues n (q(c := sleep_insert x (q c))) = add_mset x (in_queues n q)"
  using in_queues_upd [of c n q "sleep_insert x (q c)"] by (simp add: mset_sleep_insert)

text \<open>What \<open>schedule_thread\<close> and \<open>note_pinned_core\<close> change.\<close>

definition target :: "nat \<Rightarrow> tid \<Rightarrow> Sched \<Rightarrow> nat" where
  "target c t s = (if pinned s t then core_pinned_to s t else c)"

lemma schedule_thread_Ok_iff:
  assumes "c < ncores s"
  shows "schedule_thread c t s = Ok s' \<longleftrightarrow>
    target c t s < ncores s \<and> s' = s\<lparr>local_work_queue := push (target c t s) t (local_work_queue s)\<rparr>"
  using assms by (auto simp: schedule_thread_def target_def)

lemma places_schedule:
  "c < ncores s \<Longrightarrow> schedule_thread c t s = Ok s' \<Longrightarrow> places s' = add_mset t (places s)"
  by (auto simp: schedule_thread_Ok_iff places_def in_queues_push)

lemma same_local_queue: "\<exists>lq. s = s\<lparr>local_work_queue := lq\<rparr>"
  by (rule exI [of _ "local_work_queue s"]) simp

lemma wake_loop_places:
  assumes "wake_loop c now q s = Ok (q', s')" "c < ncores s"
  shows "places s' + image_mset sleeper (mset q') = places s + image_mset sleeper (mset q) \<and>
    (\<exists>lq. s' = s\<lparr>local_work_queue := lq\<rparr>)"
  using assms
proof (induction q arbitrary: s)
  case (Cons x xs)
  show ?case
  proof (cases "wakeup_tick x \<le> now")
    case True
    then obtain s1 where s1: "schedule_thread c (sleeper x) s = Ok s1" "wake_loop c now xs s1 = Ok (q', s')"
      using Cons.prems(1) by (auto simp: outcome_simps)
    moreover obtain lq where lq: "s1 = s\<lparr>local_work_queue := lq\<rparr>"
      using s1(1) Cons.prems(2) by (auto simp: schedule_thread_Ok_iff)
    ultimately show ?thesis
      using Cons.IH [OF s1(2)] places_schedule [OF Cons.prems(2) s1(1)] Cons.prems(2) by auto
  next
    case False
    then show ?thesis using Cons.prems(1) by (auto intro: same_local_queue)
  qed
qed (auto intro: same_local_queue)

lemma places_wakeup:
  assumes "wakeup_sleepers c s = Ok s'" "c < ncores s"
  shows "places s' = places s \<and> (\<exists>lq sq. s' = s\<lparr>local_work_queue := lq, sleep_queue := (sleep_queue s)(c := sq)\<rparr>)"
proof -
  obtain q lq where w: "wake_loop c (ticks s c) (sleep_queue s c) s = Ok (q, s\<lparr>local_work_queue := lq\<rparr>)"
    "s' = s\<lparr>local_work_queue := lq, sleep_queue := (sleep_queue s)(c := q)\<rparr>"
    "places (s\<lparr>local_work_queue := lq\<rparr>) + image_mset sleeper (mset q) = places s + image_mset sleeper (mset (sleep_queue s c))"
    using assms wake_loop_places by (fastforce simp: wakeup_sleepers_def outcome_simps)
  have "image_mset sleeper (in_queues (ncores s) ((sleep_queue s)(c := q))) + image_mset sleeper (mset (sleep_queue s c))
      = image_mset sleeper (in_queues (ncores s) (sleep_queue s)) + image_mset sleeper (mset q)"
    using in_queues_upd [OF assms(2), of "sleep_queue s" q] by (metis image_mset_union)
  then have "places s' + image_mset sleeper (mset (sleep_queue s c))
      = places (s\<lparr>local_work_queue := lq\<rparr>) + image_mset sleeper (mset q)"
    by (simp add: w(2) places_def)
  then show ?thesis using w(2,3) by auto
qed

lemma places_preempt:
  assumes "c < ncores s"
  shows "places (preempt_to_idle c True s) = places s"
  using runners_stop [OF assms, of "running s"] assms
  by (auto simp: preempt_to_idle_def places_def in_queues_push Let_def split: runner.splits)

lemma places_timer:
  assumes "timer_interrupt_handler c s = Ok s'" "c < ncores s"
  shows "places s' = places s \<and> live s' = live s"
proof -
  let ?s = "s\<lparr>ticks := (ticks s)(c := wrapping_add (ticks s c) 1)\<rparr>"
  obtain s1 where s1: "wakeup_sleepers c ?s = Ok s1" "s' = preempt_to_idle c True s1"
    using assms(1) by (auto simp: timer_interrupt_handler_def outcome_simps)
  have "places s1 = places ?s" "ncores s1 = ncores s" "live s1 = live s" using places_wakeup [OF s1(1)] assms(2) by auto
  moreover have "places ?s = places s" by (simp add: places_def)
  moreover have "live s' = live s1" using s1(2) by (auto simp: preempt_to_idle_def Let_def split: runner.splits)
  ultimately show ?thesis using places_preempt [of c s1] assms(2) s1(2) by simp
qed

lemma places_trap:
  assumes "c < ncores s" "running s c = Run t" "can_yield_for_preempt (cpu_view c s)"
  shows "places (trap c s) = places s \<and> live (trap c s) = live s"
proof -
  have "can_yield_for_preempt (cpu_view c (push_event c s))"
    using assms(2,3) by (simp add: push_event_def cpu_view_def)
  then show ?thesis
    using assms runners_stop [of c "ncores s" "running s" t] by (simp add: trap_def preempt_to_idle_def push_event_def places_def in_queues_push)
qed

lemma places_leave:
  assumes "c < ncores s"
  shows "places (yield_thread c s) = places s \<and> live (yield_thread c s) = live s"
    "q < nqueues s \<Longrightarrow> places (suspend_to_queue_if c q b s) = places s \<and> live (suspend_to_queue_if c q b s) = live s"
  using runners_stop [OF assms, of "running s"] assms
  by (auto simp: yield_thread_def suspend_to_queue_if_def suspend_to_queue_def note_pinned_core_def places_def
      in_queues_push Let_def split: runner.splits)

lemma places_poll:
  assumes "c < ncores s" "running s c = Idle"
  shows "places (poll_local c s) = places s \<and> live (poll_local c s) = live s"
    "places (poll_global c s) = places s \<and> live (poll_global c s) = live s"
  using runners_start [of c "ncores s" "running s"] in_queues_pop [OF assms(1), of "local_work_queue s"] assms
  by (auto simp: poll_local_def poll_global_def places_def Let_def split: list.splits)

definition place_inv :: "Sched \<Rightarrow> bool" where
  "place_inv s \<longleftrightarrow> finite (live s) \<and> places s = mset_set (live s)"

lemma mset_set_without:
  assumes "finite L" "add_mset t P = mset_set L"
  shows "P = mset_set (L - {t})"
proof -
  have "t \<in> L" using assms by (metis elem_mset_set union_single_eq_member)
  then show ?thesis using assms mset_set.remove [of L t] by simp
qed

lemma place_inv_finish:
  assumes "place_inv s" "c < ncores s"
  shows "place_inv (end_thread c s)"
proof (cases "running s c")
  case (Run t)
  have "places s = add_mset t (places (end_thread c s))"
    using runners_stop [of c "ncores s" "running s" t] assms(2) Run by (simp add: end_thread_def places_def)
  then show ?thesis using assms(1) Run mset_set_without [of "live s" t "places (end_thread c s)"]
    by (simp add: place_inv_def end_thread_def)
qed (use assms in \<open>simp add: end_thread_def\<close>)

lemma place_inv_exit:
  assumes "place_inv s" "c < ncores s" "handling s c = t # ts"
  shows "place_inv (s\<lparr>handling := (handling s)(c := ts), live := live s - {t}\<rparr>)"
proof -
  have "places s = add_mset t (places (s\<lparr>handling := (handling s)(c := ts), live := live s - {t}\<rparr>))"
    using in_queues_pop [OF assms(2), of "handling s" t ts] assms(3) by (simp add: places_def)
  then show ?thesis using assms(1) mset_set_without [of "live s" t] by (simp add: place_inv_def)
qed

lemma places_wake:
  assumes "c < ncores s" "q < nqueues s" "wait_queue s q = t # ts"
    "schedule_thread c t (s\<lparr>wait_queue := (wait_queue s)(q := ts)\<rparr>) = Ok s'"
  shows "places s' = places s \<and> live s' = live s"
  using places_schedule [OF _ assms(4)] in_queues_pop [OF assms(2), of "wait_queue s" t ts] assms
  by (auto simp: places_def schedule_thread_Ok_iff)

lemma places_event:
  assumes "c < ncores s"
  shows "event_thread_queue s c = t # ts \<Longrightarrow>
      places (s\<lparr>event_thread_queue := (event_thread_queue s)(c := ts), handling := push c t (handling s)\<rparr>) = places s"
    "handling s c = t # ts \<Longrightarrow> schedule_thread c t (s\<lparr>handling := (handling s)(c := ts)\<rparr>) = Ok s' \<Longrightarrow>
      places s' = places s \<and> live s' = live s"
    "handling s c = t # ts \<Longrightarrow> places (sleep c t ms (s\<lparr>handling := (handling s)(c := ts)\<rparr>)) = places s"
  using in_queues_pop [OF assms, of "event_thread_queue s" t ts] in_queues_pop [OF assms, of "handling s" t ts]
    places_schedule [of c "s\<lparr>handling := (handling s)(c := ts)\<rparr>" t s'] assms
  by (auto simp: places_def in_queues_push in_queues_sleep sleep_def Let_def schedule_thread_Ok_iff)

lemma place_inv_step:
  assumes "sched_step ok s s'" "place_inv s"
  shows "place_inv s'"
  using assms(1)
proof cases
  case (spawn t)
  then show ?thesis using assms(2) by (simp add: place_inv_def spawn_thread_def places_def)
next
  case (event_sleep c t ts ms)
  then show ?thesis using assms(2) places_event(3) [of c s t ts ms] by (simp add: place_inv_def sleep_def Let_def)
next
  case (take_event c t ts)
  then show ?thesis using assms(2) places_event(1) [of c s t ts] by (simp add: place_inv_def)
qed (use assms(2) place_inv_finish place_inv_exit places_leave places_poll places_timer places_wake places_trap places_event(2)
  in \<open>simp_all add: place_inv_def places_def\<close>)

lemma place_inv_reachable:
  assumes "(sched_step ok)\<^sup>*\<^sup>* (sched_init n m) s"
  shows "place_inv s"
  using assms
proof (induction rule: rtranclp_induct)
  case base
  then show ?case by (simp add: place_inv_def places_def sched_init_def runners_def in_queues_def)
next
  case (step s s')
  then show ?case by (auto intro: place_inv_step)
qed

subsection \<open>The sleep queue\<close>

lemma set_sleep_insert: "set (sleep_insert x q) = insert x (set q)"
  by (induction q) auto






lemma schedule_thread_frame: "schedule_thread c t s = Ok s' \<Longrightarrow> \<exists>lq. s' = s\<lparr>local_work_queue := lq\<rparr>"
  by (auto simp: schedule_thread_def split: if_splits)

lemma wake_loop_frame:
  assumes "wake_loop c now q s = Ok (q', s')"
  shows "(\<exists>lq. s' = s\<lparr>local_work_queue := lq\<rparr>) \<and> set q' \<subseteq> set q"
  using assms
proof (induction q arbitrary: s)
  case (Cons x xs)
  show ?case
  proof (cases "wakeup_tick x \<le> now")
    case True
    then obtain s1 where s1: "schedule_thread c (sleeper x) s = Ok s1" "wake_loop c now xs s1 = Ok (q', s')"
      using Cons.prems by (auto simp: outcome_simps)
    then show ?thesis using Cons.IH [OF s1(2)] schedule_thread_frame [OF s1(1)] by auto
  next
    case False
    then show ?thesis using Cons.prems by (auto intro: same_local_queue)
  qed
qed (auto intro: same_local_queue)

lemma timer_sleep_queue:
  assumes "timer_interrupt_handler c s = Ok s'"
  shows "\<exists>q lq. wake_loop c (wrapping_add (ticks s c) 1) (sleep_queue s c) (s\<lparr>ticks := (ticks s)(c := wrapping_add (ticks s c) 1)\<rparr>)
      = Ok (q, s\<lparr>ticks := (ticks s)(c := wrapping_add (ticks s c) 1), local_work_queue := lq\<rparr>) \<and>
    s' = preempt_to_idle c True (s\<lparr>ticks := (ticks s)(c := wrapping_add (ticks s c) 1), local_work_queue := lq,
      sleep_queue := (sleep_queue s)(c := q)\<rparr>)"
proof -
  let ?s = "s\<lparr>ticks := (ticks s)(c := wrapping_add (ticks s c) 1)\<rparr>"
  obtain q s1 where w: "wake_loop c (wrapping_add (ticks s c) 1) (sleep_queue s c) ?s = Ok (q, s1)"
    "s' = preempt_to_idle c True (s1\<lparr>sleep_queue := (sleep_queue s1)(c := q)\<rparr>)"
    using assms by (auto simp: timer_interrupt_handler_def wakeup_sleepers_def outcome_simps)
  obtain lq where "s1 = ?s\<lparr>local_work_queue := lq\<rparr>" using wake_loop_frame [OF w(1)] by blast
  then show ?thesis using w by (intro exI [of _ q] exI [of _ lq]) simp
qed





subsection \<open>Pinned threads\<close>

lemma in_queues_mem: "x \<in># in_queues n q \<longleftrightarrow> (\<exists>i<n. x \<in> set (q i))"
  by (induction n) (auto simp: in_queues_def less_Suc_eq)

lemma runners_mem: "t \<in># runners n r \<longleftrightarrow> (\<exists>i<n. r i = Run t)"
  by (induction n) (auto simp: runners_def less_Suc_eq split: runner.splits)

definition off_core :: "tid \<Rightarrow> Sched \<Rightarrow> bool" where
  "off_core t s \<longleftrightarrow> t \<notin> set (global_work_queue s) \<and> (\<forall>c<ncores s. t \<notin> sleeper ` set (sleep_queue s c) \<and>
     t \<notin> set (event_thread_queue s c) \<and> t \<notin> set (handling s c))"

definition pin_inv :: "Sched \<Rightarrow> bool" where
  "pin_inv s \<longleftrightarrow>
    (\<forall>t. pinned s t \<longrightarrow> t \<notin> set (global_work_queue s)) \<and>
    (\<forall>c x. c < ncores s \<longrightarrow> x \<in> set (sleep_queue s c) \<longrightarrow> \<not> pinned s (sleeper x)) \<and>
    (\<forall>c t. c < ncores s \<longrightarrow> t \<in> set (event_thread_queue s c) \<longrightarrow> \<not> pinned s t) \<and>
    (\<forall>c t. c < ncores s \<longrightarrow> t \<in> set (handling s c) \<longrightarrow> \<not> pinned s t) \<and>
    (\<forall>c t. c < ncores s \<longrightarrow> running s c = Run t \<longrightarrow> pinned s t \<longrightarrow> home s t = c) \<and>
    (\<forall>c t. c < ncores s \<longrightarrow> t \<in> set (local_work_queue s c) \<longrightarrow> pinned s t \<longrightarrow> home s t = c) \<and>
    (\<forall>q t. q < nqueues s \<longrightarrow> t \<in> set (wait_queue s q) \<longrightarrow> pinned s t \<longrightarrow>
       core_pinned_to s t = home s t \<and> home s t < ncores s)"

lemma pin_invI:
  assumes "\<And>t. pinned s t \<Longrightarrow> t \<in> set (global_work_queue s) \<Longrightarrow> False"
    "\<And>c x. c < ncores s \<Longrightarrow> x \<in> set (sleep_queue s c) \<Longrightarrow> pinned s (sleeper x) \<Longrightarrow> False"
    "\<And>c t. c < ncores s \<Longrightarrow> t \<in> set (event_thread_queue s c) \<Longrightarrow> pinned s t \<Longrightarrow> False"
    "\<And>c t. c < ncores s \<Longrightarrow> t \<in> set (handling s c) \<Longrightarrow> pinned s t \<Longrightarrow> False"
    "\<And>c t. c < ncores s \<Longrightarrow> running s c = Run t \<Longrightarrow> pinned s t \<Longrightarrow> home s t = c"
    "\<And>c t. c < ncores s \<Longrightarrow> t \<in> set (local_work_queue s c) \<Longrightarrow> pinned s t \<Longrightarrow> home s t = c"
    "\<And>q t. q < nqueues s \<Longrightarrow> t \<in> set (wait_queue s q) \<Longrightarrow> pinned s t \<Longrightarrow> core_pinned_to s t = home s t"
    "\<And>q t. q < nqueues s \<Longrightarrow> t \<in> set (wait_queue s q) \<Longrightarrow> pinned s t \<Longrightarrow> home s t < ncores s"
  shows "pin_inv s"
  unfolding pin_inv_def by (intro conjI allI impI notI) (fact assms | erule (1) assms | erule (2) assms)+

lemma pin_invD:
  assumes "pin_inv s"
  shows "pinned s t \<Longrightarrow> t \<in> set (global_work_queue s) \<Longrightarrow> False"
    "c < ncores s \<Longrightarrow> x \<in> set (sleep_queue s c) \<Longrightarrow> pinned s (sleeper x) \<Longrightarrow> False"
    "c < ncores s \<Longrightarrow> t \<in> set (event_thread_queue s c) \<Longrightarrow> pinned s t \<Longrightarrow> False"
    "c < ncores s \<Longrightarrow> t \<in> set (handling s c) \<Longrightarrow> pinned s t \<Longrightarrow> False"
    "c < ncores s \<Longrightarrow> running s c = Run t \<Longrightarrow> pinned s t \<Longrightarrow> home s t = c"
    "c < ncores s \<Longrightarrow> t \<in> set (local_work_queue s c) \<Longrightarrow> pinned s t \<Longrightarrow> home s t = c"
    "q < nqueues s \<Longrightarrow> t \<in> set (wait_queue s q) \<Longrightarrow> pinned s t \<Longrightarrow> core_pinned_to s t = home s t"
    "q < nqueues s \<Longrightarrow> t \<in> set (wait_queue s q) \<Longrightarrow> pinned s t \<Longrightarrow> home s t < ncores s"
  using assms unfolding pin_inv_def by simp_all

lemma running_alone:
  assumes "place_inv s" "c < ncores s" "running s c = Run t"
  shows "off_core t s \<and> (\<forall>d<ncores s. running s d = Run t \<longrightarrow> d = c) \<and> (\<forall>d<ncores s. t \<notin> set (local_work_queue s d)) \<and>
    (\<forall>q<nqueues s. t \<notin> set (wait_queue s q))"
proof -
  let ?s = "s\<lparr>running := (running s)(c := Idle)\<rparr>"
  have "places s = add_mset t (places ?s)"
    using runners_stop [of c "ncores s" "running s" t] assms(2,3) by (simp add: places_def)
  then have "t \<notin># places ?s"
    using assms(1) mset_set_without [of "live s" t "places ?s"] by (auto simp: place_inv_def)
  then have "\<forall>x. x \<in># in_queues (ncores s) (sleep_queue s) \<longrightarrow> sleeper x \<noteq> t"
    "t \<notin># runners (ncores s) ((running s)(c := Idle))" "t \<notin># in_queues (ncores s) (local_work_queue s)"
    "t \<notin> set (global_work_queue s)" "t \<notin># in_queues (ncores s) (event_thread_queue s)"
    "t \<notin># in_queues (ncores s) (handling s)" "t \<notin># in_queues (nqueues s) (wait_queue s)"
    by (auto simp: places_def)
  then show ?thesis
    by (auto simp: in_queues_mem runners_mem off_core_def split: if_splits)
qed

lemma wake_loop_others:
  assumes "wake_loop c now q s = Ok (q', s')" "\<forall>x\<in>set q. sleeper x \<noteq> t"
  shows "t \<in> set (local_work_queue s' d) \<longleftrightarrow> t \<in> set (local_work_queue s d)"
  using assms
proof (induction q arbitrary: s)
  case (Cons x xs)
  show ?case
  proof (cases "wakeup_tick x \<le> now")
    case True
    then obtain s1 where s1: "schedule_thread c (sleeper x) s = Ok s1" "wake_loop c now xs s1 = Ok (q', s')"
      using Cons.prems(1) by (auto simp: outcome_simps)
    have "t \<in> set (local_work_queue s1 d) \<longleftrightarrow> t \<in> set (local_work_queue s d)"
      using s1(1) Cons.prems(2) by (auto simp: schedule_thread_def split: if_splits)
    then show ?thesis using Cons.IH [OF s1(2)] Cons.prems(2) by simp
  next
    case False
    then show ?thesis using Cons.prems(1) by simp
  qed
qed simp

lemma pin_inv_preempt:
  assumes "pin_inv s" "c < ncores s"
  shows "pin_inv (preempt_to_idle c True s)"
proof (cases "running s c")
  case (Run t)
  show ?thesis
    by (rule pin_invI) (use Run pin_invD [OF assms(1)] assms(2) in \<open>auto simp: preempt_to_idle_def Let_def split: if_splits\<close>)
qed (use assms in \<open>simp add: preempt_to_idle_def\<close>)

lemma pin_inv_timer:
  assumes "pin_inv s" "c < ncores s" "timer_interrupt_handler c s = Ok s'"
  shows "pin_inv s'"
proof -
  let ?s = "s\<lparr>ticks := (ticks s)(c := wrapping_add (ticks s c) 1)\<rparr>"
  obtain q lq where w: "wake_loop c (wrapping_add (ticks s c) 1) (sleep_queue s c) ?s = Ok (q, ?s\<lparr>local_work_queue := lq\<rparr>)"
    "s' = preempt_to_idle c True (?s\<lparr>local_work_queue := lq, sleep_queue := (sleep_queue s)(c := q)\<rparr>)"
    using timer_sleep_queue [OF assms(3)] by auto
  have "\<forall>x\<in>set (sleep_queue s c). sleeper x \<noteq> t" if "pinned s t" for t
    using pin_invD(2) [OF assms(1,2)] that by auto
  then have lq: "t \<in> set (lq d) \<longleftrightarrow> t \<in> set (local_work_queue s d)" if "pinned s t" for t d
    using wake_loop_others [OF w(1), of t d] that by simp
  have q: "set q \<subseteq> set (sleep_queue s c)" using wake_loop_frame [OF w(1)] by blast
  have "pin_inv (?s\<lparr>local_work_queue := lq, sleep_queue := (sleep_queue s)(c := q)\<rparr>)"
    by (rule pin_invI) (auto simp: lq dest: pin_invD [OF assms(1)] subsetD [OF q] split: if_splits)
  then show ?thesis using w(2) pin_inv_preempt assms(2) by simp
qed

lemma pin_inv_leave:
  assumes "pin_inv s" "c < ncores s"
  shows "pin_inv (yield_thread c s)" "pin_inv (suspend_to_queue_if c q b s)"
proof -
  show "pin_inv (yield_thread c s)"
  proof (cases "running s c")
    case (Run t)
    show ?thesis
      by (rule pin_invI) (use Run pin_invD [OF assms(1)] assms(2) in
        \<open>auto simp: yield_thread_def note_pinned_core_def Let_def split: if_splits\<close>)
  qed (use assms in \<open>simp add: yield_thread_def\<close>)
  show "pin_inv (suspend_to_queue_if c q b s)"
  proof (cases "running s c")
    case (Run t)
    show ?thesis
      by (rule pin_invI) (use Run pin_invD [OF assms(1)] assms(2) in
        \<open>auto simp: suspend_to_queue_if_def suspend_to_queue_def note_pinned_core_def Let_def split: if_splits\<close>)
  qed (use assms in \<open>simp add: suspend_to_queue_if_def\<close>)
qed

lemma pin_inv_schedule:
  assumes "pin_inv s" "c < ncores s" "schedule_thread c t s = Ok s'" "pinned s t \<Longrightarrow> core_pinned_to s t = home s t"
  shows "pin_inv s'"
proof -
  have s': "s' = s\<lparr>local_work_queue := push (target c t s) t (local_work_queue s)\<rparr>" using assms(2,3) schedule_thread_Ok_iff by blast
  show ?thesis
    by (rule pin_invI) (auto simp: s' target_def assms(4) dest: pin_invD [OF assms(1)] split: if_splits)
qed

lemma pin_inv_handled:
  assumes "pin_inv s" "c < ncores s" "handling s c = t # ts"
  shows "pin_inv (s\<lparr>handling := (handling s)(c := ts)\<rparr>)" "\<not> pinned s t"
proof -
  have sub: "u \<in> set ts \<Longrightarrow> u \<in> set (handling s c)" for u using assms(3) by simp
  show "pin_inv (s\<lparr>handling := (handling s)(c := ts)\<rparr>)"
    by (rule pin_invI) (auto dest: pin_invD [OF assms(1)] sub split: if_splits)
  show "\<not> pinned s t" using pin_invD(4) [OF assms(1,2), of t] assms(3) by auto
qed

lemma pin_inv_sleep:
  assumes "pin_inv s" "\<not> pinned s t"
  shows "pin_inv (sleep c t ms s)"
  by (rule pin_invI)
    (use assms(2) in \<open>auto simp: sleep_def Let_def set_sleep_insert dest: pin_invD [OF assms(1)] split: if_splits\<close>)

lemma pin_inv_take_event:
  assumes "pin_inv s" "c < ncores s" "event_thread_queue s c = t # ts"
  shows "pin_inv (s\<lparr>event_thread_queue := (event_thread_queue s)(c := ts), handling := push c t (handling s)\<rparr>)"
proof -
  have sub: "u \<in> set (t # ts) \<Longrightarrow> u \<in> set (event_thread_queue s c)" for u using assms(3) by simp
  then have "\<not> pinned s t" using pin_invD(3) [OF assms(1,2), of t] by auto
  then show ?thesis
    by (intro pin_invI) (auto dest: pin_invD [OF assms(1)] sub [OF list.set_intros(2)] split: if_splits)
qed

lemma pin_inv_poll:
  assumes "pin_inv s" "c < ncores s"
  shows "pin_inv (poll_local c s)" "pin_inv (poll_global c s)"
proof -
  show "pin_inv (poll_local c s)"
  proof (cases "local_work_queue s c")
    case (Cons t ts)
    then have sub: "u \<in> set (t # ts) \<Longrightarrow> u \<in> set (local_work_queue s c)" for u by simp
    show ?thesis using Cons
      by (intro pin_invI) (auto simp: poll_local_def Let_def dest: pin_invD [OF assms(1)] sub [OF list.set_intros(2)] split: if_splits)
  qed (use assms in \<open>simp add: poll_local_def\<close>)
  show "pin_inv (poll_global c s)"
  proof (cases "global_work_queue s")
    case (Cons t ts)
    then have sub: "u \<in> set (t # ts) \<Longrightarrow> u \<in> set (global_work_queue s)" for u by simp
    then have "\<not> pinned s t" using pin_invD(1) [OF assms(1), of t] by auto
    then show ?thesis using Cons
      by (intro pin_invI) (auto simp: poll_global_def dest: pin_invD [OF assms(1)] sub [OF list.set_intros(2)] split: if_splits)
  qed (use assms in \<open>simp add: poll_global_def\<close>)
qed

lemma trap_eq:
  "running s c = Run t \<Longrightarrow> can_yield_for_preempt (cpu_view c s) \<Longrightarrow>
    trap c s = s\<lparr>event_thread_queue := push c t (event_thread_queue s), running := (running s)(c := Idle)\<rparr>"
  by (simp add: trap_def push_event_def preempt_to_idle_def cpu_view_def)

lemma pin_inv_trap:
  assumes "pin_inv s" "\<not> pinned s t"
  shows "pin_inv (s\<lparr>event_thread_queue := push c t (event_thread_queue s), running := (running s)(c := Idle)\<rparr>)"
  by (rule pin_invI) (use assms(2) in \<open>auto dest: pin_invD [OF assms(1)] split: if_splits\<close>)

lemma pin_inv_pin:
  assumes "pin_inv s" "place_inv s" "c < ncores s" "running s c = Run t"
  shows "pin_inv (s\<lparr>pinned := (pinned s)(t := True), home := (home s)(t := c)\<rparr>)"
proof -
  have alone: "t \<notin> set (global_work_queue s)"
    "\<And>d x. d < ncores s \<Longrightarrow> x \<in> set (sleep_queue s d) \<Longrightarrow> sleeper x \<noteq> t"
    "\<And>d. d < ncores s \<Longrightarrow> t \<notin> set (event_thread_queue s d)" "\<And>d. d < ncores s \<Longrightarrow> t \<notin> set (handling s d)"
    "\<And>d. d < ncores s \<Longrightarrow> running s d = Run t \<Longrightarrow> d = c" "\<And>d. d < ncores s \<Longrightarrow> t \<notin> set (local_work_queue s d)"
    "\<And>q. q < nqueues s \<Longrightarrow> t \<notin> set (wait_queue s q)"
    using running_alone [OF assms(2-4)] unfolding off_core_def by blast+
  show ?thesis
    by (rule pin_invI) (simp_all split: if_splits, auto simp: alone dest: alone(5) pin_invD [OF assms(1)])
qed

lemma pin_inv_other:
  assumes "pin_inv s"
  shows "pin_inv (spawn_thread t s)" "pin_inv (end_thread c s)" "pin_inv (s\<lparr>pinned := (pinned s)(t := False)\<rparr>)"
    "pin_inv (s\<lparr>yield_flag := f\<rparr>)"
proof -
  show "pin_inv (spawn_thread t s)"
    by (rule pin_invI) (auto simp: spawn_thread_def dest: pin_invD [OF assms] split: if_splits)
  show "pin_inv (end_thread c s)"
    by (rule pin_invI) (auto simp: end_thread_def dest: pin_invD [OF assms] split: if_splits runner.splits)
  show "pin_inv (s\<lparr>pinned := (pinned s)(t := False)\<rparr>)"
    by (rule pin_invI) (auto dest: pin_invD [OF assms] split: if_splits)
  show "pin_inv (s\<lparr>yield_flag := f\<rparr>)" using assms by (simp add: pin_inv_def)
qed

lemma pin_inv_wake:
  assumes "pin_inv s" "c < ncores s" "q < nqueues s" "wait_queue s q = t # ts"
    "schedule_thread c t (s\<lparr>wait_queue := (wait_queue s)(q := ts)\<rparr>) = Ok s'"
  shows "pin_inv s'"
proof -
  have sub: "u \<in> set (t # ts) \<Longrightarrow> u \<in> set (wait_queue s q)" for u using assms(4) by simp
  have "pin_inv (s\<lparr>wait_queue := (wait_queue s)(q := ts)\<rparr>)"
    by (rule pin_invI) (auto dest: pin_invD [OF assms(1)] sub [OF list.set_intros(2)] split: if_splits)
  then show ?thesis
    by (rule pin_inv_schedule [OF _ _ assms(5)]) (use assms(2,3) pin_invD(7) [OF assms(1,3), of t] sub in simp_all)
qed

lemma pin_inv_step:
  assumes "sched_step (\<lambda>s t. \<not> pinned s t) s s'" "pin_inv s" "place_inv s"
  shows "pin_inv s'"
  using assms(1)
proof cases
  case (wake c q t ts)
  then show ?thesis by (rule pin_inv_wake [OF assms(2)])
next
  case (event_done c t ts)
  then show ?thesis using pin_inv_schedule [OF _ _ event_done(3)] pin_inv_handled [OF assms(2) event_done(1,2)] by simp
next
  case (event_sleep c t ts ms)
  note h = pin_inv_handled [OF assms(2) event_sleep(2,3)]
  show ?thesis unfolding event_sleep(1) by (rule pin_inv_sleep) (use h in simp_all)
next
  case (event_exit c t ts)
  then show ?thesis using pin_inv_handled [OF assms(2) event_exit(2,3)] unfolding event_exit(1) by (simp add: pin_inv_def)
next
  case (traps c t)
  then show ?thesis using pin_inv_trap [OF assms(2)] by (simp only: trap_eq)
next
  case (pin c t)
  then show ?thesis using pin_inv_pin [OF assms(2,3)] by (simp only:)
next
  case (take_event c t ts)
  then show ?thesis using pin_inv_take_event [OF assms(2)] by (simp only:)
next
  case (timer c)
  then show ?thesis by (rule pin_inv_timer [OF assms(2)])
qed (simp_all only: pin_inv_leave [OF assms(2)] pin_inv_poll [OF assms(2)] pin_inv_other [OF assms(2)])

lemma pin_inv_reachable:
  assumes "(sched_step (\<lambda>s t. \<not> pinned s t))\<^sup>*\<^sup>* (sched_init n m) s"
  shows "pin_inv s"
  using assms
proof (induction rule: rtranclp_induct)
  case base
  then show ?case by (simp add: pin_inv_def sched_init_def)
next
  case (step s s')
  then show ?case using pin_inv_step place_inv_reachable by blast
qed


text \<open>
  C39. Pinning: as long as a thread does not trap while it is pinned, a pinned thread
  only ever runs on, and is only ever queued for, the core on which it was pinned.
\<close>

theorem pinned_thread_stays:
  assumes "(sched_step (\<lambda>s t. \<not> pinned s t))\<^sup>*\<^sup>* (sched_init n m) s" "pinned s t" "c < ncores s"
  shows "(running s c = Run t \<or> t \<in> set (local_work_queue s c) \<longrightarrow> c = home s t) \<and> t \<notin> set (global_work_queue s)"
  using pin_invD [OF pin_inv_reachable [OF assms(1)]] assms(2,3) by blast

text \<open>
  C40. A trap of a thread that cannot be preempted (its \<open>CAN_YIELD\<close> flag is off, or the
  kernel is still initialising) puts the thread into the event queue and goes on
  running it: the thread is in two places at once. A pinned thread that was never
  suspended and traps has no core recorded, and making it runnable again panics.
\<close>

theorem trap_misplaces_thread:
  assumes "c < ncores s" "running s c = Run t"
  shows "(\<not> can_yield_for_preempt (cpu_view c s) \<longrightarrow>
      running (trap c s) c = Run t \<and> t \<in> set (event_thread_queue (trap c s) c) \<and> places (trap c s) = add_mset t (places s)) \<and>
    (pinned s t \<and> core_pinned_to s t = USIZE_MAX \<and> ncores s \<le> USIZE_MAX \<longrightarrow> schedule_thread d t (trap c s) = Panic)"
  using assms
  by (auto simp: trap_def preempt_to_idle_def push_event_def schedule_thread_def cpu_view_def can_yield_for_preempt_def
      places_def in_queues_push Let_def split: if_splits)

text \<open>Two runs on two cores: thread 7 is pinned to core 0 and sleeps in a wait queue; and
  thread 7 makes a system call that puts it to sleep for 5 ms.\<close>

definition started :: Sched where
  "started = poll_global 0 (spawn_thread 7 (sched_init 2 1))"

lemma started_fields:
  "ncores started = 2" "nqueues started = 1" "mp_stage_preempt started" "running started = (\<lambda>_. Idle)(0 := Run 7)"
  "event_thread_queue started = (\<lambda>_. [])" "handling started = (\<lambda>_. [])" "wait_queue started = (\<lambda>_. [])"
  "sleep_queue started = (\<lambda>_. [])" "ticks started = (\<lambda>_. 0)" "pinned started = (\<lambda>_. False)" "yield_flag started 7"
  "core_pinned_to started 7 = USIZE_MAX" "global_work_queue started = []" "live started = {7}"
  by (simp_all add: started_def poll_global_def spawn_thread_def sched_init_def fun_upd_idem)

definition pinned_waiting :: Sched where
  "pinned_waiting = suspend_to_queue_if 0 0 True (started\<lparr>pinned := (pinned started)(7 := True), home := (home started)(7 := 0)\<rparr>)"



lemma started_run: "(sched_step ok)\<^sup>*\<^sup>* (sched_init 2 1) started"
proof -
  have "sched_step ok (sched_init 2 1) (spawn_thread 7 (sched_init 2 1))"
    by (rule sched_step.spawn) (simp add: sched_init_def)
  moreover have "sched_step ok (spawn_thread 7 (sched_init 2 1)) started"
    unfolding started_def by (rule sched_step.poll_shared) (simp_all add: sched_init_def spawn_thread_def)
  ultimately show ?thesis by (metis rtranclp.rtrancl_into_rtrancl rtranclp.rtrancl_refl)
qed

lemma pinned_waiting_run: "(sched_step (\<lambda>s t. \<not> pinned s t))\<^sup>*\<^sup>* (sched_init 2 1) pinned_waiting"
proof -
  let ?s = "started\<lparr>pinned := (pinned started)(7 := True), home := (home started)(7 := 0)\<rparr>"
  have "sched_step (\<lambda>s t. \<not> pinned s t) started ?s"
    by (rule sched_step.pin) (simp_all add: started_fields)
  moreover have "sched_step (\<lambda>s t. \<not> pinned s t) ?s pinned_waiting"
    unfolding pinned_waiting_def by (rule sched_step.suspend) (simp_all add: started_fields)
  ultimately show ?thesis using started_run by (metis rtranclp.rtrancl_into_rtrancl)
qed



theorem pinned_thread_stays_witness:
  "pinned pinned_waiting 7 \<and> 7 \<in> set (wait_queue pinned_waiting 0) \<and> 7 \<notin> set (global_work_queue pinned_waiting)"
  using pinned_thread_stays [OF pinned_waiting_run, of 7 0]
  by (simp add: pinned_waiting_def suspend_to_queue_if_def suspend_to_queue_def note_pinned_core_def started_fields)



theorem trap_misplaces_thread_witness:
  "schedule_thread 1 7 (trap 0 (started\<lparr>pinned := (pinned started)(7 := True)\<rparr>)) = Panic"
  using trap_misplaces_thread [of 0 "started\<lparr>pinned := (pinned started)(7 := True)\<rparr>" 7 1]
  by (simp add: started_fields USIZE_MAX_def)

end
