(* ===== verification/Frames.thy ===== *)
theory Frames
  imports Cab_Prelude
begin

section \<open>Physical frames\<close>

text \<open>
  Model of \<^verbatim>\<open>src/src/memory/physical_memory.rs\<close>: frames that were never used come
  from a position that moves through the usable regions of the boot loader's memory
  map; released frames form a list whose links are stored in the frames themselves.
  The memory is a map from virtual addresses to machine words. \<open>frame_alloc\<close> calls
  itself again when no frame is left, until another core releases one: the model is
  one round, with None for "try again".

  The lemmas follow the frames in use and the list of released frames: no frame is
  handed out twice, whatever the holders of frames write into them.
\<close>

subsection \<open>State and operations\<close>

record MemRegion =
  rg_base :: nat
  rg_length :: nat
  rg_usable :: bool

record FrameState =
  fr_head :: nat
  fr_region :: nat
  fr_offset :: nat
  fr_mem :: "addr \<Rightarrow> nat"

definition find_usable :: "MemRegion list \<Rightarrow> nat \<Rightarrow> nat option" where
  "find_usable regs from = List.find (\<lambda>r. rg_usable (regs ! r)) [from..<length regs]"

definition init_physical_memory_allocator :: "MemRegion list \<Rightarrow> FrameState \<Rightarrow> (unit, FrameState) outcome" where
  "init_physical_memory_allocator regs s =
    (case find_usable regs 0 of
       Some first_usable \<Rightarrow> Ok (s\<lparr>fr_region := first_usable, fr_offset := 0\<rparr>)
     | None \<Rightarrow> Panic)"

lemma find_usable_Some:
  assumes "find_usable regs from = Some r"
  shows "from \<le> r" "r < length regs" "rg_usable (regs ! r)"
  using find_SomeD [OF assms [unfolded find_usable_def]] by auto

function advance :: "MemRegion list \<Rightarrow> nat \<Rightarrow> nat \<Rightarrow> nat \<Rightarrow> (unit, bool \<times> nat \<times> nat) outcome" where
  "advance regs bytes region offset =
    obind (index_get regs region) (\<lambda>r.
    obind (uadd offset bytes) (\<lambda>e.
      if e \<le> rg_length r then Ok (True, region, offset)
      else case find_usable regs (region + 1) of
             None \<Rightarrow> Ok (False, region, offset)
           | Some region' \<Rightarrow> advance regs bytes region' 0))"
  by pat_completeness auto
termination
proof (relation "measure (\<lambda>(regs, b, region, off). length regs - region)")
  fix regs bytes region offset and r :: MemRegion and e region'
  assume "find_usable regs (region + 1) = Some region'"
  then show "((regs, bytes, region', 0), (regs, bytes, region, offset)) \<in> measure (\<lambda>(regs, b, region, off). length regs - region)"
    using find_usable_Some [of regs "region + 1" region'] by auto
qed simp

declare advance.simps [simp del]

definition frame_alloc :: "MemRegion list \<Rightarrow> nat \<Rightarrow> FrameState \<Rightarrow> (unit, nat option \<times> FrameState) outcome" where
  "frame_alloc regs hhdm s =
    (if fr_head s = USIZE_MAX
     then obind (advance regs PAGE_SIZE (fr_region s) (fr_offset s)) (\<lambda>(found, region, offset).
          let s1 = s\<lparr>fr_region := region, fr_offset := offset\<rparr>
          in if \<not> found then Ok (None, s1)
             else obind (index_get regs region) (\<lambda>entry.
                  obind (uadd (rg_base entry) offset) (\<lambda>frame.
                  obind (uadd offset PAGE_SIZE) (\<lambda>offset'.
                  Ok (Some frame, s1\<lparr>fr_offset := offset'\<rparr>)))))
     else if \<not> PAGE_SIZE dvd fr_head s then Panic
     else obind (uadd hhdm (fr_head s)) (\<lambda>a. Ok (Some (fr_head s), s\<lparr>fr_head := fr_mem s a\<rparr>)))"

definition alloc_frames :: "MemRegion list \<Rightarrow> nat \<Rightarrow> FrameState \<Rightarrow> (unit, nat \<times> FrameState) outcome" where
  "alloc_frames regs frames s =
    (if frames = 0 then Panic
     else obind (umul PAGE_SIZE frames) (\<lambda>bytes.
          obind (advance regs bytes (fr_region s) (fr_offset s)) (\<lambda>(found, region, offset).
          if \<not> found then Panic
          else obind (index_get regs region) (\<lambda>entry.
               obind (uadd (rg_base entry) offset) (\<lambda>frame.
               obind (uadd offset bytes) (\<lambda>offset'.
               Ok (frame, s\<lparr>fr_region := region, fr_offset := offset'\<rparr>)))))))"

definition frame_dealloc :: "nat \<Rightarrow> nat \<Rightarrow> FrameState \<Rightarrow> (unit, FrameState) outcome" where
  "frame_dealloc hhdm frame s =
    (if \<not> PAGE_SIZE dvd frame then Panic
     else obind (uadd hhdm frame) (\<lambda>a.
          Ok (s\<lparr>fr_mem := (fr_mem s)(a := fr_head s), fr_head := frame\<rparr>)))"

subsection \<open>Invariant\<close>

fun free_path :: "(addr \<Rightarrow> nat) \<Rightarrow> nat \<Rightarrow> nat \<Rightarrow> nat list \<Rightarrow> bool" where
  "free_path m hhdm h [] \<longleftrightarrow> h = USIZE_MAX"
| "free_path m hhdm h (f # fs) \<longleftrightarrow> h = f \<and> free_path m hhdm (m (hhdm + f)) fs"

lemma free_path_upd: "f \<notin> set fs \<Longrightarrow> free_path (m(hhdm + f := v)) hhdm h fs = free_path m hhdm h fs"
  by (induction fs arbitrary: h) auto

definition regions_ok :: "nat \<Rightarrow> MemRegion list \<Rightarrow> bool" where
  "regions_ok hhdm regs \<longleftrightarrow>
    (\<forall>r\<in>set regs. PAGE_SIZE dvd rg_base r \<and> hhdm + rg_base r + rg_length r + PAGE_SIZE \<le> USIZE_MAX) \<and>
    (\<forall>i j. i < j \<and> j < length regs \<longrightarrow>
       rg_base (regs ! i) + rg_length (regs ! i) \<le> rg_base (regs ! j) \<or> rg_base (regs ! j) + rg_length (regs ! j) \<le> rg_base (regs ! i))"

text \<open>The frames before the position: those of earlier regions, and of the region of the
  position below its offset.\<close>

definition frame_in :: "MemRegion list \<Rightarrow> nat \<Rightarrow> nat \<Rightarrow> bool" where
  "frame_in regs i f \<longleftrightarrow> i < length regs \<and> rg_usable (regs ! i) \<and> PAGE_SIZE dvd f \<and>
    rg_base (regs ! i) \<le> f \<and> f + PAGE_SIZE \<le> rg_base (regs ! i) + rg_length (regs ! i)"

definition passed :: "MemRegion list \<Rightarrow> nat \<Rightarrow> nat \<Rightarrow> nat set" where
  "passed regs region offset =
    {f. \<exists>i\<le>region. frame_in regs i f \<and> (i = region \<longrightarrow> f + PAGE_SIZE \<le> rg_base (regs ! i) + offset)}"

definition frames_inv :: "MemRegion list \<Rightarrow> nat \<Rightarrow> nat set \<Rightarrow> nat list \<Rightarrow> FrameState \<Rightarrow> bool" where
  "frames_inv regs hhdm used released s \<longleftrightarrow>
    fr_region s < length regs \<and> rg_usable (regs ! fr_region s) \<and> PAGE_SIZE dvd fr_offset s \<and>
    fr_offset s \<le> rg_length (regs ! fr_region s) \<and>
    free_path (fr_mem s) hhdm (fr_head s) released \<and> distinct released \<and> set released \<inter> used = {} \<and>
    set released \<union> used \<subseteq> passed regs (fr_region s) (fr_offset s)"

lemma frames_inv_init:
  assumes "init_physical_memory_allocator regs \<lparr>fr_head = USIZE_MAX, fr_region = 0, fr_offset = 0, fr_mem = m\<rparr> = Ok s"
  shows "frames_inv regs hhdm {} [] s"
  using assms find_usable_Some [of regs 0]
  by (auto simp: init_physical_memory_allocator_def frames_inv_def split: option.splits)

text \<open>A write into a frame in use changes nothing for the allocator.\<close>

lemma frames_inv_write:
  assumes "frames_inv regs hhdm used released s" "f \<in> used" "k + 8 \<le> PAGE_SIZE"
  shows "frames_inv regs hhdm used released (s\<lparr>fr_mem := (fr_mem s)(hhdm + (f + k) := v)\<rparr>)"
proof -
  have "f + k \<noteq> g" if "g \<in> set released" for g
  proof
    assume eq: "f + k = g"
    have "PAGE_SIZE dvd f" "PAGE_SIZE dvd g" "f \<noteq> g"
      using assms(1,2) that by (auto simp: frames_inv_def passed_def frame_in_def)
    then have "PAGE_SIZE dvd k" using eq by (metis dvd_add_right_iff)
    then show False using assms(3) eq \<open>f \<noteq> g\<close> by (auto dest: dvd_imp_le)
  qed
  then have "f + k \<notin> set released" by blast
  then show ?thesis using assms(1) by (simp add: frames_inv_def free_path_upd)
qed

lemma advance_Ok:
  assumes "advance regs bytes region offset = Ok (found, region', offset')" "rg_usable (regs ! region)" "offset \<le> rg_length (regs ! region)"
    "PAGE_SIZE dvd offset"
  shows "region' < length regs \<and> rg_usable (regs ! region') \<and> PAGE_SIZE dvd offset' \<and> offset' \<le> rg_length (regs ! region') \<and>
    (region' = region \<and> offset' = offset \<or> region < region' \<and> offset' = 0) \<and>
    (found \<longrightarrow> offset' + bytes \<le> rg_length (regs ! region'))"
  using assms
proof (induction regs bytes region offset rule: advance.induct)
  case (1 regs bytes region offset)
  have r: "region < length regs" "offset + bytes \<le> USIZE_MAX"
    using 1(2) by (auto simp: advance.simps [of regs bytes region] outcome_simps)
  show ?case
  proof (cases "offset + bytes \<le> rg_length (regs ! region)")
    case True
    then show ?thesis using 1(2-) r by (simp add: advance.simps [of regs bytes region])
  next
    case False
    show ?thesis
    proof (cases "find_usable regs (region + 1)")
      case None
      then show ?thesis using 1(2-) r False by (simp add: advance.simps [of regs bytes region])
    next
      case (Some u)
      have "advance regs bytes u 0 = Ok (found, region', offset')"
        using 1(2) r False Some by (simp add: advance.simps [of regs bytes region])
      then show ?thesis using 1(1) [of "offset + bytes" "regs ! region" u] r False Some find_usable_Some [OF Some] by auto
    qed
  qed
qed

lemma passed_mono:
  assumes "region' = region \<and> offset \<le> offset' \<or> region < region'"
  shows "passed regs region offset \<subseteq> passed regs region' offset'"
proof
  fix f assume "f \<in> passed regs region offset"
  then obtain i where "i \<le> region" "frame_in regs i f" "i = region \<longrightarrow> f + PAGE_SIZE \<le> rg_base (regs ! i) + offset"
    by (auto simp: passed_def)
  then show "f \<in> passed regs region' offset'" using assms unfolding passed_def by (intro CollectI exI [of _ i]) auto
qed

text \<open>A frame at or behind the position is not among those passed.\<close>

lemma not_passed:
  assumes "regions_ok hhdm regs" "frame_in regs region f" "rg_base (regs ! region) + offset \<le> f"
  shows "f \<notin> passed regs region offset"
proof
  assume "f \<in> passed regs region offset"
  then obtain i where i: "i \<le> region" "frame_in regs i f" "i = region \<longrightarrow> f + PAGE_SIZE \<le> rg_base (regs ! i) + offset"
    by (auto simp: passed_def)
  then have "i < region" using assms(3) by (cases "i = region") (auto simp: PAGE_SIZE_def)
  moreover have "region < length regs" using assms(2) by (simp add: frame_in_def)
  ultimately have "rg_base (regs ! i) + rg_length (regs ! i) \<le> rg_base (regs ! region) \<or>
      rg_base (regs ! region) + rg_length (regs ! region) \<le> rg_base (regs ! i)"
    using assms(1) unfolding regions_ok_def by blast
  then show False using i(2) assms(2) by (auto simp: frame_in_def PAGE_SIZE_def)
qed

lemma region_bounds:
  assumes "regions_ok hhdm regs" "i < length regs"
  shows "PAGE_SIZE dvd rg_base (regs ! i)" "hhdm + rg_base (regs ! i) + rg_length (regs ! i) + PAGE_SIZE \<le> USIZE_MAX"
  using assms by (auto simp: regions_ok_def)

lemma passed_bounds:
  assumes "regions_ok hhdm regs" "f \<in> passed regs region offset"
  shows "PAGE_SIZE dvd f" "hhdm + f < USIZE_MAX"
proof -
  obtain i where i: "frame_in regs i f" using assms(2) by (auto simp: passed_def)
  then have "i < length regs" by (simp add: frame_in_def)
  then have "hhdm + rg_base (regs ! i) + rg_length (regs ! i) + PAGE_SIZE \<le> USIZE_MAX" using region_bounds(2) assms(1) by blast
  moreover have "f + PAGE_SIZE \<le> rg_base (regs ! i) + rg_length (regs ! i)" "0 < PAGE_SIZE"
    using i by (auto simp: frame_in_def PAGE_SIZE_def)
  ultimately show "hhdm + f < USIZE_MAX" by linarith
qed (use assms in \<open>auto simp: passed_def frame_in_def\<close>)

lemma advance_total:
  assumes "regions_ok hhdm regs" "region < length regs" "offset \<le> rg_length (regs ! region)"
  shows "is_ok (advance regs PAGE_SIZE region offset)"
  using assms
proof (induction regs "PAGE_SIZE" region offset rule: advance.induct)
  case (1 regs region offset)
  have fits: "offset + PAGE_SIZE \<le> USIZE_MAX" using region_bounds(2) [OF 1(2,3)] 1(4) by linarith
  show ?case
  proof (cases "find_usable regs (region + 1)")
    case None
    then show ?thesis using fits 1(3) by (cases "offset + PAGE_SIZE \<le> rg_length (regs ! region)")
        (simp_all add: advance.simps [of regs PAGE_SIZE region])
  next
    case (Some u)
    then have "\<not> offset + PAGE_SIZE \<le> rg_length (regs ! region) \<Longrightarrow> is_ok (advance regs PAGE_SIZE u 0)"
      using 1(1) [of "offset + PAGE_SIZE" "regs ! region" u] 1(2) find_usable_Some [OF Some] by simp
    then show ?thesis using fits 1(3) Some by (auto simp: advance.simps [of regs PAGE_SIZE region])
  qed
qed

lemma fresh_frames:
  assumes ok: "regions_ok hhdm regs" and inv: "frames_inv regs hhdm used released s"
    and adv: "advance regs (PAGE_SIZE * n) (fr_region s) (fr_offset s) = Ok (True, region, offset)"
    and f: "f = rg_base (regs ! region) + offset" and k: "k < n"
  shows "frame_in regs region (f + PAGE_SIZE * k)" "f + PAGE_SIZE * k \<notin> used \<union> set released"
    "f + PAGE_SIZE * k \<in> passed regs region (offset + PAGE_SIZE * n)"
proof -
  have a: "region < length regs" "rg_usable (regs ! region)" "PAGE_SIZE dvd offset" "offset + PAGE_SIZE * n \<le> rg_length (regs ! region)"
    "region = fr_region s \<and> offset = fr_offset s \<or> fr_region s < region \<and> offset = 0"
    using advance_Ok [OF adv] inv by (auto simp: frames_inv_def)
  have kn: "PAGE_SIZE * k + PAGE_SIZE \<le> PAGE_SIZE * n" using k by (metis Suc_leI mult_Suc_right mult_le_mono2 add.commute)
  show fi: "frame_in regs region (f + PAGE_SIZE * k)"
    using a kn f region_bounds(1) [OF ok a(1)] by (simp add: frame_in_def)
  then have "f + PAGE_SIZE * k \<notin> passed regs region offset" by (rule not_passed [OF ok]) (simp add: f)
  moreover have "passed regs (fr_region s) (fr_offset s) \<subseteq> passed regs region offset"
    by (rule passed_mono) (use a(5) in auto)
  ultimately show "f + PAGE_SIZE * k \<notin> used \<union> set released" using inv by (auto simp: frames_inv_def)
  show "f + PAGE_SIZE * k \<in> passed regs region (offset + PAGE_SIZE * n)"
    using fi kn unfolding passed_def by (intro CollectI exI [of _ region]) (simp add: f)
qed

lemma frames_inv_grow:
  assumes inv: "frames_inv regs hhdm used released s"
    and adv: "advance regs (PAGE_SIZE * n) (fr_region s) (fr_offset s) = Ok (found, region, offset)"
    and new: "\<forall>f\<in>new. f \<in> passed regs region offset' \<and> f \<notin> set released"
    and off: "offset \<le> offset'" "PAGE_SIZE dvd offset'" "offset' \<le> rg_length (regs ! region)"
  shows "frames_inv regs hhdm (used \<union> new) released (s\<lparr>fr_region := region, fr_offset := offset'\<rparr>)"
proof -
  have a: "region < length regs" "rg_usable (regs ! region)"
    "region = fr_region s \<and> offset = fr_offset s \<or> fr_region s < region \<and> offset = 0"
    using advance_Ok [OF adv] inv by (auto simp: frames_inv_def)
  have "passed regs (fr_region s) (fr_offset s) \<subseteq> passed regs region offset'"
    by (rule passed_mono) (use a(3) off(1) in auto)
  then show ?thesis using inv new off(2,3) a(1,2) by (auto simp: frames_inv_def)
qed

lemma frame_alloc_bump:
  assumes ok: "regions_ok hhdm regs" and inv: "frames_inv regs hhdm used [] s"
  shows "\<exists>r s'. frame_alloc regs hhdm s = Ok (r, s') \<and>
    (case r of None \<Rightarrow> frames_inv regs hhdm used [] s'
     | Some f \<Rightarrow> f \<notin> used \<and> (\<exists>i. frame_in regs i f) \<and> frames_inv regs hhdm (insert f used) [] s')"
proof -
  have i: "fr_head s = USIZE_MAX" "fr_region s < length regs" "fr_offset s \<le> rg_length (regs ! fr_region s)"
    using inv by (auto simp: frames_inv_def)
  obtain found region offset where adv: "advance regs (PAGE_SIZE * 1) (fr_region s) (fr_offset s) = Ok (found, region, offset)"
    using advance_total [OF ok i(2,3)] by (auto simp: is_ok_iff)
  have a: "region < length regs" "PAGE_SIZE dvd offset" "offset \<le> rg_length (regs ! region)"
    "found \<Longrightarrow> offset + PAGE_SIZE \<le> rg_length (regs ! region)"
    using advance_Ok [OF adv] inv by (auto simp: frames_inv_def)
  note b = region_bounds(2) [OF ok a(1)]
  show ?thesis
  proof (cases found)
    case False
    then have "frame_alloc regs hhdm s = Ok (None, s\<lparr>fr_region := region, fr_offset := offset\<rparr>)"
      using adv i(1) by (simp add: frame_alloc_def)
    then show ?thesis using frames_inv_grow [OF inv adv, of "{}" offset] a(2,3) by auto
  next
    case True
    define f where "f = rg_base (regs ! region) + offset"
    have "advance regs (PAGE_SIZE * 1) (fr_region s) (fr_offset s) = Ok (True, region, offset)" using adv True by simp
    note fr = fresh_frames [OF ok inv this f_def, of 0, simplified]
    have "frame_alloc regs hhdm s = Ok (Some f, s\<lparr>fr_region := region, fr_offset := offset + PAGE_SIZE\<rparr>)"
      using adv i(1) True a(1,4) b by (simp add: frame_alloc_def f_def)
    moreover have "frames_inv regs hhdm (insert f used) [] (s\<lparr>fr_region := region, fr_offset := offset + PAGE_SIZE\<rparr>)"
      using frames_inv_grow [OF inv adv, of "{f}" "offset + PAGE_SIZE"] fr a(2,4) True by simp
    ultimately show ?thesis using fr by auto
  qed
qed

lemma frame_alloc_list:
  assumes ok: "regions_ok hhdm regs" and inv: "frames_inv regs hhdm used (f # released) s"
  shows "\<exists>s'. frame_alloc regs hhdm s = Ok (Some f, s') \<and> f \<notin> used \<and> (\<exists>i. frame_in regs i f) \<and>
    frames_inv regs hhdm (insert f used) released s'"
proof -
  have i: "fr_head s = f" "f \<in> passed regs (fr_region s) (fr_offset s)" "f \<notin> used" "f \<notin> set released"
    using inv by (auto simp: frames_inv_def)
  have "frame_alloc regs hhdm s = Ok (Some f, s\<lparr>fr_head := fr_mem s (hhdm + f)\<rparr>)"
    using i(1) passed_bounds [OF ok i(2)] by (simp add: frame_alloc_def)
  moreover have "frames_inv regs hhdm (insert f used) released (s\<lparr>fr_head := fr_mem s (hhdm + f)\<rparr>)"
    using inv i(1,4) by (auto simp: frames_inv_def)
  ultimately show ?thesis using i(2,3) by (auto simp: passed_def)
qed

lemma frame_dealloc_ok:
  assumes ok: "regions_ok hhdm regs" and inv: "frames_inv regs hhdm used released s" and f: "f \<in> used"
  shows "\<exists>s'. frame_dealloc hhdm f s = Ok s' \<and> frames_inv regs hhdm (used - {f}) (f # released) s'"
proof -
  have i: "f \<in> passed regs (fr_region s) (fr_offset s)" "f \<notin> set released" using inv f by (auto simp: frames_inv_def)
  have "frame_dealloc hhdm f s = Ok (s\<lparr>fr_mem := (fr_mem s)(hhdm + f := fr_head s), fr_head := f\<rparr>)"
    using passed_bounds [OF ok i(1)] by (simp add: frame_dealloc_def)
  then show ?thesis using inv i by (auto simp: frames_inv_def free_path_upd)
qed

lemma alloc_frames_ok:
  assumes ok: "regions_ok hhdm regs" and inv: "frames_inv regs hhdm used released s"
    and al: "alloc_frames regs n s = Ok (f, s')"
  shows "(\<forall>k<n. f + PAGE_SIZE * k \<notin> used \<and> (\<exists>i. frame_in regs i (f + PAGE_SIZE * k))) \<and>
    frames_inv regs hhdm (used \<union> (\<lambda>k. f + PAGE_SIZE * k) ` {..<n}) released s'"
proof -
  obtain region offset where
    adv: "advance regs (PAGE_SIZE * n) (fr_region s) (fr_offset s) = Ok (True, region, offset)"
    and f: "f = rg_base (regs ! region) + offset" and s': "s' = s\<lparr>fr_region := region, fr_offset := offset + PAGE_SIZE * n\<rparr>"
    using al by (auto simp: alloc_frames_def outcome_simps split: if_splits)
  have "PAGE_SIZE dvd offset" "offset + PAGE_SIZE * n \<le> rg_length (regs ! region)"
    using advance_Ok [OF adv] inv by (auto simp: frames_inv_def)
  then show ?thesis
    using fresh_frames [OF ok inv adv f] frames_inv_grow [OF inv adv, of "(\<lambda>k. f + PAGE_SIZE * k) ` {..<n}" "offset + PAGE_SIZE * n"]
    unfolding s' by auto
qed

subsection \<open>Runs\<close>

text \<open>The allocator with the set of frames in use: any order of the operations, where only
  frames in use are released, and holders write machine words into their frames.\<close>

inductive frame_step :: "MemRegion list \<Rightarrow> nat \<Rightarrow> FrameState \<times> nat set \<Rightarrow> FrameState \<times> nat set \<Rightarrow> bool" for regs hhdm where
  alloc: "frame_alloc regs hhdm s = Ok (Some f, s') \<Longrightarrow> frame_step regs hhdm (s, used) (s', insert f used)"
| again: "frame_alloc regs hhdm s = Ok (None, s') \<Longrightarrow> frame_step regs hhdm (s, used) (s', used)"
| alloc_many: "alloc_frames regs n s = Ok (f, s') \<Longrightarrow>
    frame_step regs hhdm (s, used) (s', used \<union> (\<lambda>k. f + PAGE_SIZE * k) ` {..<n})"
| dealloc: "f \<in> used \<Longrightarrow> frame_dealloc hhdm f s = Ok s' \<Longrightarrow> frame_step regs hhdm (s, used) (s', used - {f})"
| store: "f \<in> used \<Longrightarrow> k + 8 \<le> PAGE_SIZE \<Longrightarrow>
    frame_step regs hhdm (s, used) (s\<lparr>fr_mem := (fr_mem s)(hhdm + (f + k) := v)\<rparr>, used)"

lemma frame_alloc_ok:
  assumes "regions_ok hhdm regs" "frames_inv regs hhdm used released s"
  shows "\<exists>r s'. frame_alloc regs hhdm s = Ok (r, s') \<and> (\<exists>released'. case r of
      None \<Rightarrow> released = [] \<and> frames_inv regs hhdm used released' s'
    | Some f \<Rightarrow> f \<notin> used \<and> (\<exists>i. frame_in regs i f) \<and> frames_inv regs hhdm (insert f used) released' s')"
proof (cases released)
  case Nil
  then show ?thesis using frame_alloc_bump [OF assms(1)] assms(2) by (fastforce split: option.splits)
next
  case (Cons f fs)
  then obtain s' where "frame_alloc regs hhdm s = Ok (Some f, s')" "f \<notin> used" "\<exists>i. frame_in regs i f"
    "frames_inv regs hhdm (insert f used) fs s'"
    using frame_alloc_list [OF assms(1)] assms(2) by blast
  then show ?thesis by (intro exI [of _ "Some f"] exI [of _ s'] conjI exI [of _ fs]) auto
qed

lemma frame_step_inv:
  assumes "regions_ok hhdm regs" "frame_step regs hhdm c c'" "\<exists>released. frames_inv regs hhdm (snd c) released (fst c)"
  shows "\<exists>released. frames_inv regs hhdm (snd c') released (fst c')"
proof -
  obtain released where inv: "frames_inv regs hhdm (snd c) released (fst c)" using assms(3) by blast
  show ?thesis using assms(2)
  proof cases
    case (alloc s f s' used)
    then show ?thesis using frame_alloc_ok [OF assms(1) inv] by auto
  next
    case (again s s' used)
    then show ?thesis using frame_alloc_ok [OF assms(1) inv] by auto
  next
    case (alloc_many n s f s' used)
    then show ?thesis using alloc_frames_ok [OF assms(1) inv] by auto
  next
    case (dealloc f used s s')
    then show ?thesis using frame_dealloc_ok [OF assms(1) inv, of f] by auto
  next
    case (store f used k s v)
    then show ?thesis using frames_inv_write [OF inv] by auto
  qed
qed

lemma frame_run_inv:
  assumes "regions_ok hhdm regs" "(frame_step regs hhdm)\<^sup>*\<^sup>* (s0, {}) (s, used)" "frames_inv regs hhdm {} [] s0"
  shows "\<exists>released. frames_inv regs hhdm used released s"
proof -
  have "\<exists>released. frames_inv regs hhdm (snd c) released (fst c)" if "(frame_step regs hhdm)\<^sup>*\<^sup>* (s0, {}) c" for c
    using that by (induction rule: rtranclp_induct) (use assms(3) in \<open>auto intro: frame_step_inv [OF assms(1)]\<close>)
  then show ?thesis using assms(2) by fastforce
qed

text \<open>
  C8. No frame is handed out twice: from the initial state, after any sequence of
  allocations, releases of frames in use and writes of their holders, \<open>frame_alloc\<close>
  does not panic and returns, if anything, a page-aligned frame of a usable region that
  is not in use; the contiguous allocation returns only such frames; and releasing a
  frame and allocating again returns that frame.
\<close>

theorem frames_never_shared:
  assumes "regions_ok hhdm regs"
    and "init_physical_memory_allocator regs \<lparr>fr_head = USIZE_MAX, fr_region = 0, fr_offset = 0, fr_mem = m\<rparr> = Ok s0"
    and "(frame_step regs hhdm)\<^sup>*\<^sup>* (s0, {}) (s, used)"
  shows "is_ok (frame_alloc regs hhdm s) \<and>
    (frame_alloc regs hhdm s = Ok (Some f, s') \<longrightarrow> f \<notin> used \<and> (\<exists>i. frame_in regs i f)) \<and>
    (alloc_frames regs n s = Ok (f, s') \<longrightarrow>
       (\<forall>k<n. f + PAGE_SIZE * k \<notin> used \<and> (\<exists>i. frame_in regs i (f + PAGE_SIZE * k)))) \<and>
    (g \<in> used \<longrightarrow> (\<exists>s1 s2. frame_dealloc hhdm g s = Ok s1 \<and> frame_alloc regs hhdm s1 = Ok (Some g, s2)))"
proof -
  obtain released where inv: "frames_inv regs hhdm used released s"
    using frame_run_inv [OF assms(1,3) frames_inv_init [OF assms(2)]] by blast
  have "\<exists>s1 s2. frame_dealloc hhdm g s = Ok s1 \<and> frame_alloc regs hhdm s1 = Ok (Some g, s2)" if g: "g \<in> used"
    using frame_dealloc_ok [OF assms(1) inv g] frame_alloc_list [OF assms(1)] by blast
  moreover have "f \<notin> used \<and> (\<exists>i. frame_in regs i f)" if "frame_alloc regs hhdm s = Ok (Some f, s')"
    using frame_alloc_ok [OF assms(1) inv] that by auto
  moreover have "is_ok (frame_alloc regs hhdm s)"
    using frame_alloc_ok [OF assms(1) inv] by (auto simp: is_ok_iff)
  ultimately show ?thesis using alloc_frames_ok [OF assms(1) inv] by blast
qed

text \<open>A map with a reserved region before two usable ones; one frame is in use.\<close>

definition sample_regions :: "MemRegion list" where
  "sample_regions = [\<lparr>rg_base = 0, rg_length = 4096, rg_usable = False\<rparr>, \<lparr>rg_base = 4096, rg_length = 4096, rg_usable = True\<rparr>,
     \<lparr>rg_base = 12288, rg_length = 8192, rg_usable = True\<rparr>]"

lemma sample_regions_ok: "regions_ok 65536 sample_regions"
  by (auto simp: regions_ok_def sample_regions_def PAGE_SIZE_def USIZE_MAX_def less_Suc_eq)

definition sample_frames :: "nat \<Rightarrow> FrameState" where
  "sample_frames offset = \<lparr>fr_head = USIZE_MAX, fr_region = 1, fr_offset = offset, fr_mem = (\<lambda>_. 0)\<rparr>"

lemma sample_frames_run:
  "init_physical_memory_allocator sample_regions \<lparr>fr_head = USIZE_MAX, fr_region = 0, fr_offset = 0, fr_mem = (\<lambda>_. 0)\<rparr>
    = Ok (sample_frames 0)"
  "(frame_step sample_regions 65536)\<^sup>*\<^sup>* (sample_frames 0, {}) (sample_frames 4096, {4096})"
proof -
  show "init_physical_memory_allocator sample_regions \<lparr>fr_head = USIZE_MAX, fr_region = 0, fr_offset = 0, fr_mem = (\<lambda>_. 0)\<rparr>
    = Ok (sample_frames 0)"
    by (simp add: init_physical_memory_allocator_def find_usable_def sample_regions_def sample_frames_def upt_rec)
  have "frame_alloc sample_regions 65536 (sample_frames 0) = Ok (Some 4096, sample_frames 4096)"
    by (simp add: frame_alloc_def sample_frames_def sample_regions_def advance.simps [of _ _ "Suc 0"] PAGE_SIZE_def USIZE_MAX_def)
  then show "(frame_step sample_regions 65536)\<^sup>*\<^sup>* (sample_frames 0, {}) (sample_frames 4096, {4096})"
    using frame_step.alloc by blast
qed

theorem frames_never_shared_witness:
  "is_ok (frame_alloc sample_regions 65536 (sample_frames 4096)) \<and>
    (\<exists>s1 s2. frame_dealloc 65536 4096 (sample_frames 4096) = Ok s1 \<and> frame_alloc sample_regions 65536 s1 = Ok (Some 4096, s2))"
  using frames_never_shared [OF sample_regions_ok sample_frames_run, of 0 "sample_frames 0" 1 4096] by simp

end
