(* ===== verification/Kernel_Vm.thy ===== *)
theory Kernel_Vm
  imports Cab_Prelude "HOL-Library.Product_Lexorder" "HOL-Library.Multiset"
begin

unbundle bit_operations_syntax

section \<open>Kernel address space\<close>

text \<open>
  Model of the allocator of kernel addresses in \<^verbatim>\<open>src/src/memory/virtual_memory.rs\<close>. Two
  intrusive trees hold the allocated ranges by base and the free ranges by length and
  base. The trees are code of another package: \<open>vme_ops\<close> has the operations the code
  calls and the locale \<open>vme_tree\<close> their documented behaviour over the multiset of the
  nodes, where a cursor is the node it points to, or None for the null object. The page
  tables are seen as maps from page addresses to frames with their options; walking and
  building their levels is the theory \<open>Page_Table\<close>, and the flushing of TLBs is not
  modelled. Mapping over a mapped page replaces it, as on aarch64. The options stored in
  an entry, which are only printed, are left out.

  The invariant is the design the code names: allocated and free ranges are disjoint,
  cover the address space, and the free ranges are exactly the gaps. Allocation keeps
  it and is best fit; releasing a range between two others keeps it; releasing the
  topmost or the lowest range does not.
\<close>

subsection \<open>State and operations\<close>

type_synonym PagingOptions = "64 word"

definition OPT_PRESENT :: PagingOptions where "OPT_PRESENT = 1"
definition OPT_WRITABLE :: PagingOptions where "OPT_WRITABLE = 2"
definition OPT_EXECUTABLE :: PagingOptions where "OPT_EXECUTABLE = 4"
definition OPT_USER_ACCESSIBLE :: PagingOptions where "OPT_USER_ACCESSIBLE = 8"
definition OPT_CACHEABLE :: PagingOptions where "OPT_CACHEABLE = 32"
definition OPT_SHADOW :: PagingOptions where "OPT_SHADOW = 256"

definition has_option :: "PagingOptions \<Rightarrow> PagingOptions \<Rightarrow> bool" where
  "has_option options flag \<longleftrightarrow> options AND flag = flag"

record VirtualMemoryEntry =
  vme_base :: nat
  vme_length :: nat

record ('k, 't) vme_ops =
  vt_new :: 't
  vt_insert :: "VirtualMemoryEntry \<Rightarrow> 't \<Rightarrow> 't"
  vt_remove :: "VirtualMemoryEntry \<Rightarrow> 't \<Rightarrow> 't"
  vt_find :: "'k \<Rightarrow> 't \<Rightarrow> VirtualMemoryEntry option"
  vt_upper_included :: "'k \<Rightarrow> 't \<Rightarrow> VirtualMemoryEntry option"
  vt_upper_excluded :: "'k \<Rightarrow> 't \<Rightarrow> VirtualMemoryEntry option"
  vt_lower_included :: "'k \<Rightarrow> 't \<Rightarrow> VirtualMemoryEntry option"
  vt_move_next :: "VirtualMemoryEntry option \<Rightarrow> 't \<Rightarrow> VirtualMemoryEntry option"
  vt_move_prev :: "VirtualMemoryEntry option \<Rightarrow> 't \<Rightarrow> VirtualMemoryEntry option"
  vt_front :: "'t \<Rightarrow> VirtualMemoryEntry option"
  vt_back :: "'t \<Rightarrow> VirtualMemoryEntry option"

type_synonym page_map = "nat \<Rightarrow> (nat \<times> PagingOptions) option"

record ('a, 'f) VirtualMemoryEntryContainer =
  vm_low :: nat
  vm_high :: nat
  vm_active :: 'a
  vm_free :: 'f
  vm_pages :: "nat \<Rightarrow> page_map"

record VirtualMemoryAllocation =
  al_space :: nat
  al_base :: nat
  al_length :: nat
  al_owns_backing :: bool

definition container_new ::
  "(nat, 'a) vme_ops \<Rightarrow> (nat \<times> nat, 'f) vme_ops \<Rightarrow> nat \<Rightarrow> nat \<Rightarrow> (nat \<Rightarrow> page_map)
    \<Rightarrow> (unit, ('a, 'f) VirtualMemoryEntryContainer) outcome" where
  "container_new A F low high pages =
    omap (\<lambda>len. \<lparr>vm_low = low, vm_high = high, vm_active = vt_new A,
        vm_free = vt_insert F \<lparr>vme_base = low, vme_length = len\<rparr> (vt_new F), vm_pages = pages\<rparr>)
      (usub high low)"

definition vme_end :: "VirtualMemoryEntry \<Rightarrow> nat" where
  "vme_end e = vme_base e + vme_length e"

text \<open>The free range for a mapping at a fixed base: the gap between the allocated ranges
  around it, cut at the base.\<close>

definition choose_fixed ::
  "(nat, 'a) vme_ops \<Rightarrow> (nat \<times> nat, 'f) vme_ops \<Rightarrow> nat \<Rightarrow> ('a, 'f) VirtualMemoryEntryContainer
    \<Rightarrow> (unit, VirtualMemoryEntry \<times> 'f) outcome" where
  "choose_fixed A F base v =
    (let cursor = vt_upper_excluded A base (vm_active v);
         bottom = (case cursor of Some entry \<Rightarrow> vme_end entry | None \<Rightarrow> vm_low v);
         top = (case vt_move_next A cursor (vm_active v) of Some entry \<Rightarrow> vme_base entry | None \<Rightarrow> vm_high v)
     in obind (usub top bottom) (\<lambda>len.
        obind (unwrap (vt_find F (len, bottom) (vm_free v))) (\<lambda>chosen.
        let free = vt_remove F chosen (vm_free v)
        in if vme_base chosen < base
           then obind (usub (vme_length chosen) (base - vme_base chosen)) (\<lambda>rest.
                Ok (\<lparr>vme_base = base, vme_length = rest\<rparr>,
                    vt_insert F \<lparr>vme_base = vme_base chosen, vme_length = base - vme_base chosen\<rparr> free))
           else Ok (chosen, free))))"

definition choose_best ::
  "(nat \<times> nat, 'f) vme_ops \<Rightarrow> nat \<Rightarrow> ('a, 'f) VirtualMemoryEntryContainer \<Rightarrow> (unit, VirtualMemoryEntry \<times> 'f) outcome" where
  "choose_best F len v =
    obind (unwrap (vt_lower_included F (len, 0) (vm_free v))) (\<lambda>chosen.
    Ok (chosen, vt_remove F chosen (vm_free v)))"

definition already_covered :: "(nat, 'a) vme_ops \<Rightarrow> nat \<Rightarrow> nat \<Rightarrow> ('a, 'f) VirtualMemoryEntryContainer \<Rightarrow> bool" where
  "already_covered A base len v =
    (case vt_upper_included A base (vm_active v) of Some entry \<Rightarrow> base + len \<le> vme_end entry | None \<Rightarrow> False)"

fun map_pages :: "nat \<Rightarrow> nat \<Rightarrow> PagingOptions \<Rightarrow> nat \<Rightarrow> page_map \<Rightarrow> page_map" where
  "map_pages base physical options 0 p = p"
| "map_pages base physical options (Suc n) p =
    map_pages (base + PAGE_SIZE) (physical + PAGE_SIZE) options n (p(base \<mapsto> (physical, options)))"

definition take_range ::
  "(nat, 'a) vme_ops \<Rightarrow> (nat \<times> nat, 'f) vme_ops \<Rightarrow> nat \<Rightarrow> VirtualMemoryEntry \<times> 'f
    \<Rightarrow> ('a, 'f) VirtualMemoryEntryContainer \<Rightarrow> (unit, nat \<times> ('a, 'f) VirtualMemoryEntryContainer) outcome" where
  "take_range A F len = (\<lambda>(chosen, free) v.
    if vme_length chosen < len then Panic
    else let base = vme_base chosen;
             free' = (if vme_length chosen \<noteq> len
                      then vt_insert F \<lparr>vme_base = base + len, vme_length = vme_length chosen - len\<rparr> free else free)
         in Ok (base, v\<lparr>vm_free := free', vm_active := vt_insert A \<lparr>vme_base = base, vme_length = len\<rparr> (vm_active v)\<rparr>))"

definition install ::
  "nat \<Rightarrow> nat \<Rightarrow> nat option \<Rightarrow> PagingOptions \<Rightarrow> bool \<Rightarrow> nat \<times> ('a, 'f) VirtualMemoryEntryContainer
    \<Rightarrow> (unit, VirtualMemoryAllocation option \<times> ('a, 'f) VirtualMemoryEntryContainer) outcome" where
  "install space len backing options owns_backing = (\<lambda>(base, v).
    let v1 = (case backing of
                Some physical \<Rightarrow> v\<lparr>vm_pages := (vm_pages v)(space :=
                    map_pages base physical options (len div PAGE_SIZE) (vm_pages v space))\<rparr>
              | None \<Rightarrow> v)
    in Ok (if has_option options OPT_SHADOW then None
           else Some \<lparr>al_space = space, al_base = base, al_length = len, al_owns_backing = owns_backing\<rparr>, v1))"

definition allocation_new ::
  "(nat, 'a) vme_ops \<Rightarrow> (nat \<times> nat, 'f) vme_ops \<Rightarrow> nat \<Rightarrow> nat option \<Rightarrow> nat \<Rightarrow> nat option \<Rightarrow> PagingOptions \<Rightarrow> bool
    \<Rightarrow> ('a, 'f) VirtualMemoryEntryContainer
    \<Rightarrow> (unit, VirtualMemoryAllocation option \<times> ('a, 'f) VirtualMemoryEntryContainer) outcome" where
  "allocation_new A F space start len backing options owns_backing v =
    (if \<not> PAGE_SIZE dvd len then Panic
     else case start of
       Some b \<Rightarrow>
         if has_option options OPT_SHADOW \<and> already_covered A b len v then Ok (None, v)
         else obind (choose_fixed A F b v) (\<lambda>c. obind (take_range A F len c v) (install space len backing options owns_backing))
     | None \<Rightarrow> obind (choose_best F len v) (\<lambda>c. obind (take_range A F len c v) (install space len backing options owns_backing)))"

text \<open>Unmapping goes from the last page to the first; the frames of an owned backing are
  released in that order.\<close>

fun unmap_pages :: "bool \<Rightarrow> nat \<Rightarrow> nat \<Rightarrow> page_map \<Rightarrow> nat list \<times> page_map" where
  "unmap_pages owns base 0 p = ([], p)"
| "unmap_pages owns base (Suc n) p =
    (let a = base + n * PAGE_SIZE;
         (frames, p') = unmap_pages owns base n (p(a := None))
     in (case p a of Some (frame, _) \<Rightarrow> if owns then frame # frames else frames | None \<Rightarrow> frames, p'))"

definition merge_above ::
  "(nat \<times> nat, 'f) vme_ops \<Rightarrow> VirtualMemoryEntry option \<Rightarrow> VirtualMemoryEntry \<Rightarrow> 'f
    \<Rightarrow> (unit, VirtualMemoryEntry \<times> 'f) outcome" where
  "merge_above F nxt found free =
    (case nxt of
       Some next_entry \<Rightarrow>
         if vme_base next_entry \<noteq> vme_end found
         then obind (usub (vme_base next_entry) (vme_end found)) (\<lambda>gap.
              obind (unwrap (vt_find F (gap, vme_end found) free)) (\<lambda>above.
              Ok (found\<lparr>vme_length := vme_length found + vme_length above\<rparr>, vt_remove F above free)))
         else Ok (found, free)
     | None \<Rightarrow>
         (case vt_back F free of
            Some back \<Rightarrow>
              if vme_base found < vme_base back
              then if vme_end found \<noteq> vme_base back then Panic
                   else Ok (found\<lparr>vme_length := vme_length found + vme_length back\<rparr>, free)
              else Ok (found, free)
          | None \<Rightarrow> Ok (found, free)))"

definition merge_below ::
  "(nat \<times> nat, 'f) vme_ops \<Rightarrow> VirtualMemoryEntry option \<Rightarrow> VirtualMemoryEntry \<times> 'f
    \<Rightarrow> (unit, VirtualMemoryEntry \<times> 'f) outcome" where
  "merge_below F prv = (\<lambda>(found, free).
    case prv of
      Some prev_entry \<Rightarrow>
        if vme_base found < vme_end prev_entry then Panic
        else if vme_end prev_entry \<noteq> vme_base found
        then obind (unwrap (vt_find F (vme_base found - vme_end prev_entry, vme_end prev_entry) free)) (\<lambda>below.
             Ok (\<lparr>vme_base = vme_base below, vme_length = vme_length found + vme_length below\<rparr>, vt_remove F below free))
        else Ok (found, free)
    | None \<Rightarrow>
        (case vt_front F free of
           Some front \<Rightarrow>
             if vme_base front < vme_base found
             then if vme_end front \<noteq> vme_base found then Panic
                  else Ok (\<lparr>vme_base = vme_base front, vme_length = vme_length found + vme_length front\<rparr>, free)
             else Ok (found, free)
         | None \<Rightarrow> Ok (found, free)))"

definition allocation_drop ::
  "(nat, 'a) vme_ops \<Rightarrow> (nat \<times> nat, 'f) vme_ops \<Rightarrow> VirtualMemoryAllocation \<Rightarrow> ('a, 'f) VirtualMemoryEntryContainer
    \<Rightarrow> (unit, nat list \<times> ('a, 'f) VirtualMemoryEntryContainer) outcome" where
  "allocation_drop A F al v =
    (let (frames, p) = unmap_pages (al_owns_backing al) (al_base al) (al_length al div PAGE_SIZE) (vm_pages v (al_space al));
         v1 = v\<lparr>vm_pages := (vm_pages v)(al_space al := p)\<rparr>
     in obind (unwrap (vt_find A (al_base al) (vm_active v1))) (\<lambda>found.
        let nxt = vt_move_next A (Some found) (vm_active v1);
            active = vt_remove A found (vm_active v1);
            prv = vt_move_prev A nxt active
        in obind (merge_above F nxt found (vm_free v1)) (\<lambda>m.
           obind (merge_below F prv m) (\<lambda>(found', free).
           Ok (frames, v1\<lparr>vm_active := active, vm_free := vt_insert F found' free\<rparr>)))))"

text \<open>A page fault at a kernel address: inside an allocated range a fresh frame is mapped.\<close>

definition kernel_fault ::
  "(nat, 'a) vme_ops \<Rightarrow> nat \<Rightarrow> bool \<Rightarrow> nat \<Rightarrow> nat \<Rightarrow> ('a, 'f) VirtualMemoryEntryContainer
    \<Rightarrow> (unit, ('a, 'f) VirtualMemoryEntryContainer) outcome" where
  "kernel_fault A space present address frame v =
    (if present then Ok v
     else case vt_upper_included A address (vm_active v) of
            Some below \<Rightarrow>
              if address < vme_end below
              then Ok (v\<lparr>vm_pages := (vm_pages v)(space := (vm_pages v space)(address - address mod PAGE_SIZE \<mapsto>
                     (frame, OPT_PRESENT OR OPT_WRITABLE OR OPT_CACHEABLE)))\<rparr>)
              else Panic
          | None \<Rightarrow> Panic)"

subsection \<open>The documented behaviour of the trees\<close>

text \<open>\<open>r\<close> is a node of \<open>M\<close> with \<open>P\<close> whose key is greatest (least) among those, or None when
  there is no node with \<open>P\<close>.\<close>

definition greatest :: "('e \<Rightarrow> 'k :: linorder) \<Rightarrow> ('e \<Rightarrow> bool) \<Rightarrow> 'e multiset \<Rightarrow> 'e option \<Rightarrow> bool" where
  "greatest key P M r \<longleftrightarrow>
    (case r of None \<Rightarrow> \<forall>e\<in>#M. \<not> P e | Some m \<Rightarrow> m \<in># M \<and> P m \<and> (\<forall>e\<in>#M. P e \<longrightarrow> key e \<le> key m))"

definition least :: "('e \<Rightarrow> 'k :: linorder) \<Rightarrow> ('e \<Rightarrow> bool) \<Rightarrow> 'e multiset \<Rightarrow> 'e option \<Rightarrow> bool" where
  "least key P M r \<longleftrightarrow>
    (case r of None \<Rightarrow> \<forall>e\<in>#M. \<not> P e | Some m \<Rightarrow> m \<in># M \<and> P m \<and> (\<forall>e\<in>#M. P e \<longrightarrow> key m \<le> key e))"

locale vme_tree =
  fixes key :: "VirtualMemoryEntry \<Rightarrow> 'k :: linorder" and ops :: "('k, 't) vme_ops"
    and nodes :: "'t \<Rightarrow> VirtualMemoryEntry multiset"
  assumes nodes_new: "nodes (vt_new ops) = {#}"
    and nodes_insert: "nodes (vt_insert ops e t) = add_mset e (nodes t)"
    and nodes_remove: "e \<in># nodes t \<Longrightarrow> nodes (vt_remove ops e t) = nodes t - {#e#}"
    and find: "least key (\<lambda>e. key e = k) (nodes t) (vt_find ops k t)"
    and upper_included: "greatest key (\<lambda>e. key e \<le> k) (nodes t) (vt_upper_included ops k t)"
    and upper_excluded: "greatest key (\<lambda>e. key e < k) (nodes t) (vt_upper_excluded ops k t)"
    and lower_included: "least key (\<lambda>e. k \<le> key e) (nodes t) (vt_lower_included ops k t)"
    and next_null: "least key (\<lambda>e. True) (nodes t) (vt_move_next ops None t)"
    and next_node: "e \<in># nodes t \<Longrightarrow> inj_on key (set_mset (nodes t)) \<Longrightarrow> count (nodes t) e = 1 \<Longrightarrow>
      least key (\<lambda>x. key e < key x) (nodes t) (vt_move_next ops (Some e) t)"
    and prev_null: "greatest key (\<lambda>e. True) (nodes t) (vt_move_prev ops None t)"
    and prev_node: "e \<in># nodes t \<Longrightarrow> inj_on key (set_mset (nodes t)) \<Longrightarrow> count (nodes t) e = 1 \<Longrightarrow>
      greatest key (\<lambda>x. key x < key e) (nodes t) (vt_move_prev ops (Some e) t)"
    and front_node: "least key (\<lambda>e. True) (nodes t) (vt_front ops t)"
    and back_node: "greatest key (\<lambda>e. True) (nodes t) (vt_back ops t)"
begin

lemma find_Some: "vt_find ops k t = Some e \<Longrightarrow> e \<in># nodes t \<and> key e = k"
  using find [of k t] by (simp add: least_def)

lemma find_unique:
  assumes "e \<in># nodes t" "inj_on key (set_mset (nodes t))"
  shows "vt_find ops (key e) t = Some e"
  using find [of "key e" t] assms by (auto simp: least_def inj_on_def split: option.splits)

end

subsection \<open>Allocated and free ranges\<close>

abbreviation ent :: "nat \<Rightarrow> nat \<Rightarrow> VirtualMemoryEntry" where
  "ent b l \<equiv> \<lparr>vme_base = b, vme_length = l\<rparr>"

definition clear_of :: "VirtualMemoryEntry \<Rightarrow> VirtualMemoryEntry \<Rightarrow> bool" where
  "clear_of e g \<longleftrightarrow> vme_end e \<le> vme_base g \<or> vme_end g \<le> vme_base e"

definition in_bounds :: "nat \<Rightarrow> nat \<Rightarrow> VirtualMemoryEntry \<Rightarrow> bool" where
  "in_bounds low high e \<longleftrightarrow> 0 < vme_length e \<and> low \<le> vme_base e \<and> vme_end e \<le> high"

definition is_gap :: "nat \<Rightarrow> nat \<Rightarrow> VirtualMemoryEntry set \<Rightarrow> VirtualMemoryEntry \<Rightarrow> bool" where
  "is_gap low high A f \<longleftrightarrow> (vme_base f = low \<or> (\<exists>a\<in>A. vme_end a = vme_base f)) \<and>
    (vme_end f = high \<or> (\<exists>a\<in>A. vme_base a = vme_end f))"

definition vm_ok :: "nat \<Rightarrow> nat \<Rightarrow> VirtualMemoryEntry set \<Rightarrow> VirtualMemoryEntry set \<Rightarrow> bool" where
  "vm_ok low high A F \<longleftrightarrow>
    (\<forall>e\<in>A \<union> F. in_bounds low high e) \<and>
    (\<forall>e\<in>A \<union> F. \<forall>g\<in>A \<union> F. e \<noteq> g \<longrightarrow> clear_of e g) \<and> A \<inter> F = {} \<and>
    (\<forall>x. low \<le> x \<and> x < high \<longrightarrow> (\<exists>e\<in>A \<union> F. vme_base e \<le> x \<and> x < vme_end e)) \<and>
    (\<forall>f\<in>F. is_gap low high A f)"

lemma vm_okD:
  assumes "vm_ok low high A F"
  shows "e \<in> A \<union> F \<Longrightarrow> in_bounds low high e" "e \<in> A \<union> F \<Longrightarrow> g \<in> A \<union> F \<Longrightarrow> e \<noteq> g \<Longrightarrow> clear_of e g"
    "A \<inter> F = {}" "low \<le> x \<Longrightarrow> x < high \<Longrightarrow> \<exists>e\<in>A \<union> F. vme_base e \<le> x \<and> x < vme_end e" "f \<in> F \<Longrightarrow> is_gap low high A f"
  using assms unfolding vm_ok_def by blast+

lemma vm_ok_same_base:
  assumes "vm_ok low high A F" "e \<in> A \<union> F" "g \<in> A \<union> F" "vme_base e = vme_base g"
  shows "e = g"
proof (rule ccontr)
  assume "e \<noteq> g"
  then have "clear_of e g" using vm_okD(2) assms by blast
  moreover have "0 < vme_length e" "0 < vme_length g" using vm_okD(1) [OF assms(1)] assms(2,3) by (auto simp: in_bounds_def)
  ultimately show False using assms(4) by (auto simp: clear_of_def vme_end_def)
qed

text \<open>Allocating a part of a free range: what is left of it stays free.\<close>

definition cut_free :: "VirtualMemoryEntry \<Rightarrow> nat \<Rightarrow> nat \<Rightarrow> VirtualMemoryEntry set" where
  "cut_free f b len = (if vme_base f < b then {ent (vme_base f) (b - vme_base f)} else {}) \<union>
    (if b + len < vme_end f then {ent (b + len) (vme_end f - (b + len))} else {})"

lemma cut_free_inside:
  assumes "p \<in> insert (ent b len) (cut_free f b len)" "vme_base f \<le> b" "b + len \<le> vme_end f" "0 < len"
  shows "vme_base f \<le> vme_base p" "vme_end p \<le> vme_end f" "0 < vme_length p"
  using assms by (auto simp: cut_free_def vme_end_def split: if_splits)

lemma cut_free_apart:
  assumes "p \<in> insert (ent b len) (cut_free f b len)" "q \<in> insert (ent b len) (cut_free f b len)" "p \<noteq> q"
    "vme_base f \<le> b" "b + len \<le> vme_end f" "0 < len"
  shows "clear_of p q"
  using assms by (auto simp: cut_free_def vme_end_def clear_of_def split: if_splits)

lemma cut_free_covers:
  assumes "vme_base f \<le> x" "x < vme_end f" "vme_base f \<le> b" "b + len \<le> vme_end f"
  shows "\<exists>p\<in>insert (ent b len) (cut_free f b len). vme_base p \<le> x \<and> x < vme_end p"
proof -
  consider "x < b" | "b \<le> x \<and> x < b + len" | "b + len \<le> x" by linarith
  then show ?thesis using assms by cases (auto simp: cut_free_def vme_end_def)
qed

lemma vm_ok_cut:
  assumes ok: "vm_ok low high A F" and f: "f \<in> F" and cut: "vme_base f \<le> b" "b + len \<le> vme_end f" "0 < len"
  shows "vm_ok low high (insert (ent b len) A) (F - {f} \<union> cut_free f b len)"
proof -
  let ?N = "insert (ent b len) (cut_free f b len)"
  let ?O = "A \<union> (F - {f})"
  have un: "insert (ent b len) A \<union> (F - {f} \<union> cut_free f b len) = ?O \<union> ?N" by auto
  have fb: "in_bounds low high f" using vm_okD(1) [OF ok] f by blast
  have old: "clear_of e f \<and> in_bounds low high e" if "e \<in> ?O" for e
    using vm_okD(1,2) [OF ok] vm_okD(3) [OF ok] f that by blast
  have new: "in_bounds low high p" if "p \<in> ?N" for p
    using cut_free_inside [OF that cut] fb by (auto simp: in_bounds_def)
  have mix: "clear_of e p \<and> clear_of p e" if "e \<in> ?O" "p \<in> ?N" for e p
    using cut_free_inside [OF that(2) cut] old [OF that(1)] by (auto simp: clear_of_def)
  have irr: "\<not> clear_of e e" if "in_bounds low high e" for e using that by (auto simp: clear_of_def in_bounds_def vme_end_def)
  have "\<forall>e\<in>?O \<union> ?N. in_bounds low high e" using old new by blast
  moreover have "\<forall>e\<in>?O \<union> ?N. \<forall>g\<in>?O \<union> ?N. e \<noteq> g \<longrightarrow> clear_of e g"
    using vm_okD(2) [OF ok] mix cut_free_apart [OF _ _ _ cut] by blast
  moreover have "insert (ent b len) A \<inter> (F - {f} \<union> cut_free f b len) = {}"
  proof -
    have "?O \<inter> ?N = {}" using mix irr new by blast
    moreover have "ent b len \<notin> cut_free f b len" using cut by (auto simp: cut_free_def split: if_splits)
    ultimately show ?thesis using vm_okD(3) [OF ok] by blast
  qed
  moreover have "\<forall>x. low \<le> x \<and> x < high \<longrightarrow> (\<exists>e\<in>?O \<union> ?N. vme_base e \<le> x \<and> x < vme_end e)"
    using vm_okD(4) [OF ok] cut_free_covers [OF _ _ cut(1,2)] by blast
  moreover have "is_gap low high (insert (ent b len) A) g" if "g \<in> F - {f} \<union> cut_free f b len" for g
    using that vm_okD(5) [OF ok, of g] vm_okD(5) [OF ok f] cut by (auto simp: is_gap_def cut_free_def vme_end_def split: if_splits)
  ultimately show ?thesis unfolding vm_ok_def un by blast
qed

definition vm_inv ::
  "('a \<Rightarrow> VirtualMemoryEntry multiset) \<Rightarrow> ('f \<Rightarrow> VirtualMemoryEntry multiset) \<Rightarrow> ('a, 'f) VirtualMemoryEntryContainer \<Rightarrow> bool" where
  "vm_inv na nf v \<longleftrightarrow> vm_ok (vm_low v) (vm_high v) (set_mset (na (vm_active v))) (set_mset (nf (vm_free v))) \<and>
    (\<forall>e. count (na (vm_active v)) e \<le> 1) \<and> (\<forall>e. count (nf (vm_free v)) e \<le> 1)"

abbreviation free_key :: "VirtualMemoryEntry \<Rightarrow> nat \<times> nat" where
  "free_key e \<equiv> (vme_length e, vme_base e)"

lemma set_mset_remove1:
  assumes "count M e \<le> 1"
  shows "set_mset (M - {#e#}) = set_mset M - {e}"
proof (rule set_eqI)
  fix x
  show "x \<in># M - {#e#} \<longleftrightarrow> x \<in> set_mset M - {e}"
    using assms by (cases "x = e") (simp_all add: in_diff_count)
qed

lemma set_mset_minus:
  assumes "\<forall>e. count M e \<le> 1"
  shows "set_mset (M - N) = set_mset M - set_mset N"
proof (rule set_eqI)
  fix x
  have "count N x < count M x \<longleftrightarrow> 0 < count M x \<and> count N x = 0" using assms [rule_format, of x] by linarith
  then show "x \<in># M - N \<longleftrightarrow> x \<in> set_mset M - set_mset N"
    by (simp add: in_diff_count not_in_iff)
qed

text \<open>The pieces of a free range are new nodes.\<close>

lemma cut_free_new:
  assumes "vm_ok low high A F" "f \<in> F" "vme_base f \<le> b" "b + len \<le> vme_end f" "0 < len"
    "p \<in> insert (ent b len) (cut_free f b len)"
  shows "p \<notin> A \<union> (F - {f})"
proof
  assume p: "p \<in> A \<union> (F - {f})"
  then have "clear_of p f" using vm_okD(2,3) [OF assms(1)] assms(2) by blast
  then show False using cut_free_inside [OF assms(6,3,4,5)] by (auto simp: clear_of_def vme_end_def)
qed

lemma count_add1: "(\<forall>x. count M x \<le> 1) \<Longrightarrow> e \<notin># M \<Longrightarrow> \<forall>x. count (add_mset e M) x \<le> 1"
  by (simp add: not_in_iff)

text \<open>Around an address of a free range: the last allocated range before it ends where the
  free range begins, and the first one after it begins where the free range ends.\<close>

lemma gap_bottom:
  assumes ok: "vm_ok low high (set_mset A) F" and f: "f \<in> F" "vme_base f \<le> b" "b < vme_end f"
    and c: "greatest vme_base (\<lambda>e. vme_base e < b) A c"
  shows "(case c of Some a \<Rightarrow> vme_end a | None \<Rightarrow> low) = vme_base f"
proof -
  have gap: "vme_base f = low \<or> (\<exists>a\<in>#A. vme_end a = vme_base f)" using vm_okD(5) [OF ok f(1)] by (simp add: is_gap_def)
  have pos: "0 < vme_length a" "low \<le> vme_base a" if "a \<in># A" for a
    using vm_okD(1) [OF ok, of a] that by (auto simp: in_bounds_def)
  show ?thesis
  proof (cases c)
    case None
    then have "\<forall>a\<in>#A. \<not> vme_base a < b" using c by (simp add: greatest_def)
    then show ?thesis using gap pos f(2) None by (force simp: vme_end_def)
  next
    case (Some a)
    then have a: "a \<in># A" "vme_base a < b" "\<And>e. e \<in># A \<Longrightarrow> vme_base e < b \<Longrightarrow> vme_base e \<le> vme_base a"
      using c by (auto simp: greatest_def)
    have "clear_of a f" using vm_okD(2,3) [OF ok] a(1) f(1) by blast
    then have le: "vme_end a \<le> vme_base f" using a(2) f(3) by (auto simp: clear_of_def)
    moreover have "vme_base f \<noteq> low" using le pos [OF a(1)] by (auto simp: vme_end_def)
    then obtain a0 where a0: "a0 \<in># A" "vme_end a0 = vme_base f" using gap by blast
    have "vme_base a0 \<le> vme_base a" using a(3) [OF a0(1)] a0(2) pos [OF a0(1)] f(2) by (auto simp: vme_end_def)
    then have "a0 = a" using vm_okD(2) [OF ok, of a0 a] a0 a(1) le pos [OF a0(1)] pos [OF a(1)]
      by (auto simp: clear_of_def vme_end_def)
    ultimately show ?thesis using a0(2) Some by simp
  qed
qed

lemma gap_top:
  assumes ok: "vm_ok low high (set_mset A) F" and f: "f \<in> F" "vme_base f \<le> b" "b < vme_end f"
    and c: "greatest vme_base (\<lambda>e. vme_base e < b) A c"
    and n: "least vme_base (\<lambda>e. case c of Some a \<Rightarrow> vme_base a < vme_base e | None \<Rightarrow> True) A n"
  shows "(case n of Some a \<Rightarrow> vme_base a | None \<Rightarrow> high) = vme_end f"
proof -
  let ?after = "\<lambda>e. case c of Some a \<Rightarrow> vme_base a < vme_base e | None \<Rightarrow> True"
  have gap: "vme_end f = high \<or> (\<exists>a\<in>#A. vme_base a = vme_end f)" using vm_okD(5) [OF ok f(1)] by (simp add: is_gap_def)
  have pos: "0 < vme_length a" "vme_end a \<le> high" if "a \<in># A" for a
    using vm_okD(1) [OF ok, of a] that by (auto simp: in_bounds_def)
  have before: "vme_base a < b" if "c = Some a" for a using c that by (simp add: greatest_def)
  have beyond: "vme_end f \<le> vme_base e" if "e \<in># A" "?after e" for e
  proof -
    have "b \<le> vme_base e" using c that by (cases c) (auto simp: greatest_def not_less)
    moreover have "clear_of e f" using vm_okD(2,3) [OF ok] that(1) f(1) by blast
    ultimately show ?thesis using f(2) pos [OF that(1)] by (auto simp: clear_of_def vme_end_def)
  qed
  have after1: "?after e" if "vme_base e = vme_end f" for e
    using before that f(3) by (auto split: option.splits)
  show ?thesis
  proof (cases n)
    case None
    then have "\<forall>a\<in>#A. \<not> ?after a" using n by (simp add: least_def)
    then show ?thesis using gap after1 None by auto
  next
    case (Some m)
    then have m: "m \<in># A" "?after m" "\<And>e. e \<in># A \<Longrightarrow> ?after e \<Longrightarrow> vme_base m \<le> vme_base e"
      using n by (auto simp: least_def)
    have "vme_end f \<noteq> high" using beyond [OF m(1,2)] pos [OF m(1)] by (auto simp: vme_end_def)
    then obtain a where "a \<in># A" "vme_base a = vme_end f" using gap by blast
    then show ?thesis using m(3) [of a] after1 beyond [OF m(1,2)] Some by auto
  qed
qed

subsection \<open>Releasing a range between two others\<close>

definition adjacent :: "VirtualMemoryEntry set \<Rightarrow> VirtualMemoryEntry \<Rightarrow> VirtualMemoryEntry \<Rightarrow> bool" where
  "adjacent A a n \<longleftrightarrow> a \<in> A \<and> n \<in> A \<and> vme_base a < vme_base n \<and>
    (\<forall>e\<in>A. \<not> (vme_base a < vme_base e \<and> vme_base e < vme_base n))"

lemma vm_ok_order:
  assumes "vm_ok low high A F" "e \<in> A \<union> F" "g \<in> A \<union> F" "vme_base e < vme_base g"
  shows "vme_end e \<le> vme_base g"
  using vm_okD(2) [OF assms(1-3)] vm_okD(1) [OF assms(1,3)] assms(4) by (auto simp: clear_of_def in_bounds_def vme_end_def)

lemma vm_ok_same_end:
  assumes "vm_ok low high A F" "e \<in> A \<union> F" "g \<in> A \<union> F" "vme_end e = vme_end g"
  shows "e = g"
  using vm_okD(2) [OF assms(1-3)] vm_okD(1) [OF assms(1,2)] vm_okD(1) [OF assms(1,3)] assms(4)
  by (auto simp: clear_of_def in_bounds_def vme_end_def)

lemma gap_between:
  assumes ok: "vm_ok low high A F" and adj: "adjacent A a n" and ne: "vme_end a \<noteq> vme_base n"
  shows "ent (vme_end a) (vme_base n - vme_end a) \<in> F"
proof -
  have a: "a \<in> A" "n \<in> A" "vme_base a < vme_base n" using adj by (auto simp: adjacent_def)
  have lt: "vme_end a < vme_base n" using vm_ok_order [OF ok, of a n] a ne by auto
  have b: "low \<le> vme_base a" "0 < vme_length a" "0 < vme_length n" "vme_end n \<le> high"
    using vm_okD(1) [OF ok, of a] vm_okD(1) [OF ok, of n] a by (auto simp: in_bounds_def)
  then have "low \<le> vme_end a" "vme_end a < high" using lt by (auto simp: vme_end_def)
  then obtain u where u: "u \<in> A \<union> F" "vme_base u \<le> vme_end a" "vme_end a < vme_end u" using vm_okD(4) [OF ok] by blast
  then have ua: "clear_of u a" using vm_okD(2) [OF ok, of u a] a(1) by blast
  then have base: "vme_base u = vme_end a" using u(2,3) b(2) by (auto simp: clear_of_def vme_end_def)
  have "u \<notin> A" using adj base lt b(2) by (auto simp: adjacent_def vme_end_def)
  then have uF: "u \<in> F" using u(1) by blast
  have le: "vme_end u \<le> vme_base n" using vm_ok_order [OF ok, of u n] u(1) a(2) base lt by auto
  have "vme_end u \<noteq> high" using le b(3,4) by (auto simp: vme_end_def)
  then obtain e where e: "e \<in> A" "vme_base e = vme_end u" using vm_okD(5) [OF ok uF] by (auto simp: is_gap_def)
  have "vme_base e = vme_base n" using adj e le u(3) b(2) by (force simp: adjacent_def vme_end_def)
  then have "u = ent (vme_end a) (vme_base n - vme_end a)" using e(2) base by (auto simp: vme_end_def)
  then show ?thesis using uF by simp
qed

text \<open>The free ranges that touch \<open>x\<close> between its neighbours \<open>a\<close> and \<open>n\<close>.\<close>

definition touching :: "VirtualMemoryEntry \<Rightarrow> VirtualMemoryEntry \<Rightarrow> VirtualMemoryEntry \<Rightarrow> VirtualMemoryEntry set" where
  "touching a x n = {ent (vme_end a) (vme_base x - vme_end a), ent (vme_end x) (vme_base n - vme_end x)}"

lemma touching_iff:
  assumes ok: "vm_ok low high A F" and adj: "adjacent A a x" "adjacent A x n" and g: "g \<in> F"
  shows "g \<in> touching a x n \<longleftrightarrow> vme_end a \<le> vme_base g \<and> vme_end g \<le> vme_base n"
proof
  assume "g \<in> touching a x n"
  moreover have "vme_end a \<le> vme_base x" "vme_end x \<le> vme_base n" "0 < vme_length x"
    using vm_ok_order [OF ok, of a x] vm_ok_order [OF ok, of x n] vm_okD(1) [OF ok, of x] adj by (auto simp: adjacent_def in_bounds_def)
  ultimately show "vme_end a \<le> vme_base g \<and> vme_end g \<le> vme_base n" by (auto simp: touching_def vme_end_def)
next
  assume r: "vme_end a \<le> vme_base g \<and> vme_end g \<le> vme_base n"
  have mem: "a \<in> A" "x \<in> A" "n \<in> A" using adj by (auto simp: adjacent_def)
  have pos: "0 < vme_length e" if "e \<in> A \<union> F" for e using vm_okD(1) [OF ok that] by (simp add: in_bounds_def)
  have "clear_of g x" using vm_okD(2,3) [OF ok] g mem(2) by blast
  then consider "vme_end g \<le> vme_base x" | "vme_end x \<le> vme_base g" by (auto simp: clear_of_def)
  then show "g \<in> touching a x n"
  proof cases
    case 1
    then have "vme_end a \<noteq> vme_base x" using r pos [of g] g by (auto simp: vme_end_def)
    then have d: "ent (vme_end a) (vme_base x - vme_end a) \<in> F" (is "?d \<in> F") using gap_between [OF ok adj(1)] by blast
    have "g = ?d"
      using vm_okD(2) [OF ok, of g ?d] d g r 1 pos [of g] vm_ok_order [OF ok, of a x] adj(1)
      by (auto simp: clear_of_def vme_end_def adjacent_def)
    then show ?thesis by (simp add: touching_def)
  next
    case 2
    then have "vme_end x \<noteq> vme_base n" using r pos [of g] g by (auto simp: vme_end_def)
    then have d: "ent (vme_end x) (vme_base n - vme_end x) \<in> F" (is "?d \<in> F") using gap_between [OF ok adj(2)] by blast
    have "g = ?d"
      using vm_okD(2) [OF ok, of g ?d] d g r 2 pos [of g] vm_ok_order [OF ok, of x n] adj(2)
      by (auto simp: clear_of_def vme_end_def adjacent_def)
    then show ?thesis by (simp add: touching_def)
  qed
qed

lemma vm_ok_release:
  assumes ok: "vm_ok low high A F" and adj: "adjacent A a x" "adjacent A x n"
  shows "vm_ok low high (A - {x}) (insert (ent (vme_end a) (vme_base n - vme_end a)) (F - touching a x n))"
proof -
  let ?m = "ent (vme_end a) (vme_base n - vme_end a)"
  let ?O = "(A - {x}) \<union> (F - touching a x n)"
  have mem: "a \<in> A" "x \<in> A" "n \<in> A" "a \<noteq> x" "n \<noteq> x" using adj by (auto simp: adjacent_def)
  have ord: "vme_end a \<le> vme_base x" "vme_end x \<le> vme_base n" "vme_base a < vme_base x" "vme_base x < vme_base n"
    using vm_ok_order [OF ok, of a x] vm_ok_order [OF ok, of x n] adj by (auto simp: adjacent_def)
  have b: "in_bounds low high a" "in_bounds low high x" "in_bounds low high n" using vm_okD(1) [OF ok] mem by blast+
  have pos: "0 < vme_length e" if "e \<in> A \<union> F" for e using vm_okD(1) [OF ok that] by (simp add: in_bounds_def)
  have m: "in_bounds low high ?m" "vme_end ?m = vme_base n" using b ord by (auto simp: in_bounds_def vme_end_def)
  have old: "vme_end e \<le> vme_end a \<or> vme_base n \<le> vme_base e" if "e \<in> ?O" for e
  proof (cases "e \<in> A")
    case True
    have "e \<noteq> x" using that vm_okD(3) [OF ok] mem(2) by blast
    then have "vme_base e \<noteq> vme_base x" using vm_ok_same_base [OF ok, of e x] True mem(2) by blast
    then have "vme_base e \<le> vme_base a \<or> vme_base n \<le> vme_base e"
      using adj True unfolding adjacent_def by (meson linorder_neqE_nat not_less)
    then show ?thesis using vm_ok_order [OF ok, of e a] vm_ok_same_base [OF ok, of e a] True mem(1) by (force simp: vme_end_def)
  next
    case False
    then have e: "e \<in> F" "e \<notin> touching a x n" using that by auto
    have "clear_of e a" "clear_of e n" using vm_okD(2,3) [OF ok] mem e(1) by blast+
    then show ?thesis using touching_iff [OF ok adj e(1)] e(2) by (auto simp: clear_of_def vme_end_def)
  qed
  have clear: "clear_of e ?m \<and> clear_of ?m e \<and> e \<noteq> ?m" if "e \<in> ?O" for e
    using old [OF that] m(2) pos [of e] that ord pos [of x] mem(2) by (auto simp: clear_of_def vme_end_def)
  have un: "(A - {x}) \<union> insert ?m (F - touching a x n) = insert ?m ?O" by auto
  have "\<forall>e\<in>insert ?m ?O. in_bounds low high e" using m(1) vm_okD(1) [OF ok] by blast
  moreover have "\<forall>e\<in>insert ?m ?O. \<forall>g\<in>insert ?m ?O. e \<noteq> g \<longrightarrow> clear_of e g" using clear vm_okD(2) [OF ok] by blast
  moreover have "(A - {x}) \<inter> insert ?m (F - touching a x n) = {}" using clear vm_okD(3) [OF ok] by blast
  moreover have "\<exists>e\<in>insert ?m ?O. vme_base e \<le> y \<and> y < vme_end e" if y: "low \<le> y" "y < high" for y
  proof -
    obtain e where e: "e \<in> A \<union> F" "vme_base e \<le> y" "y < vme_end e" using vm_okD(4) [OF ok y] by blast
    show ?thesis
    proof (cases "e \<in> ?O")
      case False
      then have "e = x \<or> e \<in> F \<and> e \<in> touching a x n" using e(1) by blast
      then have "vme_base ?m \<le> y \<and> y < vme_end ?m" using touching_iff [OF ok adj] e ord m(2) by auto
      then show ?thesis by blast
    qed (use e in blast)
  qed
  moreover have "is_gap low high (A - {x}) ?m" using mem m(2) by (auto simp: is_gap_def)
  moreover have "is_gap low high (A - {x}) g" if g: "g \<in> F - touching a x n" for g
  proof -
    have "vme_base g \<noteq> vme_base n" "vme_end g \<noteq> vme_end a"
      using vm_ok_same_base [OF ok, of g n] vm_ok_same_end [OF ok, of g a] g mem vm_okD(3) [OF ok] by blast+
    then have "vme_base g \<noteq> vme_end x" "vme_end g \<noteq> vme_base x" using old [of g] g ord pos [of x] pos [of g] mem(2) by (auto simp: vme_end_def)
    then show ?thesis using vm_okD(5) [OF ok, of g] g unfolding is_gap_def by (metis Diff_iff singletonD)
  qed
  ultimately show ?thesis unfolding vm_ok_def un by blast
qed

locale kernel_vm =
  act: vme_tree vme_base A na + fre: vme_tree free_key F nf
  for A :: "(nat, 'a) vme_ops" and na and F :: "(nat \<times> nat, 'f) vme_ops" and nf
begin

lemma inv_ok: "vm_inv na nf v \<Longrightarrow> vm_ok (vm_low v) (vm_high v) (set_mset (na (vm_active v))) (set_mset (nf (vm_free v)))"
  by (simp add: vm_inv_def)

lemma inv_inj:
  assumes "vm_inv na nf v"
  shows "inj_on vme_base (set_mset (na (vm_active v)))" "inj_on free_key (set_mset (nf (vm_free v)))"
  using vm_ok_same_base [OF inv_ok [OF assms]] by (auto simp: inj_on_def)

lemma inv_remove:
  assumes "vm_inv na nf v"
  shows "e \<in># nf (vm_free v) \<Longrightarrow> set_mset (nf (vt_remove F e (vm_free v))) = set_mset (nf (vm_free v)) - {e}"
    "e \<in># na (vm_active v) \<Longrightarrow> set_mset (na (vt_remove A e (vm_active v))) = set_mset (na (vm_active v)) - {e}"
  using assms by (simp_all add: fre.nodes_remove act.nodes_remove vm_inv_def set_mset_remove1)

lemma choose_best_ok:
  assumes "vm_inv na nf v" "\<exists>g\<in>#nf (vm_free v). len \<le> vme_length g"
  shows "\<exists>f. choose_best F len v = Ok (f, vt_remove F f (vm_free v)) \<and> f \<in># nf (vm_free v) \<and> len \<le> vme_length f \<and>
    (\<forall>g\<in>#nf (vm_free v). len \<le> vme_length g \<longrightarrow> vme_length f \<le> vme_length g)"
proof -
  have le: "(len, 0) \<le> free_key g \<longleftrightarrow> len \<le> vme_length g" for g by auto
  note l = fre.lower_included [of "(len, 0)" "vm_free v", unfolded least_def le]
  obtain f where f: "vt_lower_included F (len, 0) (vm_free v) = Some f"
    using l assms(2) by (cases "vt_lower_included F (len, 0) (vm_free v)") auto
  then show ?thesis using l by (intro exI [of _ f]) (auto simp: choose_best_def less_eq_prod_def)
qed

lemma choose_best_fails:
  assumes "\<forall>g\<in>#nf (vm_free v). vme_length g < len"
  shows "choose_best F len v = Panic"
proof -
  have "vt_lower_included F (len, 0) (vm_free v) = None"
    using fre.lower_included [of "(len, 0)" "vm_free v"] assms
    by (cases "vt_lower_included F (len, 0) (vm_free v)") (auto simp: least_def less_eq_prod_def)
  then show ?thesis by (simp add: choose_best_def)
qed

lemma next_of_upper:
  assumes "vm_inv na nf v" "c = vt_upper_excluded A b (vm_active v)"
  shows "greatest vme_base (\<lambda>e. vme_base e < b) (na (vm_active v)) c"
    "least vme_base (\<lambda>e. case c of Some a \<Rightarrow> vme_base a < vme_base e | None \<Rightarrow> True) (na (vm_active v)) (vt_move_next A c (vm_active v))"
proof -
  show g: "greatest vme_base (\<lambda>e. vme_base e < b) (na (vm_active v)) c"
    using act.upper_excluded assms(2) by simp
  show "least vme_base (\<lambda>e. case c of Some a \<Rightarrow> vme_base a < vme_base e | None \<Rightarrow> True) (na (vm_active v)) (vt_move_next A c (vm_active v))"
  proof (cases c)
    case (Some a)
    then have a: "a \<in># na (vm_active v)" using g by (simp add: greatest_def)
    moreover have "count (na (vm_active v)) a = 1"
      using assms(1) a unfolding vm_inv_def by (metis One_nat_def Suc_leI count_greater_zero_iff le_antisym)
    ultimately show ?thesis using act.next_node inv_inj(1) [OF assms(1)] Some by simp
  qed (simp add: act.next_null)
qed

lemma choose_fixed_ok:
  assumes inv: "vm_inv na nf v" and f: "f \<in># nf (vm_free v)" "vme_base f \<le> b" "b < vme_end f"
  shows "\<exists>free. choose_fixed A F b v = Ok (ent b (vme_end f - b), free) \<and>
    nf free = (nf (vm_free v) - {#f#}) + (if vme_base f < b then {#ent (vme_base f) (b - vme_base f)#} else {#})"
proof -
  define c where "c = vt_upper_excluded A b (vm_active v)"
  note n = next_of_upper [OF inv c_def]
  have bot: "(case c of Some a \<Rightarrow> vme_end a | None \<Rightarrow> vm_low v) = vme_base f"
    using gap_bottom [OF inv_ok [OF inv] f n(1)] .
  have top: "(case vt_move_next A c (vm_active v) of Some a \<Rightarrow> vme_base a | None \<Rightarrow> vm_high v) = vme_end f"
    using gap_top [OF inv_ok [OF inv] f n] .
  have "vt_find F (vme_length f, vme_base f) (vm_free v) = Some f"
    using fre.find_unique [OF f(1) inv_inj(2) [OF inv]] .
  then show ?thesis
    using f(2,3) bot top fre.nodes_remove [OF f(1)]
    by (auto simp: choose_fixed_def c_def [symmetric] vme_end_def fre.nodes_insert Let_def add.commute)
qed

text \<open>The rest of an allocation out of the free range \<open>f\<close>, once its part below \<open>b\<close> is back in
  the tree.\<close>

lemma take_range_ok:
  assumes inv: "vm_inv na nf v" and f: "f \<in># nf (vm_free v)" and cut: "vme_base f \<le> b" "b + len \<le> vme_end f" "0 < len"
    and free: "nf free = (nf (vm_free v) - {#f#}) + (if vme_base f < b then {#ent (vme_base f) (b - vme_base f)#} else {#})"
  shows "\<exists>v'. take_range A F len (ent b (vme_end f - b), free) v = Ok (b, v') \<and> vm_inv na nf v' \<and>
    set_mset (na (vm_active v')) = insert (ent b len) (set_mset (na (vm_active v))) \<and>
    set_mset (nf (vm_free v')) = set_mset (nf (vm_free v)) - {f} \<union> cut_free f b len \<and>
    vm_low v' = vm_low v \<and> vm_high v' = vm_high v \<and> vm_pages v' = vm_pages v"
proof -
  define free' where "free' = (if vme_end f - b \<noteq> len then vt_insert F (ent (b + len) (vme_end f - b - len)) free else free)"
  define v' where "v' = v\<lparr>vm_free := free', vm_active := vt_insert A (ent b len) (vm_active v)\<rparr>"
  have tr: "take_range A F len (ent b (vme_end f - b), free) v = Ok (b, v')"
    using cut by (simp add: take_range_def v'_def free'_def)
  have nf: "nf free' = (nf (vm_free v) - {#f#}) + (if vme_base f < b then {#ent (vme_base f) (b - vme_base f)#} else {#})
      + (if b + len < vme_end f then {#ent (b + len) (vme_end f - (b + len))#} else {#})"
    using cut by (auto simp: free'_def free fre.nodes_insert)
  have c: "\<forall>e. count (nf (vm_free v)) e \<le> 1" "\<forall>e. count (na (vm_active v)) e \<le> 1" using inv by (simp_all add: vm_inv_def)
  have set_free: "set_mset (nf free') = set_mset (nf (vm_free v)) - {f} \<union> cut_free f b len"
    unfolding nf using set_mset_remove1 [of "nf (vm_free v)" f] c(1) by (auto simp: cut_free_def)
  have set_act: "set_mset (na (vm_active v')) = insert (ent b len) (set_mset (na (vm_active v)))"
    by (simp add: v'_def act.nodes_insert)
  have ok: "vm_ok (vm_low v) (vm_high v) (insert (ent b len) (set_mset (na (vm_active v))))
      (set_mset (nf (vm_free v)) - {f} \<union> cut_free f b len)"
    by (rule vm_ok_cut [OF inv_ok [OF inv]]) (use f cut in auto)
  have new: "p \<notin># na (vm_active v)" "p \<notin># nf (vm_free v) - {#f#}" if "p \<in> insert (ent b len) (cut_free f b len)" for p
    using cut_free_new [OF inv_ok [OF inv] f cut that] set_mset_remove1 [of "nf (vm_free v)" f] c(1) by auto
  have "\<forall>e. count (nf (vm_free v) - {#f#}) e \<le> 1" using c(1) by (metis count_diff diff_le_self le_trans)
  then have "\<forall>e. count (nf free') e \<le> 1"
    unfolding nf using new cut by (auto simp: cut_free_def not_in_iff split: if_splits)
  moreover have "\<forall>e. count (na (vm_active v')) e \<le> 1"
    using count_add1 [OF c(2) new(1)] by (simp add: v'_def act.nodes_insert)
  ultimately have "vm_inv na nf v'" using ok set_free set_act by (simp add: vm_inv_def v'_def)
  then show ?thesis using tr set_free set_act by (auto simp: v'_def)
qed

lemma neighbours:
  assumes inv: "vm_inv na nf v" and adj: "adjacent (set_mset (na (vm_active v))) a x" "adjacent (set_mset (na (vm_active v))) x n"
  shows "vt_find A (vme_base x) (vm_active v) = Some x" "vt_move_next A (Some x) (vm_active v) = Some n"
    "vt_move_prev A (Some n) (vt_remove A x (vm_active v)) = Some a"
proof -
  let ?A = "na (vm_active v)"
  have mem: "a \<in># ?A" "x \<in># ?A" "n \<in># ?A" "vme_base a < vme_base x" "vme_base x < vme_base n" using adj by (auto simp: adjacent_def)
  note inj = inv_inj(1) [OF inv]
  have one: "count ?A e = 1" if "e \<in># ?A" for e
    using inv that unfolding vm_inv_def by (metis One_nat_def Suc_leI count_greater_zero_iff le_antisym)
  show "vt_find A (vme_base x) (vm_active v) = Some x" by (rule act.find_unique [OF mem(2) inj])
  have "least vme_base (\<lambda>e. vme_base x < vme_base e) ?A (vt_move_next A (Some x) (vm_active v))"
    by (rule act.next_node [OF mem(2) inj one [OF mem(2)]])
  then obtain n' where n': "vt_move_next A (Some x) (vm_active v) = Some n'" "n' \<in># ?A" "vme_base x < vme_base n'" "vme_base n' \<le> vme_base n"
    using mem(3,5) by (auto simp: least_def split: option.splits)
  then have "vme_base n' = vme_base n" using adj(2) by (auto simp: adjacent_def)
  then show "vt_move_next A (Some x) (vm_active v) = Some n" using n'(1,2) inj mem(3) by (auto simp: inj_on_def)
  let ?t = "vt_remove A x (vm_active v)"
  have A': "set_mset (na ?t) = set_mset ?A - {x}" by (rule inv_remove(2) [OF inv mem(2)])
  have inj': "inj_on vme_base (set_mset (na ?t))" using inj A' by (auto intro: inj_on_subset)
  have mem': "n \<in># na ?t" "a \<in># na ?t" using mem A' by auto
  have "count (na ?t) n = 1" using one [OF mem(3)] act.nodes_remove [OF mem(2)] mem(5) by auto
  then have "greatest vme_base (\<lambda>e. vme_base e < vme_base n) (na ?t) (vt_move_prev A (Some n) ?t)"
    by (rule act.prev_node [OF mem'(1) inj'])
  then obtain a' where a': "vt_move_prev A (Some n) ?t = Some a'" "a' \<in># na ?t" "vme_base a' < vme_base n" "vme_base a \<le> vme_base a'"
    using mem'(2) mem(4,5) by (auto simp: greatest_def split: option.splits)
  then have "a' \<in># ?A" "a' \<noteq> x" using A' by auto
  then have "vme_base a' \<noteq> vme_base x" using inj mem(2) by (auto simp: inj_on_def)
  then have "vme_base a' = vme_base a" using a'(3,4) adj \<open>a' \<in># ?A\<close> unfolding adjacent_def by (meson linorder_neqE_nat not_less)
  then show "vt_move_prev A (Some n) ?t = Some a" using a'(1) \<open>a' \<in># ?A\<close> inj mem(1) by (auto simp: inj_on_def)
qed

text \<open>Merging with a gap, on the side of the next and of the previous range.\<close>

lemma find_gap:
  assumes "vm_ok low high Aset (set_mset (nf free))" "adjacent Aset a n" "vme_end a \<noteq> vme_base n"
  shows "vt_find F (vme_base n - vme_end a, vme_end a) free = Some (ent (vme_end a) (vme_base n - vme_end a))"
    "ent (vme_end a) (vme_base n - vme_end a) \<in># nf free"
proof -
  show m: "ent (vme_end a) (vme_base n - vme_end a) \<in># nf free" by (rule gap_between [OF assms])
  have "inj_on free_key (set_mset (nf free))" using vm_ok_same_base [OF assms(1)] by (auto simp: inj_on_def)
  then show "vt_find F (vme_base n - vme_end a, vme_end a) free = Some (ent (vme_end a) (vme_base n - vme_end a))"
    using fre.find_unique [OF m] by simp
qed

lemma merge_above_ok:
  assumes inv: "vm_inv na nf v" and adj: "adjacent (set_mset (na (vm_active v))) x n"
  shows "\<exists>free. merge_above F (Some n) x (vm_free v) = Ok (ent (vme_base x) (vme_base n - vme_base x), free) \<and>
    nf free = nf (vm_free v) - (if vme_end x = vme_base n then {#} else {#ent (vme_end x) (vme_base n - vme_end x)#})"
proof -
  have le: "vme_end x \<le> vme_base n" using vm_ok_order [OF inv_ok [OF inv], of x n] adj by (auto simp: adjacent_def)
  show ?thesis
  proof (cases "vme_end x = vme_base n")
    case True
    then show ?thesis by (auto simp: merge_above_def vme_end_def)
  next
    case False
    note g = find_gap [OF inv_ok [OF inv] adj False]
    have "vme_length x + (vme_base n - vme_end x) = vme_base n - vme_base x" using le by (auto simp: vme_end_def)
    then show ?thesis using g fre.nodes_remove [OF g(2)] False le by (simp add: merge_above_def)
  qed
qed

lemma merge_below_ok:
  assumes inv: "vm_inv na nf v" and adj: "adjacent (set_mset (na (vm_active v))) a x"
    and free: "nf free = nf (vm_free v) - U" "\<And>g. g \<in># U \<Longrightarrow> vme_base x \<le> vme_base g" "vme_base x \<le> hi"
  shows "\<exists>free'. merge_below F (Some a) (ent (vme_base x) (hi - vme_base x), free) = Ok (ent (vme_end a) (hi - vme_end a), free') \<and>
    nf free' = nf (vm_free v) - U - (if vme_end a = vme_base x then {#} else {#ent (vme_end a) (vme_base x - vme_end a)#})"
proof -
  have le: "vme_end a \<le> vme_base x" using vm_ok_order [OF inv_ok [OF inv], of a x] adj by (auto simp: adjacent_def)
  show ?thesis
  proof (cases "vme_end a = vme_base x")
    case True
    then show ?thesis using free(1) by (simp add: merge_below_def)
  next
    case False
    define D where "D = ent (vme_end a) (vme_base x - vme_end a)"
    have lt: "vme_end a < vme_base x" using False le by simp
    have D: "D \<in># nf (vm_free v)" unfolding D_def by (rule find_gap(2) [OF inv_ok [OF inv] adj False])
    moreover have "D \<notin># U" using free(2) [of D] lt by (auto simp: D_def)
    ultimately have D': "D \<in># nf free" by (simp add: free(1) in_diff_count not_in_iff)
    have "inj_on free_key (set_mset (nf free))"
      using inv_inj(2) [OF inv] free(1) by (auto intro: inj_on_subset dest: in_diffD)
    then have "vt_find F (vme_base x - vme_end a, vme_end a) free = Some D" using fre.find_unique [OF D'] by (simp add: D_def)
    moreover have "hi - vme_base x + (vme_base x - vme_end a) = hi - vme_end a" using le free(3) by simp
    ultimately show ?thesis using fre.nodes_remove [OF D'] free(1) lt by (simp add: merge_below_def D_def)
  qed
qed

lemma allocation_drop_ok:
  assumes inv: "vm_inv na nf v" and al: "al_base al = vme_base x"
    and adj: "adjacent (set_mset (na (vm_active v))) a x" "adjacent (set_mset (na (vm_active v))) x n"
  shows "\<exists>frames v'. allocation_drop A F al v = Ok (frames, v') \<and> vm_inv na nf v' \<and>
    set_mset (na (vm_active v')) = set_mset (na (vm_active v)) - {x} \<and>
    set_mset (nf (vm_free v')) = insert (ent (vme_end a) (vme_base n - vme_end a)) (set_mset (nf (vm_free v)) - touching a x n)"
proof -
  let ?U = "if vme_end x = vme_base n then {#} else {#ent (vme_end x) (vme_base n - vme_end x)#}"
  let ?D = "if vme_end a = vme_base x then {#} else {#ent (vme_end a) (vme_base x - vme_end a)#}"
  let ?m = "ent (vme_end a) (vme_base n - vme_end a)"
  obtain frames p where un: "unmap_pages (al_owns_backing al) (al_base al) (al_length al div PAGE_SIZE) (vm_pages v (al_space al)) = (frames, p)"
    by force
  define v1 where "v1 = v\<lparr>vm_pages := (vm_pages v)(al_space al := p)\<rparr>"
  note ok = inv_ok [OF inv]
  have xb: "vme_base x < vme_end x" using vm_okD(1) [OF ok, of x] adj(1) by (auto simp: adjacent_def in_bounds_def vme_end_def)
  obtain f1 where f1: "merge_above F (Some n) x (vm_free v) = Ok (ent (vme_base x) (vme_base n - vme_base x), f1)"
    "nf f1 = nf (vm_free v) - ?U"
    using merge_above_ok [OF inv adj(2)] by blast
  obtain f2 where f2: "merge_below F (Some a) (ent (vme_base x) (vme_base n - vme_base x), f1) = Ok (?m, f2)" "nf f2 = nf (vm_free v) - ?U - ?D"
  proof -
    have "vme_base x \<le> vme_base g" if "g \<in># ?U" for g using that xb by (auto split: if_splits)
    moreover have "vme_base x \<le> vme_base n" using adj(2) by (simp add: adjacent_def)
    ultimately show thesis using merge_below_ok [OF inv adj(1) f1(2), of "vme_base n"] that by blast
  qed
  define v' where "v' = v1\<lparr>vm_active := vt_remove A x (vm_active v), vm_free := vt_insert F ?m f2\<rparr>"
  have drop: "allocation_drop A F al v = Ok (frames, v')"
    using un f1(1) f2(1) neighbours [OF inv adj] by (simp add: allocation_drop_def al v1_def v'_def)
  have xA: "x \<in># na (vm_active v)" using adj(1) by (auto simp: adjacent_def)
  have c: "\<forall>e. count (nf (vm_free v)) e \<le> 1" "\<forall>e. count (na (vm_active v)) e \<le> 1" using inv by (simp_all add: vm_inv_def)
  have pos: "0 < vme_length e" if "e \<in># nf (vm_free v)" for e using vm_okD(1) [OF ok, of e] that by (auto simp: in_bounds_def)
  have set2: "set_mset (nf f2) = set_mset (nf (vm_free v)) - touching a x n"
  proof -
    have "set_mset (nf f2) = set_mset (nf (vm_free v)) - set_mset ?U - set_mset ?D"
      using set_mset_minus [OF c(1), of "?U + ?D"] unfolding f2(2) diff_diff_add set_mset_union by blast
    moreover have "ent b 0 \<notin># nf (vm_free v)" for b using pos [of "ent b 0"] by auto
    ultimately show ?thesis by (auto simp: touching_def)
  qed
  note rel = vm_ok_release [OF ok adj]
  have new: "?m \<notin># nf f2"
  proof
    assume "?m \<in># nf f2"
    then have "?m \<in># nf (vm_free v)" "?m \<notin> touching a x n" using set2 by auto
    then show False using touching_iff [OF ok adj, of ?m] vm_ok_order [OF ok, of a x] vm_ok_order [OF ok, of x n] adj xb
      by (auto simp: vme_end_def adjacent_def)
  qed
  have "\<forall>e. count (nf f2) e \<le> 1" using c(1) by (metis count_diff diff_le_self f2(2) le_trans)
  then have "\<forall>e. count (nf (vm_free v')) e \<le> 1" using count_add1 [OF _ new] by (simp add: v'_def fre.nodes_insert del: count_add_mset)
  moreover have "\<forall>e. count (na (vm_active v')) e \<le> 1"
    using c(2) by (simp add: v'_def act.nodes_remove [OF xA])
  moreover have sets: "set_mset (nf (vm_free v')) = insert ?m (set_mset (nf (vm_free v)) - touching a x n)"
    "set_mset (na (vm_active v')) = set_mset (na (vm_active v)) - {x}"
    using inv_remove(2) [OF inv xA] set2 by (simp_all add: v'_def fre.nodes_insert)
  ultimately have "vm_inv na nf v'" using rel by (simp add: vm_inv_def v'_def v1_def)
  then show ?thesis using drop sets by blast
qed

lemma allocation_new_ok:
  assumes inv: "vm_inv na nf v" and f: "f \<in># nf (vm_free v)" "vme_base f \<le> b" "b + len \<le> vme_end f"
    and len: "0 < len" "PAGE_SIZE dvd len" and sh: "\<not> has_option options OPT_SHADOW"
    and start: "start = Some b \<or> start = None \<and> b = vme_base f \<and> choose_best F len v = Ok (f, vt_remove F f (vm_free v))"
  shows "\<exists>v'. allocation_new A F space start len backing options owns v
      = Ok (Some \<lparr>al_space = space, al_base = b, al_length = len, al_owns_backing = owns\<rparr>, v') \<and> vm_inv na nf v' \<and>
    set_mset (na (vm_active v')) = insert (ent b len) (set_mset (na (vm_active v))) \<and>
    set_mset (nf (vm_free v')) = set_mset (nf (vm_free v)) - {f} \<union> cut_free f b len"
proof -
  have best: "nf (vt_remove F f (vm_free v)) = nf (vm_free v) - {#f#}" by (rule fre.nodes_remove [OF f(1)])
  have "f = ent b (vme_end f - b)" if "b = vme_base f" using that by (simp add: vme_end_def)
  then obtain free where c: "(start = Some b \<and> choose_fixed A F b v = Ok (ent b (vme_end f - b), free)) \<or>
      (start = None \<and> choose_best F len v = Ok (ent b (vme_end f - b), free))"
    and free: "nf free = (nf (vm_free v) - {#f#}) + (if vme_base f < b then {#ent (vme_base f) (b - vme_base f)#} else {#})"
    using start choose_fixed_ok [OF inv f(1,2)] f(3) len(1) best by (auto split: if_splits)
  obtain v1 where v1: "take_range A F len (ent b (vme_end f - b), free) v = Ok (b, v1)" "vm_inv na nf v1"
    "set_mset (na (vm_active v1)) = insert (ent b len) (set_mset (na (vm_active v)))"
    "set_mset (nf (vm_free v1)) = set_mset (nf (vm_free v)) - {f} \<union> cut_free f b len"
    using take_range_ok [OF inv f len(1) free] by blast
  have inv_pages: "vm_inv na nf (v1\<lparr>vm_pages := q\<rparr>)" for q using v1(2) by (simp add: vm_inv_def)
  show ?thesis
    using c v1 inv_pages sh len(2)
    by (auto simp: allocation_new_def install_def Let_def split: option.splits)
qed

end

subsection \<open>Trees as lists of nodes\<close>

text \<open>The operations on a plain list of nodes satisfy the laws.\<close>

fun pick :: "('e \<Rightarrow> 'e \<Rightarrow> bool) \<Rightarrow> ('e \<Rightarrow> bool) \<Rightarrow> 'e list \<Rightarrow> 'e option" where
  "pick better P [] = None"
| "pick better P (x # xs) =
    (case pick better P xs of
       None \<Rightarrow> if P x then Some x else None
     | Some y \<Rightarrow> if P x \<and> better x y then Some x else Some y)"

definition pick_greatest :: "('e \<Rightarrow> 'k :: linorder) \<Rightarrow> ('e \<Rightarrow> bool) \<Rightarrow> 'e list \<Rightarrow> 'e option" where
  "pick_greatest key P xs = pick (\<lambda>x y. key y < key x) P xs"

definition pick_least :: "('e \<Rightarrow> 'k :: linorder) \<Rightarrow> ('e \<Rightarrow> bool) \<Rightarrow> 'e list \<Rightarrow> 'e option" where
  "pick_least key P xs = pick (\<lambda>x y. key x < key y) P xs"

lemma pick_greatest: "greatest key P (mset xs) (pick_greatest key P xs)"
  by (induction xs) (auto simp: greatest_def pick_greatest_def split: option.splits)

lemma pick_least: "least key P (mset xs) (pick_least key P xs)"
  by (induction xs) (auto simp: least_def pick_least_def split: option.splits)

definition list_vme :: "(VirtualMemoryEntry \<Rightarrow> 'k :: linorder) \<Rightarrow> ('k, VirtualMemoryEntry list) vme_ops" where
  "list_vme key = \<lparr>vt_new = [], vt_insert = Cons, vt_remove = remove1, vt_find = (\<lambda>k. pick_least key (\<lambda>e. key e = k)),
     vt_upper_included = (\<lambda>k. pick_greatest key (\<lambda>e. key e \<le> k)), vt_upper_excluded = (\<lambda>k. pick_greatest key (\<lambda>e. key e < k)),
     vt_lower_included = (\<lambda>k. pick_least key (\<lambda>e. k \<le> key e)),
     vt_move_next = (\<lambda>c. pick_least key (\<lambda>x. case c of None \<Rightarrow> True | Some e \<Rightarrow> key e < key x)),
     vt_move_prev = (\<lambda>c. pick_greatest key (\<lambda>x. case c of None \<Rightarrow> True | Some e \<Rightarrow> key x < key e)),
     vt_front = pick_least key (\<lambda>e. True), vt_back = pick_greatest key (\<lambda>e. True)\<rparr>"

interpretation base_tree: vme_tree vme_base "list_vme vme_base" mset
  by unfold_locales (simp_all add: list_vme_def pick_greatest pick_least)

interpretation length_tree: vme_tree free_key "list_vme free_key" mset
  by unfold_locales (simp_all add: list_vme_def pick_greatest pick_least)

interpretation list_vm: kernel_vm "list_vme vme_base" mset "list_vme free_key" mset
  by unfold_locales

subsection \<open>Properties\<close>

text \<open>
  C9. Allocation of kernel addresses, on every state in which the allocated and free
  ranges partition the space and the free ranges are the gaps: without a fixed base it
  takes the beginning of a shortest free range that is long enough, and panics exactly
  when there is none; with a base whose range is free it takes exactly that range. The
  rest of the free range stays free and the partition is kept.
\<close>

theorem kernel_allocation_partition:
  assumes "kernel_vm A na F nf" "vm_inv na nf v" "0 < len" "PAGE_SIZE dvd len" "\<not> has_option options OPT_SHADOW"
  shows "(\<forall>f b. f \<in># nf (vm_free v) \<and> vme_base f \<le> b \<and> b + len \<le> vme_end f \<longrightarrow>
      (\<exists>v'. allocation_new A F space (Some b) len backing options owns v
          = Ok (Some \<lparr>al_space = space, al_base = b, al_length = len, al_owns_backing = owns\<rparr>, v') \<and> vm_inv na nf v' \<and>
        set_mset (na (vm_active v')) = insert (ent b len) (set_mset (na (vm_active v))) \<and>
        set_mset (nf (vm_free v')) = set_mset (nf (vm_free v)) - {f} \<union> cut_free f b len)) \<and>
    (if \<exists>g\<in>#nf (vm_free v). len \<le> vme_length g
     then \<exists>f v'. f \<in># nf (vm_free v) \<and> (\<forall>g\<in>#nf (vm_free v). len \<le> vme_length g \<longrightarrow> vme_length f \<le> vme_length g) \<and>
       allocation_new A F space None len backing options owns v
          = Ok (Some \<lparr>al_space = space, al_base = vme_base f, al_length = len, al_owns_backing = owns\<rparr>, v') \<and> vm_inv na nf v' \<and>
       set_mset (na (vm_active v')) = insert (ent (vme_base f) len) (set_mset (na (vm_active v))) \<and>
       set_mset (nf (vm_free v')) = set_mset (nf (vm_free v)) - {f} \<union> cut_free f (vme_base f) len
     else allocation_new A F space None len backing options owns v = Panic)"
proof -
  note new = kernel_vm.allocation_new_ok [OF assms(1,2) _ _ _ assms(3-5), of _ _ _ space backing owns]
  show ?thesis
  proof (intro conjI allI impI)
    fix f b
    assume "f \<in># nf (vm_free v) \<and> vme_base f \<le> b \<and> b + len \<le> vme_end f"
    then show "\<exists>v'. allocation_new A F space (Some b) len backing options owns v
          = Ok (Some \<lparr>al_space = space, al_base = b, al_length = len, al_owns_backing = owns\<rparr>, v') \<and> vm_inv na nf v' \<and>
        set_mset (na (vm_active v')) = insert (ent b len) (set_mset (na (vm_active v))) \<and>
        set_mset (nf (vm_free v')) = set_mset (nf (vm_free v)) - {f} \<union> cut_free f b len"
      using new [of f b "Some b"] by blast
  next
    show "if \<exists>g\<in>#nf (vm_free v). len \<le> vme_length g
      then \<exists>f v'. f \<in># nf (vm_free v) \<and> (\<forall>g\<in>#nf (vm_free v). len \<le> vme_length g \<longrightarrow> vme_length f \<le> vme_length g) \<and>
        allocation_new A F space None len backing options owns v
          = Ok (Some \<lparr>al_space = space, al_base = vme_base f, al_length = len, al_owns_backing = owns\<rparr>, v') \<and> vm_inv na nf v' \<and>
        set_mset (na (vm_active v')) = insert (ent (vme_base f) len) (set_mset (na (vm_active v))) \<and>
        set_mset (nf (vm_free v')) = set_mset (nf (vm_free v)) - {f} \<union> cut_free f (vme_base f) len
      else allocation_new A F space None len backing options owns v = Panic"
    proof (cases "\<exists>g\<in>#nf (vm_free v). len \<le> vme_length g")
      case True
      then obtain f where f: "choose_best F len v = Ok (f, vt_remove F f (vm_free v))" "f \<in># nf (vm_free v)" "len \<le> vme_length f"
        "\<forall>g\<in>#nf (vm_free v). len \<le> vme_length g \<longrightarrow> vme_length f \<le> vme_length g"
        using kernel_vm.choose_best_ok [OF assms(1,2)] by blast
      then show ?thesis using new [of f "vme_base f" None] True by (simp add: vme_end_def) blast
    next
      case False
      then have "choose_best F len v = Panic" using kernel_vm.choose_best_fails [OF assms(1)] by (simp add: not_le)
      then show ?thesis using False assms(4) by (simp add: allocation_new_def)
    qed
  qed
qed

lemma vm_inv_new:
  assumes "low < high"
  shows "vm_inv mset mset \<lparr>vm_low = low, vm_high = high, vm_active = [], vm_free = [ent low (high - low)], vm_pages = p\<rparr>"
  using assms by (auto simp: vm_inv_def vm_ok_def in_bounds_def is_gap_def vme_end_def)

abbreviation sample_vm :: "VirtualMemoryEntry list \<Rightarrow> VirtualMemoryEntry list \<Rightarrow>
    (VirtualMemoryEntry list, VirtualMemoryEntry list) VirtualMemoryEntryContainer" where
  "sample_vm a f \<equiv> \<lparr>vm_low = 4096, vm_high = 36864, vm_active = a, vm_free = f, vm_pages = (\<lambda>_ _. None)\<rparr>"

theorem kernel_allocation_partition_witness:
  "\<exists>v'. allocation_new (list_vme vme_base) (list_vme free_key) 0 None 4096 None 0 True (sample_vm [] [ent 4096 32768])
      = Ok (Some \<lparr>al_space = 0, al_base = 4096, al_length = 4096, al_owns_backing = True\<rparr>, v') \<and> vm_inv mset mset v'"
proof -
  have inv: "vm_inv mset mset (sample_vm [] [ent 4096 32768])" using vm_inv_new [of 4096 36864 "\<lambda>_ _. None"] by simp
  show ?thesis
    using kernel_allocation_partition [OF list_vm.kernel_vm_axioms inv, of 4096 0 0 None True]
    by (auto simp: PAGE_SIZE_def has_option_def OPT_SHADOW_def vme_end_def)
qed

text \<open>
  C10. Releasing a range between two allocated neighbours: the range and the gaps around
  it become one free range from the end of the left neighbour to the beginning of the
  right one, everything else stays, and the partition is kept.
\<close>

theorem kernel_release_merges:
  assumes "kernel_vm A na F nf" "vm_inv na nf v" "al_base al = vme_base x"
    "adjacent (set_mset (na (vm_active v))) a x" "adjacent (set_mset (na (vm_active v))) x n"
  shows "\<exists>frames v'. allocation_drop A F al v = Ok (frames, v') \<and> vm_inv na nf v' \<and>
    set_mset (na (vm_active v')) = set_mset (na (vm_active v)) - {x} \<and>
    set_mset (nf (vm_free v')) = insert (ent (vme_end a) (vme_base n - vme_end a)) (set_mset (nf (vm_free v)) - touching a x n)"
  by (rule kernel_vm.allocation_drop_ok [OF assms])

theorem kernel_release_merges_witness:
  "\<exists>frames v'. allocation_drop (list_vme vme_base) (list_vme free_key)
      \<lparr>al_space = 0, al_base = 12288, al_length = 4096, al_owns_backing = False\<rparr>
      (sample_vm [ent 4096 4096, ent 12288 4096, ent 16384 20480] [ent 8192 4096]) = Ok (frames, v') \<and>
    set_mset (mset (vm_free v')) = {ent 8192 8192}"
proof -
  let ?v = "sample_vm [ent 4096 4096, ent 12288 4096, ent 16384 20480] [ent 8192 4096]"
  have inv: "vm_inv mset mset ?v"
  proof -
    have "\<exists>e\<in>{ent 4096 4096, ent 12288 4096, ent 16384 20480, ent 8192 4096}. vme_base e \<le> x \<and> x < vme_end e"
      if "4096 \<le> x" "x < 36864" for x
    proof -
      consider "x < 8192" | "8192 \<le> x" "x < 12288" | "12288 \<le> x" "x < 16384" | "16384 \<le> x" by linarith
      then show ?thesis using that by cases (simp_all add: vme_end_def)
    qed
    then show ?thesis by (auto simp: vm_inv_def vm_ok_def in_bounds_def clear_of_def is_gap_def vme_end_def)
  qed
  have "adjacent (set_mset (mset (vm_active ?v))) (ent 4096 4096) (ent 12288 4096)"
    "adjacent (set_mset (mset (vm_active ?v))) (ent 12288 4096) (ent 16384 20480)"
    by (auto simp: adjacent_def)
  from kernel_release_merges [OF list_vm.kernel_vm_axioms inv, of "\<lparr>al_space = 0, al_base = 12288, al_length = 4096, al_owns_backing = False\<rparr>", OF _ this]
  show ?thesis by (auto simp: touching_def vme_end_def)
qed


end
