(* ===== verification/Page_Table.thy ===== *)
theory Page_Table
  imports Kernel_Vm "HOL-Library.Monad_Syntax" "HOL-Library.Sublist"
begin

unbundle bit_operations_syntax

section \<open>Page tables\<close>

text \<open>
  Model of the page tables of \<^verbatim>\<open>src/src/arch/aarch64/vmm.rs\<close>: four levels of 512 entries in
  frames of physical memory. The memory of tables is a map from the physical address of a
  frame and an index to the entry; the code reaches it through the direct map, whose
  offset it adds to every address and takes away again. Frames come from the allocator of
  \<open>Frames\<close>, here its list of released frames and the frames not used yet; releasing a frame
  writes the link of that list into its first word. A call that finds no frame waits for
  one, which is the value None.

  The lemmas show that the levels are a map from pages to frames: mapping and unmapping
  change the translation of exactly one page, keep the tables a tree without sharing,
  and neither lose a frame of a table nor release one that is in use.
\<close>

subsection \<open>State and operations\<close>

type_synonym u64 = "64 word"

record PtMem =
  pt_mem :: "u64 \<Rightarrow> nat \<Rightarrow> u64"
  pt_released :: "u64 list"
  pt_fresh :: "u64 list"

definition pt_pool :: "PtMem \<Rightarrow> u64 list" where
  "pt_pool s = pt_released s @ pt_fresh s"

fun take_frame :: "PtMem \<Rightarrow> (u64 \<times> PtMem) option" where
  "take_frame s = (case pt_released s of
       f # fs \<Rightarrow> Some (f, s\<lparr>pt_released := fs\<rparr>)
     | [] \<Rightarrow> (case pt_fresh s of f # fs \<Rightarrow> Some (f, s\<lparr>pt_fresh := fs\<rparr>) | [] \<Rightarrow> None))"

definition set_entry :: "u64 \<Rightarrow> nat \<Rightarrow> u64 \<Rightarrow> PtMem \<Rightarrow> PtMem" where
  "set_entry t i e s = s\<lparr>pt_mem := (pt_mem s)(t := (pt_mem s t)(i := e))\<rparr>"

definition give_frame :: "u64 \<Rightarrow> PtMem \<Rightarrow> PtMem" where
  "give_frame f s =
    (set_entry f 0 (case pt_released s of [] \<Rightarrow> - 1 | h # _ \<Rightarrow> h) s)\<lparr>pt_released := f # pt_released s\<rparr>"

definition PTE_ADDR_MASK :: u64 where "PTE_ADDR_MASK = 0x0000FFFFFFFFF000"
definition PTE_PER_PAGE :: nat where "PTE_PER_PAGE = 512"

definition OPT_DEVICE_MEMORY :: PagingOptions where "OPT_DEVICE_MEMORY = 512"

definition PTE_VALID :: u64 where "PTE_VALID = 1"
definition PTE_TABLE :: u64 where "PTE_TABLE = 2"
definition NORMAL_MEMORY_CACHEABLE :: u64 where "NORMAL_MEMORY_CACHEABLE = 0"
definition NORMAL_MEMORY_NON_CACHEABLE :: u64 where "NORMAL_MEMORY_NON_CACHEABLE = 4"
definition DEVICE_MEMORY :: u64 where "DEVICE_MEMORY = 8"
definition RW_EL1 :: u64 where "RW_EL1 = 0"
definition RW_EL0 :: u64 where "RW_EL0 = 0x40"
definition RO_EL1 :: u64 where "RO_EL1 = 0x80"
definition RO_EL0 :: u64 where "RO_EL0 = 0xC0"
definition PTE_AF :: u64 where "PTE_AF = 0x400"
definition PTE_UXN :: u64 where "PTE_UXN = 0x40000000000000"
definition PTE_PXN :: u64 where "PTE_PXN = 0x20000000000000"

definition create_aarch64_attributes :: "PagingOptions \<Rightarrow> u64" where
  "create_aarch64_attributes options =
    PTE_AF
    OR (if has_option options OPT_PRESENT then PTE_VALID OR PTE_TABLE else 0)
    OR (if has_option options OPT_WRITABLE \<and> has_option options OPT_USER_ACCESSIBLE then RW_EL0
        else if has_option options OPT_WRITABLE then RW_EL1
        else if has_option options OPT_USER_ACCESSIBLE then RO_EL0
        else RO_EL1)
    OR (if \<not> has_option options OPT_EXECUTABLE then PTE_UXN OR PTE_PXN else 0)
    OR (if has_option options OPT_DEVICE_MEMORY then DEVICE_MEMORY
        else if has_option options OPT_CACHEABLE then NORMAL_MEMORY_CACHEABLE
        else NORMAL_MEMORY_NON_CACHEABLE)"

definition pt_index :: "nat \<Rightarrow> u64 \<Rightarrow> nat" where
  "pt_index shift vaddr = unat (drop_bit shift vaddr AND 0x1FF)"

definition pt_root :: "u64 \<Rightarrow> u64" where
  "pt_root space = space AND NOT 0xFFF"

definition get_phys_addr :: "u64 \<Rightarrow> u64 \<Rightarrow> PtMem \<Rightarrow> u64 option" where
  "get_phys_addr vaddr space s =
    (let m = pt_mem s; e0 = m (pt_root space) (pt_index 39 vaddr) in
     if e0 AND 3 \<noteq> 3 then None
     else let e1 = m (e0 AND PTE_ADDR_MASK) (pt_index 30 vaddr) in
     if e1 AND 3 \<noteq> 3 then None
     else let e2 = m (e1 AND PTE_ADDR_MASK) (pt_index 21 vaddr) in
     if e2 AND 3 \<noteq> 3 then None
     else let e3 = m (e2 AND PTE_ADDR_MASK) (pt_index 12 vaddr) in
     if e3 AND 1 = 0 then None
     else Some ((e3 AND PTE_ADDR_MASK) OR (vaddr AND 0xFFF)))"

definition ensure_next_table :: "u64 \<Rightarrow> nat \<Rightarrow> PtMem \<Rightarrow> (u64 \<times> PtMem) option" where
  "ensure_next_table t i s =
    (if pt_mem s t i AND 3 = 0
     then do {
       (new_table, s1) \<leftarrow> take_frame s;
       let s2 = s1\<lparr>pt_mem := (pt_mem s1)(new_table := (\<lambda>_. 0))\<rparr>;
       let s3 = set_entry t i ((new_table AND PTE_ADDR_MASK) OR 3) s2;
       Some (pt_mem s3 t i AND PTE_ADDR_MASK, s3)
     }
     else Some (pt_mem s t i AND PTE_ADDR_MASK, s))"

definition vmap :: "u64 \<Rightarrow> u64 \<Rightarrow> u64 \<Rightarrow> PagingOptions \<Rightarrow> PtMem \<Rightarrow> PtMem option" where
  "vmap space vaddr paddr options s =
    do {
      (l1, s1) \<leftarrow> ensure_next_table (pt_root space) (pt_index 39 vaddr) s;
      (l2, s2) \<leftarrow> ensure_next_table l1 (pt_index 30 vaddr) s1;
      (l3, s3) \<leftarrow> ensure_next_table l2 (pt_index 21 vaddr) s2;
      Some (set_entry l3 (pt_index 12 vaddr) ((paddr AND PTE_ADDR_MASK) OR create_aarch64_attributes options) s3)
    }"

definition table_used :: "u64 \<Rightarrow> PtMem \<Rightarrow> bool" where
  "table_used t s = list_ex (\<lambda>i. pt_mem s t i AND 3 \<noteq> 0) [0..<PTE_PER_PAGE]"

definition free_unused_tables :: "u64 \<Rightarrow> u64 \<Rightarrow> u64 \<Rightarrow> u64 \<Rightarrow> u64 \<Rightarrow> PtMem \<Rightarrow> PtMem" where
  "free_unused_tables vaddr l0 l1 l2 l3 s =
    (if table_used l3 s then s
     else let s1 = give_frame l3 (set_entry l2 (pt_index 21 vaddr) 0 s)
     in if table_used l2 s1 then s1
     else let s2 = give_frame l2 (set_entry l1 (pt_index 30 vaddr) 0 s1)
     in if table_used l1 s2 then s2
     else give_frame l1 (set_entry l0 (pt_index 39 vaddr) 0 s2))"

definition vunmap_internal :: "u64 \<Rightarrow> u64 \<Rightarrow> bool \<Rightarrow> PtMem \<Rightarrow> u64 option \<times> PtMem" where
  "vunmap_internal space vaddr free_frame s =
    (let m = pt_mem s; l0 = pt_root space; e0 = m l0 (pt_index 39 vaddr) in
     if e0 AND 3 \<noteq> 3 then (None, s)
     else let l1 = e0 AND PTE_ADDR_MASK; e1 = m l1 (pt_index 30 vaddr) in
     if e1 AND 3 \<noteq> 3 then (None, s)
     else let l2 = e1 AND PTE_ADDR_MASK; e2 = m l2 (pt_index 21 vaddr) in
     if e2 AND 3 \<noteq> 3 then (None, s)
     else let l3 = e2 AND PTE_ADDR_MASK; e3 = m l3 (pt_index 12 vaddr) in
     if e3 AND 3 = 0 then (None, s)
     else let paddr = e3 AND PTE_ADDR_MASK;
              s1 = free_unused_tables vaddr l0 l1 l2 l3 (set_entry l3 (pt_index 12 vaddr) 0 s)
          in (Some paddr, if free_frame then give_frame paddr s1 else s1))"

definition vunmap :: "u64 \<Rightarrow> u64 \<Rightarrow> PtMem \<Rightarrow> u64 option \<times> PtMem" where
  "vunmap space vaddr = vunmap_internal space vaddr True"

definition vunmap_no_dealloc :: "u64 \<Rightarrow> u64 \<Rightarrow> PtMem \<Rightarrow> u64 option \<times> PtMem" where
  "vunmap_no_dealloc space vaddr = vunmap_internal space vaddr False"

subsection \<open>Bits of entries\<close>

lemma or_and_absorb: "(x OR y) AND y = (y :: u64)"
  by (rule bit_word_eqI) (auto simp: bit_simps)

lemma table_entry_bits:
  "((f AND PTE_ADDR_MASK) OR 3) AND 3 = 3" "((f AND PTE_ADDR_MASK) OR 3) AND PTE_ADDR_MASK = f AND PTE_ADDR_MASK"
proof -
  show "((f AND PTE_ADDR_MASK) OR 3) AND 3 = 3" by (rule or_and_absorb)
  show "((f AND PTE_ADDR_MASK) OR 3) AND PTE_ADDR_MASK = f AND PTE_ADDR_MASK"
    by (simp add: bit.conj_disj_distrib2 and.assoc) (simp add: PTE_ADDR_MASK_def)
qed

lemma attribute_bits:
  "create_aarch64_attributes options AND PTE_ADDR_MASK = 0"
  "create_aarch64_attributes options AND 3 = (if has_option options OPT_PRESENT then 3 else 0)"
  by (simp_all add: create_aarch64_attributes_def bit.conj_disj_distrib2 PTE_ADDR_MASK_def PTE_VALID_def PTE_TABLE_def
      NORMAL_MEMORY_CACHEABLE_def NORMAL_MEMORY_NON_CACHEABLE_def DEVICE_MEMORY_def RW_EL1_def RW_EL0_def RO_EL1_def RO_EL0_def
      PTE_AF_def PTE_UXN_def PTE_PXN_def)

lemma leaf_bits:
  "((paddr AND PTE_ADDR_MASK) OR create_aarch64_attributes options) AND PTE_ADDR_MASK = paddr AND PTE_ADDR_MASK"
  "((paddr AND PTE_ADDR_MASK) OR create_aarch64_attributes options) AND 3 = (if has_option options OPT_PRESENT then 3 else 0)"
proof -
  show "((paddr AND PTE_ADDR_MASK) OR create_aarch64_attributes options) AND PTE_ADDR_MASK = paddr AND PTE_ADDR_MASK"
    by (simp add: bit.conj_disj_distrib2 attribute_bits(1) and.assoc)
  have "(paddr AND PTE_ADDR_MASK) AND 3 = 0" by (simp add: PTE_ADDR_MASK_def and.assoc)
  then show "((paddr AND PTE_ADDR_MASK) OR create_aarch64_attributes options) AND 3 = (if has_option options OPT_PRESENT then 3 else 0)"
    by (simp add: bit.conj_disj_distrib2 attribute_bits(2))
qed

lemma and_1_of_3:
  fixes e :: u64
  assumes "e AND 3 = 0 \<or> e AND 3 = 3"
  shows "e AND 1 = 0 \<longleftrightarrow> e AND 3 = 0"
proof -
  have "e AND 1 = (e AND 3) AND 1" by (simp add: and.assoc)
  then show ?thesis using assms by auto
qed

lemma mask_idem [simp]: "(x AND PTE_ADDR_MASK) AND PTE_ADDR_MASK = x AND PTE_ADDR_MASK"
  by (simp add: and.assoc)

lemma pt_index_less: "pt_index k v < PTE_PER_PAGE"
proof -
  have "drop_bit k v AND 0x1FF = take_bit 9 (drop_bit k v)"
    by (simp add: take_bit_eq_mask mask_eq_exp_minus_1)
  then have "pt_index k v = take_bit 9 (unat (drop_bit k v))" by (simp add: pt_index_def unsigned_take_bit_eq)
  then show ?thesis using take_bit_nat_less_exp [of 9 "unat (drop_bit k v)"] by (simp add: PTE_PER_PAGE_def)
qed

lemma bit_mask: "bit PTE_ADDR_MASK n \<longleftrightarrow> 12 \<le> n \<and> n < 48"
proof -
  have "PTE_ADDR_MASK = push_bit 12 (mask 36)" by (simp add: PTE_ADDR_MASK_def mask_eq_exp_minus_1 push_bit_eq_mult)
  then have "bit PTE_ADDR_MASK n = bit (push_bit 12 (mask 36) :: u64) n" by simp
  then show ?thesis by (auto simp: bit_simps)
qed

lemma bit_64: "bit (x :: u64) n \<Longrightarrow> n < 64"
  using bit_imp_le_length [of x n] by simp

lemma pt_index_eq: "pt_index k v = pt_index k w \<longleftrightarrow> (\<forall>n<9. k + n < 64 \<longrightarrow> bit v (k + n) = bit w (k + n))"
proof -
  have "drop_bit k x AND 0x1FF = take_bit 9 (drop_bit k x)" for x :: u64
    by (simp add: take_bit_eq_mask mask_eq_exp_minus_1)
  then have "pt_index k v = pt_index k w \<longleftrightarrow> take_bit 9 (drop_bit k v) = take_bit 9 (drop_bit k w)"
    by (simp only: pt_index_def word_unat_eq_iff)
  also have "\<dots> \<longleftrightarrow> (\<forall>n<9. k + n < 64 \<longrightarrow> bit v (k + n) = bit w (k + n))"
  proof
    assume "take_bit 9 (drop_bit k v) = take_bit 9 (drop_bit k w)"
    then have "bit (take_bit 9 (drop_bit k v)) n = bit (take_bit 9 (drop_bit k w)) n" for n by simp
    then show "\<forall>n<9. k + n < 64 \<longrightarrow> bit v (k + n) = bit w (k + n)" by (simp add: bit_take_bit_iff bit_drop_bit_eq) blast
  next
    assume "\<forall>n<9. k + n < 64 \<longrightarrow> bit v (k + n) = bit w (k + n)"
    then show "take_bit 9 (drop_bit k v) = take_bit 9 (drop_bit k w)"
      by (intro bit_word_eqI) (auto simp: bit_take_bit_iff bit_drop_bit_eq dest: bit_64)
  qed
  finally show ?thesis .
qed

lemma same_page:
  "v AND PTE_ADDR_MASK = w AND PTE_ADDR_MASK \<longleftrightarrow>
    [pt_index 39 v, pt_index 30 v, pt_index 21 v] = [pt_index 39 w, pt_index 30 w, pt_index 21 w] \<and> pt_index 12 v = pt_index 12 w"
  (is "?l \<longleftrightarrow> ?r")
proof
  assume "?l"
  then have "bit (v AND PTE_ADDR_MASK) n = bit (w AND PTE_ADDR_MASK) n" for n by simp
  then have "bit v n = bit w n" if "12 \<le> n" "n < 48" for n using that by (simp add: bit_and_iff bit_mask) blast
  then show ?r by (simp add: pt_index_eq)
next
  assume r: ?r
  have "bit v n = bit w n" if n: "12 \<le> n" "n < 48" for n
  proof -
    have part: "bit v n = bit w n" if "pt_index k v = pt_index k w" "k \<le> n" "n < k + 9" for k
      using that n pt_index_eq [of k v w] by (auto dest!: spec [of _ "n - k"])
    consider "n < 21" | "21 \<le> n" "n < 30" | "30 \<le> n" "n < 39" | "39 \<le> n" by linarith
    then show ?thesis
      using r n by cases (simp_all add: part [of 12] part [of 21] part [of 30] part [of 39])
  qed
  then show ?l by (auto simp: bit_eq_iff bit_simps bit_mask)
qed

subsection \<open>The tree of tables\<close>

fun pt_walk :: "(u64 \<Rightarrow> nat \<Rightarrow> u64) \<Rightarrow> u64 \<Rightarrow> nat list \<Rightarrow> u64 option" where
  "pt_walk m t [] = Some t"
| "pt_walk m t (i # p) = (if m t i AND 3 = 0 then None else pt_walk m (m t i AND PTE_ADDR_MASK) p)"

lemma pt_walk_append: "pt_walk m t (p @ q) = (case pt_walk m t p of None \<Rightarrow> None | Some u \<Rightarrow> pt_walk m u q)"
  by (induction p arbitrary: t) auto

definition pt_path :: "nat list \<Rightarrow> bool" where
  "pt_path p \<longleftrightarrow> length p \<le> 3 \<and> (\<forall>i\<in>set p. i < PTE_PER_PAGE)"

lemma pt_path_simps [simp]:
  "pt_path []" "pt_path (p @ [i]) \<longleftrightarrow> length p < 3 \<and> pt_path p \<and> i < PTE_PER_PAGE"
  by (auto simp: pt_path_def)

text \<open>The entry of a page, if it is valid: the last table on the path and the index in it.\<close>

definition pt_lookup :: "(u64 \<Rightarrow> nat \<Rightarrow> u64) \<Rightarrow> u64 \<Rightarrow> nat list \<Rightarrow> nat \<Rightarrow> u64 option" where
  "pt_lookup m r p i = (case pt_walk m r p of None \<Rightarrow> None | Some t \<Rightarrow> if m t i AND 3 = 0 then None else Some (m t i))"

definition pt_tree :: "(u64 \<Rightarrow> nat \<Rightarrow> u64) \<Rightarrow> u64 \<Rightarrow> bool" where
  "pt_tree m r \<longleftrightarrow>
    (\<forall>p q t. pt_path p \<longrightarrow> pt_path q \<longrightarrow> pt_walk m r p = Some t \<longrightarrow> pt_walk m r q = Some t \<longrightarrow> p = q) \<and>
    (\<forall>p t i. pt_path p \<longrightarrow> pt_walk m r p = Some t \<longrightarrow> i < PTE_PER_PAGE \<longrightarrow> m t i AND 3 = 0 \<or> m t i AND 3 = 3)"

definition pt_inv :: "u64 \<Rightarrow> PtMem \<Rightarrow> bool" where
  "pt_inv r s \<longleftrightarrow> pt_tree (pt_mem s) r \<and> distinct (pt_pool s) \<and>
    (\<forall>f\<in>set (pt_pool s). f AND PTE_ADDR_MASK = f \<and> (\<forall>p. pt_path p \<longrightarrow> pt_walk (pt_mem s) r p \<noteq> Some f))"

definition pt_frames :: "u64 \<Rightarrow> PtMem \<Rightarrow> u64 set" where
  "pt_frames r s = set (pt_pool s) \<union> {t. \<exists>p. pt_path p \<and> p \<noteq> [] \<and> pt_walk (pt_mem s) r p = Some t}"

lemma pt_treeD:
  assumes "pt_tree m r" "pt_path p" "pt_walk m r p = Some t"
  shows "pt_path q \<Longrightarrow> pt_walk m r q = Some t \<Longrightarrow> q = p"
    "i < PTE_PER_PAGE \<Longrightarrow> m t i AND 3 = 0 \<or> m t i AND 3 = 3"
  using assms unfolding pt_tree_def by blast+

lemma pt_invD:
  assumes "pt_inv r s"
  shows "pt_tree (pt_mem s) r" "distinct (pt_pool s)" "f \<in> set (pt_pool s) \<Longrightarrow> f AND PTE_ADDR_MASK = f"
    "f \<in> set (pt_pool s) \<Longrightarrow> pt_path p \<Longrightarrow> pt_walk (pt_mem s) r p \<noteq> Some f"
  using assms unfolding pt_inv_def by blast+

text \<open>Changing entries only below one edge of the tree leaves every other path as it is.\<close>

lemma walk_agree:
  assumes "\<And>q u j. pt_path q \<Longrightarrow> pt_walk m r q = Some u \<Longrightarrow> j < PTE_PER_PAGE \<Longrightarrow> \<not> prefix edge (q @ [j]) \<Longrightarrow> m' u j = m u j"
  shows "pt_path q \<Longrightarrow> \<not> prefix edge q \<Longrightarrow> pt_walk m' r q = pt_walk m r q"
proof (induction q rule: rev_induct)
  case (snoc j q)
  then have "pt_walk m' r q = pt_walk m r q" "pt_path q" "j < PTE_PER_PAGE" by auto
  then show ?case using assms [of q _ j] snoc.prems by (simp add: pt_walk_append split: option.split)
qed simp

lemma lookup_agree:
  assumes "\<And>q u j. pt_path q \<Longrightarrow> pt_walk m r q = Some u \<Longrightarrow> j < PTE_PER_PAGE \<Longrightarrow> \<not> prefix edge (q @ [j]) \<Longrightarrow> m' u j = m u j"
    and "pt_path q" "j < PTE_PER_PAGE" "\<not> prefix edge (q @ [j])"
  shows "pt_lookup m' r q j = pt_lookup m r q j"
proof -
  have "pt_walk m' r q = pt_walk m r q" by (rule walk_agree [OF assms(1,2)]) (use assms(4) in auto)
  then show ?thesis using assms by (auto simp: pt_lookup_def split: option.splits)
qed

lemma prefix_snoc_edge: "prefix (p @ [i]) q \<longleftrightarrow> (\<exists>rest. q = p @ i # rest)"
  by (auto simp: prefix_def)

text \<open>Writing the last level.\<close>

lemma leaf_write:
  assumes inv: "pt_inv r s" and p: "pt_path p" "length p = 3" "pt_walk (pt_mem s) r p = Some t" and i: "i < PTE_PER_PAGE"
    and e: "e AND 3 = 0 \<or> e AND 3 = 3"
  shows "pt_inv r (set_entry t i e s)" "pt_frames r (set_entry t i e s) = pt_frames r s"
    "pt_path q \<Longrightarrow> pt_walk (pt_mem (set_entry t i e s)) r q = pt_walk (pt_mem s) r q"
    "pt_path q \<Longrightarrow> length q = 3 \<Longrightarrow> j < PTE_PER_PAGE \<Longrightarrow> pt_lookup (pt_mem (set_entry t i e s)) r q j =
      (if q = p \<and> j = i then if e AND 3 = 0 then None else Some e else pt_lookup (pt_mem s) r q j)"
proof -
  let ?m = "pt_mem s" and ?m' = "(pt_mem s)(t := (pt_mem s t)(i := e))"
  note tree = pt_invD(1) [OF inv]
  have same: "?m' u j = ?m u j" if "pt_path q" "pt_walk ?m r q = Some u" "\<not> prefix (p @ [i]) (q @ [j])" for q u j
    using pt_treeD(1) [OF tree p(1,3) that(1)] that by (cases "u = t") auto
  have pt_walk: "pt_walk ?m' r q = pt_walk ?m r q" if q: "pt_path q" for q
  proof (rule walk_agree [OF same q])
    show "\<not> prefix (p @ [i]) q" using q p(2) by (auto simp: pt_path_def dest: prefix_length_le)
  qed
  then show "pt_path q \<Longrightarrow> pt_walk (pt_mem (set_entry t i e s)) r q = pt_walk (pt_mem s) r q" by (simp add: set_entry_def)
  have "pt_tree ?m' r" using tree pt_walk e unfolding pt_tree_def by (auto simp: fun_upd_def)
  then show "pt_inv r (set_entry t i e s)"
    using inv pt_walk by (auto simp: pt_inv_def set_entry_def pt_pool_def)
  show "pt_frames r (set_entry t i e s) = pt_frames r s"
    using pt_walk by (auto simp: pt_frames_def set_entry_def pt_pool_def)
  show "pt_lookup (pt_mem (set_entry t i e s)) r q j =
      (if q = p \<and> j = i then if e AND 3 = 0 then None else Some e else pt_lookup (pt_mem s) r q j)"
    if "pt_path q" "length q = 3" "j < PTE_PER_PAGE"
  proof (cases "q = p")
    case True
    then show ?thesis using p(3) pt_walk [OF that(1)] by (simp add: pt_lookup_def set_entry_def)
  next
    case False
    then have "pt_walk ?m r q \<noteq> Some t" using pt_treeD(1) [OF tree p(1,3) that(1)] by blast
    then show ?thesis using False pt_walk [OF that(1)] by (auto simp: pt_lookup_def set_entry_def split: option.split)
  qed
qed

text \<open>A new table behind an empty entry.\<close>

lemma new_table:
  assumes inv: "pt_inv r s" and p: "pt_path p" "length p < 3" "pt_walk (pt_mem s) r p = Some t" and i: "i < PTE_PER_PAGE"
    and empty: "pt_mem s t i AND 3 = 0" and f: "f \<in> set (pt_pool s)"
  defines "m' \<equiv> (pt_mem s)(f := (\<lambda>_. 0), t := (pt_mem s t)(i := (f AND PTE_ADDR_MASK) OR 3))"
  shows "pt_path q \<Longrightarrow> pt_walk m' r q = (if q = p @ [i] then Some f else pt_walk (pt_mem s) r q)"
    "pt_path q \<Longrightarrow> j < PTE_PER_PAGE \<Longrightarrow> length q = 3 \<Longrightarrow> pt_lookup m' r q j = pt_lookup (pt_mem s) r q j"
    "pt_tree m' r"
proof -
  let ?m = "pt_mem s"
  note tree = pt_invD(1) [OF inv]
  have ft: "t \<noteq> f" using pt_invD(4) [OF inv f p(1)] p(3) by blast
  have fm: "f AND PTE_ADDR_MASK = f" by (rule pt_invD(3) [OF inv f])
  have same: "m' u j = ?m u j" if "pt_path q" "pt_walk ?m r q = Some u" "\<not> prefix (p @ [i]) (q @ [j])" for q u j
    using pt_treeD(1) [OF tree p(1,3) that(1)] that pt_invD(4) [OF inv f that(1)] by (cases "u = t") (auto simp: m'_def)
  have off: "pt_walk m' r q = pt_walk ?m r q" if "pt_path q" "\<not> prefix (p @ [i]) q" for q
    by (rule walk_agree [OF same that])
  have "pt_walk m' r p = Some t" using off [OF p(1)] p(3) by simp
  then have on: "pt_walk m' r (p @ i # rest) = (if rest = [] then Some f else None)" for rest
    using ft table_entry_bits [of f] fm by (cases rest) (auto simp: pt_walk_append m'_def)
  have on_old: "pt_walk ?m r (p @ i # rest) = None" for rest
    using empty p(3) by (simp add: pt_walk_append)
  have pt_walk: "pt_walk m' r q = (if q = p @ [i] then Some f else pt_walk ?m r q)" if q: "pt_path q" for q
  proof (cases "prefix (p @ [i]) q")
    case True
    then obtain rest where "q = p @ i # rest" by (auto simp: prefix_snoc_edge)
    then show ?thesis by (simp add: on on_old)
  qed (use off [OF q] in auto)
  then show "pt_path q \<Longrightarrow> pt_walk m' r q = (if q = p @ [i] then Some f else pt_walk (pt_mem s) r q)" .
  show "pt_lookup m' r q j = pt_lookup (pt_mem s) r q j" if q: "pt_path q" "j < PTE_PER_PAGE" "length q = 3"
  proof (cases "prefix (p @ [i]) q")
    case True
    then obtain rest where "q = p @ i # rest" by (auto simp: prefix_snoc_edge)
    then show ?thesis using on [of rest] on_old [of rest] ft by (cases "rest = []") (simp_all add: pt_lookup_def m'_def)
  next
    case False
    then have "\<not> prefix (p @ [i]) (q @ [j])" using p(2) q(3) by (auto simp: prefix_snoc)
    then show ?thesis by (intro lookup_agree [where m = ?m and edge = "p @ [i]"] q(1,2)) (rule same)
  qed
  show "pt_tree m' r"
    unfolding pt_tree_def
  proof (intro conjI allI impI)
    fix a b u assume "pt_path a" "pt_path b" "pt_walk m' r a = Some u" "pt_walk m' r b = Some u"
    then show "a = b" using pt_walk pt_invD(4) [OF inv f] tree unfolding pt_tree_def by (metis option.inject)
  next
    fix a u j assume a: "pt_path a" "pt_walk m' r a = Some u" "j < PTE_PER_PAGE"
    then show "m' u j AND 3 = 0 \<or> m' u j AND 3 = 3"
      using pt_walk [OF a(1)] tree ft table_entry_bits(1) [of f] unfolding pt_tree_def m'_def
      by (auto split: if_splits)
  qed
qed

lemma take_frame_pool:
  assumes "pt_pool s \<noteq> []"
  obtains f s1 where "take_frame s = Some (f, s1)" "pt_pool s = f # pt_pool s1" "pt_mem s1 = pt_mem s"
proof (cases "pt_released s")
  case Nil
  then obtain f fs where "pt_fresh s = f # fs" using assms by (cases "pt_fresh s") (auto simp: pt_pool_def)
  then show ?thesis using Nil that [of f "s\<lparr>pt_fresh := fs\<rparr>"] by (simp add: pt_pool_def)
next
  case (Cons f fs)
  then show ?thesis using that [of f "s\<lparr>pt_released := fs\<rparr>"] by (simp add: pt_pool_def)
qed

lemma ensure_next_table_ok:
  assumes inv: "pt_inv r s" and p: "pt_path p" "length p < 3" "pt_walk (pt_mem s) r p = Some t" and i: "i < PTE_PER_PAGE"
    and pool: "pt_pool s \<noteq> []"
  obtains t' s' where "ensure_next_table t i s = Some (t', s')" "pt_inv r s'" "pt_walk (pt_mem s') r (p @ [i]) = Some t'"
    "pt_frames r s' = pt_frames r s" "length (pt_pool s) \<le> length (pt_pool s') + 1"
    "\<And>q j. pt_path q \<Longrightarrow> length q = 3 \<Longrightarrow> j < PTE_PER_PAGE \<Longrightarrow> pt_lookup (pt_mem s') r q j = pt_lookup (pt_mem s) r q j"
proof (cases "pt_mem s t i AND 3 = 0")
  case False
  then show ?thesis using that [of _ s] inv p(3) by (simp add: ensure_next_table_def pt_walk_append)
next
  case True
  obtain f s1 where s1: "take_frame s = Some (f, s1)" "pt_pool s = f # pt_pool s1" "pt_mem s1 = pt_mem s"
    using take_frame_pool [OF pool] .
  let ?m' = "(pt_mem s)(f := (\<lambda>_. 0), t := (pt_mem s t)(i := (f AND PTE_ADDR_MASK) OR 3))"
  let ?s' = "s1\<lparr>pt_mem := ?m'\<rparr>"
  have f: "f \<in> set (pt_pool s)" using s1(2) by simp
  note new = new_table [OF inv p i True f]
  have fm: "f AND PTE_ADDR_MASK = f" and ft: "t \<noteq> f" using pt_invD(3,4) [OF inv f] p(1,3) by blast+
  have pool': "pt_pool ?s' = pt_pool s1" by (simp add: pt_pool_def)
  show ?thesis
  proof (rule that [of f ?s'])
    show "ensure_next_table t i s = Some (f, ?s')"
      using True s1 ft fm table_entry_bits(2) [of f]
      by (simp add: ensure_next_table_def set_entry_def fun_upd_twist)
    show "pt_inv r ?s'"
      using new(1,3) inv s1(2) pool' unfolding pt_inv_def by auto
    show "pt_walk (pt_mem ?s') r (p @ [i]) = Some f" using new(1) [of "p @ [i]"] p i by simp
    show "pt_frames r ?s' = pt_frames r s"
    proof -
      have "pt_walk (pt_mem s) r (p @ [i]) = None" using True p(3) by (simp add: pt_walk_append)
      then have "{u. \<exists>q. pt_path q \<and> q \<noteq> [] \<and> pt_walk ?m' r q = Some u}
        = insert f {u. \<exists>q. pt_path q \<and> q \<noteq> [] \<and> pt_walk (pt_mem s) r q = Some u}"
        using new(1) p i by (auto split: if_splits intro: exI [of _ "p @ [i]"])
          (metis option.distinct(1))
      then show ?thesis using pool' s1(2) by (auto simp: pt_frames_def)
    qed
    show "length (pt_pool s) \<le> length (pt_pool ?s') + 1" using s1(2) pool' by simp
    show "pt_lookup (pt_mem ?s') r q j = pt_lookup (pt_mem s) r q j" if "pt_path q" "length q = 3" "j < PTE_PER_PAGE" for q j
      using new(2) [of q j] that by simp
  qed
qed

text \<open>Releasing a table without valid entries, and releasing a frame that is no table.\<close>

definition pt_keeps :: "u64 \<Rightarrow> PtMem \<Rightarrow> PtMem \<Rightarrow> bool" where
  "pt_keeps r s s' \<longleftrightarrow> pt_inv r s' \<and> pt_frames r s' = pt_frames r s \<and>
    (\<forall>q j. pt_path q \<longrightarrow> length q = 3 \<longrightarrow> j < PTE_PER_PAGE \<longrightarrow> pt_lookup (pt_mem s') r q j = pt_lookup (pt_mem s) r q j)"

lemma pt_keeps_trans: "pt_keeps r s s1 \<Longrightarrow> pt_keeps r s1 s2 \<Longrightarrow> pt_keeps r s s2"
  by (simp add: pt_keeps_def)

lemma release_walk:
  assumes inv: "pt_inv r s" and p: "pt_path p" "length p < 3" "pt_walk (pt_mem s) r p = Some t" and i: "i < PTE_PER_PAGE"
    and c: "pt_walk (pt_mem s) r (p @ [i]) = Some c" "\<not> table_used c s"
  defines "s' \<equiv> give_frame c (set_entry t i 0 s)"
  shows "pt_path q \<Longrightarrow> pt_walk (pt_mem s) r q = Some u \<Longrightarrow> \<not> prefix (p @ [i]) (q @ [j]) \<Longrightarrow> pt_mem s' u j = pt_mem s u j"
    and "pt_path q \<Longrightarrow> pt_walk (pt_mem s') r q = (if prefix (p @ [i]) q then None else pt_walk (pt_mem s) r q)"
    and "pt_path (p @ i # rest) \<Longrightarrow> pt_walk (pt_mem s) r (p @ i # rest) = (if rest = [] then Some c else None)"
    and "pt_path q \<Longrightarrow> pt_walk (pt_mem s') r q \<noteq> Some c"
proof -
  let ?m = "pt_mem s" and ?m' = "pt_mem s'"
  note tree = pt_invD(1) [OF inv]
  have pi: "pt_path (p @ [i])" using p i by simp
  have ct: "c \<noteq> t" using pt_treeD(1) [OF tree p(1,3) pi] c(1) by auto
  have same: "?m' u j = ?m u j" if "pt_path q" "pt_walk ?m r q = Some u" "\<not> prefix (p @ [i]) (q @ [j])" for q u j
    using pt_treeD(1) [OF tree p(1,3) that(1)] pt_treeD(1) [OF tree pi c(1) that(1)] that
    by (auto simp: s'_def give_frame_def set_entry_def)
  then show "pt_path q \<Longrightarrow> pt_walk ?m r q = Some u \<Longrightarrow> \<not> prefix (p @ [i]) (q @ [j]) \<Longrightarrow> ?m' u j = ?m u j" .
  have off: "pt_walk ?m' r q = pt_walk ?m r q" if "pt_path q" "\<not> prefix (p @ [i]) q" for q
    by (rule walk_agree [OF same that])
  have "pt_walk ?m' r p = Some t" using off [OF p(1)] p(3) by simp
  then have "pt_walk ?m' r (p @ i # rest) = None" for rest
    using ct by (simp add: pt_walk_append s'_def give_frame_def set_entry_def)
  then have pt_walk: "pt_walk ?m' r q = (if prefix (p @ [i]) q then None else pt_walk ?m r q)" if "pt_path q" for q
    using off [OF that] by (auto simp: prefix_snoc_edge)
  then show "pt_path q \<Longrightarrow> pt_walk ?m' r q = (if prefix (p @ [i]) q then None else pt_walk ?m r q)" .
  have "?m c k AND 3 = 0" if "k < PTE_PER_PAGE" for k using c(2) that by (auto simp: table_used_def list_ex_iff)
  then show "pt_path (p @ i # rest) \<Longrightarrow> pt_walk ?m r (p @ i # rest) = (if rest = [] then Some c else None)"
    using c(1) by (cases rest) (auto simp: pt_walk_append pt_path_def split: option.splits if_splits)
  show "pt_walk ?m' r q \<noteq> Some c" if "pt_path q"
    using pt_walk [OF that] pt_treeD(1) [OF tree pi c(1) that] by (auto split: if_splits)
qed

lemma release_table:
  assumes inv: "pt_inv r s" and p: "pt_path p" "length p < 3" "pt_walk (pt_mem s) r p = Some t" and i: "i < PTE_PER_PAGE"
    and c: "pt_walk (pt_mem s) r (p @ [i]) = Some c" "\<not> table_used c s"
  defines "s' \<equiv> give_frame c (set_entry t i 0 s)"
  shows "pt_keeps r s s'"
    "pt_path q \<Longrightarrow> pt_walk (pt_mem s') r q = (if prefix (p @ [i]) q then None else pt_walk (pt_mem s) r q)"
proof -
  let ?m = "pt_mem s" and ?m' = "pt_mem s'"
  note tree = pt_invD(1) [OF inv] and facts = release_walk [OF assms(1-7), folded s'_def]
  note same = facts(1) and pt_walk = facts(2) and below = facts(3) and gone = facts(4)
  show "pt_path q \<Longrightarrow> pt_walk ?m' r q = (if prefix (p @ [i]) q then None else pt_walk ?m r q)" by (rule pt_walk)
  have pi: "pt_path (p @ [i])" using p i by simp
  have pool: "pt_pool s' = c # pt_pool s" by (simp add: s'_def give_frame_def set_entry_def pt_pool_def)
  have only: "pt_walk ?m r q = Some u \<longleftrightarrow> pt_walk ?m' r q = Some u \<or> q = p @ [i] \<and> u = c" if "pt_path q" for q u
    using pt_walk [OF that] below that c(1) by (auto simp: prefix_snoc_edge split: if_splits)
  have fresh: "c \<notin> set (pt_pool s)" "c AND PTE_ADDR_MASK = c"
    using pt_invD(4) [OF inv _ pi] c(1) p(3) by (auto simp: pt_walk_append split: if_splits)
  have "pt_tree ?m' r"
    unfolding pt_tree_def
  proof (intro conjI allI impI)
    fix a b u assume "pt_path a" "pt_path b" "pt_walk ?m' r a = Some u" "pt_walk ?m' r b = Some u"
    then show "a = b" using only tree unfolding pt_tree_def by blast
  next
    fix a u j assume a: "pt_path a" "pt_walk ?m' r a = Some u" "j < PTE_PER_PAGE"
    then have "pt_walk ?m r a = Some u" "u \<noteq> c" using only gone by blast+
    then show "?m' u j AND 3 = 0 \<or> ?m' u j AND 3 = 3"
      using pt_treeD(2) [OF tree a(1) _ a(3)] by (auto simp: s'_def give_frame_def set_entry_def)
  qed
  then have inv': "pt_inv r s'"
    using inv pool fresh gone only unfolding pt_inv_def by auto
  have frames: "pt_frames r s' = pt_frames r s"
    using only pool pi c(1) unfolding pt_frames_def by (auto intro: exI [of _ "p @ [i]"])
  have "pt_lookup ?m' r q j = pt_lookup ?m r q j" if q: "pt_path q" "length q = 3" "j < PTE_PER_PAGE" for q j
  proof (cases "prefix (p @ [i]) q")
    case True
    have "?m c j AND 3 = 0" using c(2) q(3) by (auto simp: table_used_def list_ex_iff)
    then show ?thesis using True pt_walk [OF q(1)] below q(1) by (auto simp: pt_lookup_def prefix_snoc_edge)
  next
    case False
    then have "\<not> prefix (p @ [i]) (q @ [j])" using p(2) q(2) by (auto simp: prefix_snoc)
    then show ?thesis by (intro lookup_agree [where m = ?m and edge = "p @ [i]"] q(1,3)) (rule same)
  qed
  then show "pt_keeps r s s'" using inv' frames by (simp add: pt_keeps_def)
qed

lemma give_other_frame:
  assumes inv: "pt_inv r s" and c: "c AND PTE_ADDR_MASK = c" "c \<notin> pt_frames r s" "c \<noteq> r"
  shows "pt_inv r (give_frame c s)" "pt_frames r (give_frame c s) = insert c (pt_frames r s)"
    "pt_path q \<Longrightarrow> j < PTE_PER_PAGE \<Longrightarrow> pt_lookup (pt_mem (give_frame c s)) r q j = pt_lookup (pt_mem s) r q j"
proof -
  let ?m = "pt_mem s" and ?m' = "pt_mem (give_frame c s)"
  have away: "u \<noteq> c" if "pt_path q" "pt_walk ?m r q = Some u" for q u
    using that c(2,3) by (cases "q = []") (auto simp: pt_frames_def)
  then have same: "?m' u j = ?m u j" if "pt_path q" "pt_walk ?m r q = Some u" for q u j
    using that by (simp add: give_frame_def set_entry_def)
  have pt_walk: "pt_walk ?m' r q = pt_walk ?m r q" if q: "pt_path q" for q
    by (rule walk_agree [where edge = "replicate 5 0"]) (use q same in \<open>auto simp: pt_path_def dest: prefix_length_le\<close>)
  have pool: "pt_pool (give_frame c s) = c # pt_pool s" by (simp add: give_frame_def set_entry_def pt_pool_def)
  have "pt_tree ?m' r"
    using pt_invD(1) [OF inv] pt_walk same unfolding pt_tree_def by simp
  then show "pt_inv r (give_frame c s)"
    using inv pool pt_walk away c unfolding pt_inv_def pt_frames_def by auto
  show "pt_frames r (give_frame c s) = insert c (pt_frames r s)"
    using pool pt_walk by (auto simp: pt_frames_def)
  show "pt_lookup ?m' r q j = pt_lookup ?m r q j" if "pt_path q" "j < PTE_PER_PAGE"
    using pt_walk [OF that(1)] same [OF that(1)] by (simp add: pt_lookup_def split: option.split)
qed

subsection \<open>The operations on the tree\<close>

abbreviation pt_at :: "u64 \<Rightarrow> nat list" where
  "pt_at v \<equiv> [pt_index 39 v, pt_index 30 v, pt_index 21 v]"

lemma pt_at_path [simp]: "pt_path (pt_at v)" "pt_path [pt_index k v]" "pt_path [pt_index k v, pt_index l v]"
  by (simp_all add: pt_path_def pt_index_less)

lemma valid_entry:
  assumes "pt_tree m r" "pt_path p" "pt_walk m r p = Some t" "i < PTE_PER_PAGE"
  shows "m t i AND 3 = 3 \<longleftrightarrow> m t i AND 3 \<noteq> 0"
  using pt_treeD(2) [OF assms] by auto

text \<open>Either the walk of the code stops, or it reaches the last table.\<close>

lemma levels:
  assumes "pt_tree m r"
  defines "l1 v \<equiv> m r (pt_index 39 v) AND PTE_ADDR_MASK"
  defines "l2 v \<equiv> m (l1 v) (pt_index 30 v) AND PTE_ADDR_MASK"
  defines "l3 v \<equiv> m (l2 v) (pt_index 21 v) AND PTE_ADDR_MASK"
  obtains (stop) "m r (pt_index 39 v) AND 3 \<noteq> 3 \<or> m (l1 v) (pt_index 30 v) AND 3 \<noteq> 3 \<or> m (l2 v) (pt_index 21 v) AND 3 \<noteq> 3"
      "pt_walk m r (pt_at v) = None"
  | (reach) "m r (pt_index 39 v) AND 3 = 3" "m (l1 v) (pt_index 30 v) AND 3 = 3" "m (l2 v) (pt_index 21 v) AND 3 = 3"
      "pt_walk m r [pt_index 39 v] = Some (l1 v)" "pt_walk m r [pt_index 39 v, pt_index 30 v] = Some (l2 v)" "pt_walk m r (pt_at v) = Some (l3 v)"
proof -
  note valid = valid_entry [OF assms(1) _ _ pt_index_less]
  have v0: "m r (pt_index 39 v) AND 3 = 3 \<longleftrightarrow> m r (pt_index 39 v) AND 3 \<noteq> 0"
    using valid [of "[]"] by simp
  have v1: "m (l1 v) (pt_index 30 v) AND 3 = 3 \<longleftrightarrow> m (l1 v) (pt_index 30 v) AND 3 \<noteq> 0" if "m r (pt_index 39 v) AND 3 = 3"
    using valid [of "[pt_index 39 v]"] that by (simp add: l1_def)
  have v2: "m (l2 v) (pt_index 21 v) AND 3 = 3 \<longleftrightarrow> m (l2 v) (pt_index 21 v) AND 3 \<noteq> 0"
    if "m r (pt_index 39 v) AND 3 = 3" "m (l1 v) (pt_index 30 v) AND 3 = 3"
    using valid [of "[pt_index 39 v, pt_index 30 v]"] that by (simp add: l1_def l2_def)
  consider "m r (pt_index 39 v) AND 3 = 3" "m (l1 v) (pt_index 30 v) AND 3 = 3" "m (l2 v) (pt_index 21 v) AND 3 = 3"
    | "m r (pt_index 39 v) AND 3 \<noteq> 3 \<or> m (l1 v) (pt_index 30 v) AND 3 \<noteq> 3 \<or> m (l2 v) (pt_index 21 v) AND 3 \<noteq> 3" by blast
  then show ?thesis
  proof cases
    case 1
    then show ?thesis by (intro reach) (simp_all add: l1_def l2_def l3_def)
  next
    case 2
    then show ?thesis by (rule stop) (use 2 v0 v1 v2 in \<open>auto simp: l1_def l2_def\<close>)
  qed
qed

declare pt_walk.simps(2) [simp del]

lemma get_phys_addr_lookup:
  assumes "pt_tree (pt_mem s) (pt_root space)"
  shows "get_phys_addr v space s =
    map_option (\<lambda>e. (e AND PTE_ADDR_MASK) OR (v AND 0xFFF)) (pt_lookup (pt_mem s) (pt_root space) (pt_at v) (pt_index 12 v))"
  using assms
proof (cases rule: levels [of "pt_mem s" "pt_root space" v])
  case stop
  then show ?thesis unfolding get_phys_addr_def Let_def pt_lookup_def by auto
next
  case reach
  have "pt_mem s t (pt_index 12 v) AND 1 = 0 \<longleftrightarrow> pt_mem s t (pt_index 12 v) AND 3 = 0"
    if "pt_walk (pt_mem s) (pt_root space) (pt_at v) = Some t" for t
    using and_1_of_3 [OF pt_treeD(2) [OF assms _ that pt_index_less]] by simp
  then show ?thesis using reach unfolding get_phys_addr_def Let_def pt_lookup_def by simp
qed

lemma vmap_ok:
  fixes paddr :: u64 and options :: PagingOptions
  assumes "pt_inv (pt_root space) s" "3 \<le> length (pt_pool s)"
  defines "e \<equiv> (paddr AND PTE_ADDR_MASK) OR create_aarch64_attributes options"
  shows "\<exists>s'. vmap space v paddr options s = Some s' \<and> pt_inv (pt_root space) s' \<and>
    pt_frames (pt_root space) s' = pt_frames (pt_root space) s \<and>
    (\<forall>q j. pt_path q \<and> length q = 3 \<and> j < PTE_PER_PAGE \<longrightarrow> pt_lookup (pt_mem s') (pt_root space) q j =
      (if q = pt_at v \<and> j = pt_index 12 v then if e AND 3 = 0 then None else Some e else pt_lookup (pt_mem s) (pt_root space) q j))"
proof -
  let ?r = "pt_root space"
  obtain l1 s1 where 1: "ensure_next_table ?r (pt_index 39 v) s = Some (l1, s1)" "pt_inv ?r s1"
    "pt_walk (pt_mem s1) ?r [pt_index 39 v] = Some l1" "pt_frames ?r s1 = pt_frames ?r s" "length (pt_pool s) \<le> length (pt_pool s1) + 1"
    "\<And>q j. pt_path q \<Longrightarrow> length q = 3 \<Longrightarrow> j < PTE_PER_PAGE \<Longrightarrow> pt_lookup (pt_mem s1) ?r q j = pt_lookup (pt_mem s) ?r q j"
    by (rule ensure_next_table_ok [OF assms(1), of "[]" _ "pt_index 39 v"]) (use assms(2) pt_index_less in auto)
  obtain l2 s2 where 2: "ensure_next_table l1 (pt_index 30 v) s1 = Some (l2, s2)" "pt_inv ?r s2"
    "pt_walk (pt_mem s2) ?r [pt_index 39 v, pt_index 30 v] = Some l2" "pt_frames ?r s2 = pt_frames ?r s1" "length (pt_pool s1) \<le> length (pt_pool s2) + 1"
    "\<And>q j. pt_path q \<Longrightarrow> length q = 3 \<Longrightarrow> j < PTE_PER_PAGE \<Longrightarrow> pt_lookup (pt_mem s2) ?r q j = pt_lookup (pt_mem s1) ?r q j"
    by (rule ensure_next_table_ok [OF 1(2) _ _ 1(3), of "pt_index 30 v"]) (use assms(2) 1(5) pt_index_less in auto)
  obtain l3 s3 where 3: "ensure_next_table l2 (pt_index 21 v) s2 = Some (l3, s3)" "pt_inv ?r s3"
    "pt_walk (pt_mem s3) ?r (pt_at v) = Some l3" "pt_frames ?r s3 = pt_frames ?r s2"
    "\<And>q j. pt_path q \<Longrightarrow> length q = 3 \<Longrightarrow> j < PTE_PER_PAGE \<Longrightarrow> pt_lookup (pt_mem s3) ?r q j = pt_lookup (pt_mem s2) ?r q j"
    by (rule ensure_next_table_ok [OF 2(2) _ _ 2(3), of "pt_index 21 v"]) (use assms(2) 1(5) 2(5) pt_index_less in auto)
  have e: "e AND 3 = 0 \<or> e AND 3 = 3" by (simp add: e_def leaf_bits)
  note written = leaf_write [OF 3(2) pt_at_path(1) _ 3(3) pt_index_less [of 12 v] e]
  show ?thesis
  proof (intro exI conjI)
    show "vmap space v paddr options s = Some (set_entry l3 (pt_index 12 v) e s3)"
      using 1(1) 2(1) 3(1) by (simp add: vmap_def e_def)
  qed (use written 1 2 3 in simp_all)
qed

lemma free_unused_tables_ok:
  assumes inv: "pt_inv r s" and w: "pt_walk (pt_mem s) r [pt_index 39 v] = Some l1"
    "pt_walk (pt_mem s) r [pt_index 39 v, pt_index 30 v] = Some l2" "pt_walk (pt_mem s) r (pt_at v) = Some l3"
  shows "pt_keeps r s (free_unused_tables v r l1 l2 l3 s)"
proof -
  let ?s1 = "give_frame l3 (set_entry l2 (pt_index 21 v) 0 s)"
  let ?s2 = "give_frame l2 (set_entry l1 (pt_index 30 v) 0 ?s1)"
  have refl: "pt_keeps r s s" using inv by (simp add: pt_keeps_def)
  have r1: "pt_keeps r s ?s1" "pt_walk (pt_mem ?s1) r [pt_index 39 v] = Some l1"
    "pt_walk (pt_mem ?s1) r [pt_index 39 v, pt_index 30 v] = Some l2" if "\<not> table_used l3 s"
    using release_table [OF inv, of "[pt_index 39 v, pt_index 30 v]" l2 "pt_index 21 v" l3] w that by (simp_all add: pt_index_less)
  have r2: "pt_keeps r ?s1 ?s2" "pt_walk (pt_mem ?s2) r [pt_index 39 v] = Some l1"
    if n: "\<not> table_used l3 s" "\<not> table_used l2 ?s1"
  proof -
    have "pt_inv r ?s1" using r1(1) [OF n(1)] by (simp add: pt_keeps_def)
    from release_table [OF this, of "[pt_index 39 v]" l1 "pt_index 30 v" l2] r1(2,3) [OF n(1)] n(2)
    show "pt_keeps r ?s1 ?s2" "pt_walk (pt_mem ?s2) r [pt_index 39 v] = Some l1" by (simp_all add: pt_index_less)
  qed
  have r3: "pt_keeps r ?s2 (give_frame l1 (set_entry r (pt_index 39 v) 0 ?s2))"
    if n: "\<not> table_used l3 s" "\<not> table_used l2 ?s1" "\<not> table_used l1 ?s2"
  proof -
    have "pt_inv r ?s2" using r2(1) [OF n(1,2)] by (simp add: pt_keeps_def)
    from release_table(1) [OF this, of "[]" r "pt_index 39 v" l1] r2(2) [OF n(1,2)] n(3)
    show ?thesis by (simp add: pt_index_less)
  qed
  note k2 = pt_keeps_trans [OF r1(1) r2(1)]
  note k3 = pt_keeps_trans [OF k2 r3]
  show ?thesis
    unfolding free_unused_tables_def Let_def by (simp add: refl r1(1) k2 k3)
qed

lemma vunmap_ok:
  fixes v :: u64
  assumes inv: "pt_inv (pt_root space) s"
  defines "old \<equiv> pt_lookup (pt_mem s) (pt_root space) (pt_at v) (pt_index 12 v)"
  assumes foreign: "\<And>e. free_frame \<Longrightarrow> old = Some e \<Longrightarrow> e AND PTE_ADDR_MASK \<notin> insert (pt_root space) (pt_frames (pt_root space) s)"
  obtains s' where "vunmap_internal space v free_frame s = (map_option (\<lambda>e. e AND PTE_ADDR_MASK) old, s')" "pt_inv (pt_root space) s'"
    "pt_frames (pt_root space) s' = pt_frames (pt_root space) s \<union> (if free_frame then (\<lambda>e. e AND PTE_ADDR_MASK) ` set_option old else {})"
    "\<And>q j. pt_path q \<Longrightarrow> length q = 3 \<Longrightarrow> j < PTE_PER_PAGE \<Longrightarrow> pt_lookup (pt_mem s') (pt_root space) q j =
      (if q = pt_at v \<and> j = pt_index 12 v then None else pt_lookup (pt_mem s) (pt_root space) q j)"
  using pt_invD(1) [OF inv]
proof (cases rule: levels [where v = v])
  case stop
  then have "old = None" by (simp add: old_def pt_lookup_def)
  then show ?thesis using stop inv by (intro that [of s]) (auto simp: vunmap_internal_def Let_def old_def)
next
  case reach
  let ?r = "pt_root space" and ?m = "pt_mem s"
  define l1 where "l1 = ?m ?r (pt_index 39 v) AND PTE_ADDR_MASK"
  define l2 where "l2 = ?m l1 (pt_index 30 v) AND PTE_ADDR_MASK"
  define l3 where "l3 = ?m l2 (pt_index 21 v) AND PTE_ADDR_MASK"
  define s1 where "s1 = set_entry l3 (pt_index 12 v) 0 s"
  define s2 where "s2 = free_unused_tables v ?r l1 l2 l3 s1"
  note reach = reach [folded l1_def, folded l2_def, folded l3_def]
  have run: "vunmap_internal space v free_frame s =
    (if ?m l3 (pt_index 12 v) AND 3 = 0 then (None, s)
     else (Some (?m l3 (pt_index 12 v) AND PTE_ADDR_MASK), if free_frame then give_frame (?m l3 (pt_index 12 v) AND PTE_ADDR_MASK) s2 else s2))"
    using reach by (simp add: vunmap_internal_def Let_def s1_def s2_def flip: l1_def l2_def l3_def)
  have old: "old = (if ?m l3 (pt_index 12 v) AND 3 = 0 then None else Some (?m l3 (pt_index 12 v)))"
    using reach by (simp add: old_def pt_lookup_def)
  note written = leaf_write [OF inv pt_at_path(1) _ reach(6) pt_index_less [of 12 v], of 0, folded s1_def]
  have "pt_keeps ?r s1 s2"
    unfolding s2_def by (rule free_unused_tables_ok) (use written(1,3) reach in simp_all)
  then have s2: "pt_inv ?r s2" "pt_frames ?r s2 = pt_frames ?r s"
    "\<And>q j. pt_path q \<Longrightarrow> length q = 3 \<Longrightarrow> j < PTE_PER_PAGE \<Longrightarrow> pt_lookup (pt_mem s2) ?r q j =
      (if q = pt_at v \<and> j = pt_index 12 v then None else pt_lookup ?m ?r q j)"
    using written(2,4) unfolding pt_keeps_def by auto
  show ?thesis
  proof (cases old)
    case None
    then show ?thesis using run old inv by (intro that [of s]) (auto split: if_splits simp: old_def)
  next
    case (Some e)
    then have run': "vunmap_internal space v free_frame s = (Some (e AND PTE_ADDR_MASK), if free_frame then give_frame (e AND PTE_ADDR_MASK) s2 else s2)"
      using run old by (auto split: if_splits)
    show ?thesis
    proof (cases free_frame)
      case False
      then show ?thesis using run' s2 Some by (intro that [of s2]) auto
    next
      case True
      then have "e AND PTE_ADDR_MASK \<notin> pt_frames ?r s2" "e AND PTE_ADDR_MASK \<noteq> ?r" using foreign Some s2(2) by auto
      from give_other_frame [OF s2(1) mask_idem this] show ?thesis
        using True run' Some s2 by (intro that [of "give_frame (e AND PTE_ADDR_MASK) s2"]) auto
    qed
  qed
qed

subsection \<open>Properties\<close>

text \<open>
  C12. Mapping a page: when the allocator has three frames, the call returns, the
  translation of every address of the page becomes the frame given with the offset in the
  page (none, when the options lack PRESENT), and the translation of every other
  address is as before; addresses that differ only above bit 47 are the same page. The
  tables stay a tree without sharing, and the frames that are tables or free are the
  same as before.
\<close>

theorem vmap_translates:
  assumes "pt_inv (pt_root space) s" "3 \<le> length (pt_pool s)"
  shows "\<exists>s'. vmap space v paddr options s = Some s' \<and> pt_inv (pt_root space) s' \<and>
    pt_frames (pt_root space) s' = pt_frames (pt_root space) s \<and>
    (\<forall>w. get_phys_addr w space s' =
      (if w AND PTE_ADDR_MASK = v AND PTE_ADDR_MASK
       then if has_option options OPT_PRESENT then Some ((paddr AND PTE_ADDR_MASK) OR (w AND 0xFFF)) else None
       else get_phys_addr w space s))"
proof -
  let ?e = "(paddr AND PTE_ADDR_MASK) OR create_aarch64_attributes options"
  obtain s' where s': "vmap space v paddr options s = Some s'" "pt_inv (pt_root space) s'"
    "pt_frames (pt_root space) s' = pt_frames (pt_root space) s"
    "\<forall>q j. pt_path q \<and> length q = 3 \<and> j < PTE_PER_PAGE \<longrightarrow> pt_lookup (pt_mem s') (pt_root space) q j =
      (if q = pt_at v \<and> j = pt_index 12 v then if ?e AND 3 = 0 then None else Some ?e else pt_lookup (pt_mem s) (pt_root space) q j)"
    using vmap_ok [OF assms, of v paddr options] by blast
  have "get_phys_addr w space s' =
      (if w AND PTE_ADDR_MASK = v AND PTE_ADDR_MASK
       then if has_option options OPT_PRESENT then Some ((paddr AND PTE_ADDR_MASK) OR (w AND 0xFFF)) else None
       else get_phys_addr w space s)" for w
    unfolding get_phys_addr_lookup [OF pt_invD(1) [OF s'(2)]] get_phys_addr_lookup [OF pt_invD(1) [OF assms(1)]] same_page
    using s'(4) [rule_format, of "pt_at w" "pt_index 12 w"] by (simp add: leaf_bits pt_index_less)
  then show ?thesis using s' by blast
qed

text \<open>
  C13. Unmapping a page: the call returns the frame the page was mapped to, if it was,
  afterwards no address of the page is translated, and the translation of every other
  address is as before, although tables without entries were released on the way up.
  The tables stay a tree, and exactly the page's own frame is added to the tables and
  free frames, and only when it is to be released.
\<close>

theorem vunmap_translates:
  assumes "pt_inv (pt_root space) s"
    and "\<And>f. free_frame \<Longrightarrow> get_phys_addr (v AND PTE_ADDR_MASK) space s = Some f \<Longrightarrow> f \<notin> insert (pt_root space) (pt_frames (pt_root space) s)"
  shows "\<exists>s'. vunmap_internal space v free_frame s = (get_phys_addr (v AND PTE_ADDR_MASK) space s, s') \<and> pt_inv (pt_root space) s' \<and>
    pt_frames (pt_root space) s' = pt_frames (pt_root space) s
      \<union> (if free_frame then set_option (get_phys_addr (v AND PTE_ADDR_MASK) space s) else {}) \<and>
    (\<forall>w. get_phys_addr w space s' =
      (if w AND PTE_ADDR_MASK = v AND PTE_ADDR_MASK then None else get_phys_addr w space s))"
proof -
  have idx: "pt_at (v AND PTE_ADDR_MASK) = pt_at v" "pt_index 12 (v AND PTE_ADDR_MASK) = pt_index 12 v"
    using same_page [of "v AND PTE_ADDR_MASK" v] by simp_all
  have "(v AND PTE_ADDR_MASK) AND 0xFFF = 0" by (simp add: PTE_ADDR_MASK_def and.assoc)
  then have old: "get_phys_addr (v AND PTE_ADDR_MASK) space s =
    map_option (\<lambda>e. e AND PTE_ADDR_MASK) (pt_lookup (pt_mem s) (pt_root space) (pt_at v) (pt_index 12 v))"
    unfolding get_phys_addr_lookup [OF pt_invD(1) [OF assms(1)]] idx by simp
  obtain s' where s': "vunmap_internal space v free_frame s = (get_phys_addr (v AND PTE_ADDR_MASK) space s, s')" "pt_inv (pt_root space) s'"
    "pt_frames (pt_root space) s' = pt_frames (pt_root space) s
      \<union> (if free_frame then set_option (get_phys_addr (v AND PTE_ADDR_MASK) space s) else {})"
    "\<And>q j. pt_path q \<Longrightarrow> length q = 3 \<Longrightarrow> j < PTE_PER_PAGE \<Longrightarrow> pt_lookup (pt_mem s') (pt_root space) q j =
      (if q = pt_at v \<and> j = pt_index 12 v then None else pt_lookup (pt_mem s) (pt_root space) q j)"
    by (rule vunmap_ok [OF assms(1), of free_frame v]) (use assms(2) old in \<open>auto simp: option.set_map\<close>)
  have "get_phys_addr w space s' = (if w AND PTE_ADDR_MASK = v AND PTE_ADDR_MASK then None else get_phys_addr w space s)" for w
    unfolding get_phys_addr_lookup [OF pt_invD(1) [OF s'(2)]] get_phys_addr_lookup [OF pt_invD(1) [OF assms(1)]] same_page
    using s'(4) [of "pt_at w" "pt_index 12 w"] by (simp add: pt_index_less)
  then show ?thesis using s' by blast
qed

text \<open>An empty table and three free frames; then one page mapped in them.\<close>

definition sample_pt :: PtMem where
  "sample_pt = \<lparr>pt_mem = (\<lambda>_ _. 0), pt_released = [0x2000], pt_fresh = [0x3000, 0x4000]\<rparr>"

lemma sample_pt_inv: "pt_inv (pt_root 0x1000) sample_pt" "3 \<le> length (pt_pool sample_pt)"
proof -
  have pt_walk: "pt_walk (\<lambda>_ _. 0) r p = (if p = [] then Some r else None)" for r p by (cases p) (auto simp: pt_walk.simps(2))
  show "pt_inv (pt_root 0x1000) sample_pt"
    by (auto simp: pt_inv_def pt_tree_def sample_pt_def pt_pool_def pt_walk pt_root_def PTE_ADDR_MASK_def split: if_splits)
  show "3 \<le> length (pt_pool sample_pt)" by (simp add: sample_pt_def pt_pool_def)
qed

theorem vmap_translates_witness:
  "\<exists>s'. vmap 0x1000 0x5000 0x9000 3 sample_pt = Some s' \<and> get_phys_addr 0x5008 0x1000 s' = Some 0x9008"
  using vmap_translates [OF sample_pt_inv, where v = "0x5000" and paddr = "0x9000" and options = 3]
  by (auto simp: PTE_ADDR_MASK_def has_option_def OPT_PRESENT_def)

theorem vunmap_translates_witness:
  "\<exists>s s'. vmap 0x1000 0x5000 0x9000 3 sample_pt = Some s \<and> vunmap_internal 0x1000 0x5000 True s = (Some 0x9000, s') \<and>
    get_phys_addr 0x5008 0x1000 s' = None \<and> 0x9000 \<in> pt_frames 0x1000 s'"
proof -
  have root: "pt_root 0x1000 = 0x1000" by (simp add: pt_root_def)
  have frames: "pt_frames 0x1000 sample_pt = {0x2000, 0x3000, 0x4000}"
  proof -
    have "pt_walk (\<lambda>_ _. 0) r p = (if p = [] then Some r else None)" for r p by (cases p) (auto simp: pt_walk.simps(2))
    then show ?thesis by (auto simp: pt_frames_def sample_pt_def pt_pool_def)
  qed
  obtain s where s: "vmap 0x1000 0x5000 0x9000 3 sample_pt = Some s" "pt_inv 0x1000 s" "pt_frames 0x1000 s = {0x2000, 0x3000, 0x4000}"
    "pt_lookup (pt_mem s) 0x1000 (pt_at 0x5000) (pt_index 12 0x5000) = Some ((0x9000 AND PTE_ADDR_MASK) OR create_aarch64_attributes 3)"
    using vmap_ok [OF sample_pt_inv, of "0x5000" "0x9000" 3]
    by (auto simp: root frames leaf_bits pt_index_less has_option_def OPT_PRESENT_def)
  have "get_phys_addr 0x5000 0x1000 s = Some 0x9000"
    using get_phys_addr_lookup [of s "0x1000" "0x5000"] pt_invD(1) [OF s(2)] s(4) leaf_bits(1) [of "0x9000" 3]
    by (simp add: root PTE_ADDR_MASK_def)
  then show ?thesis
    using vunmap_translates [of "0x1000" s True "0x5000"] s by (auto simp: root PTE_ADDR_MASK_def)
qed

end
