(* ===== verification/User_Vm.thy ===== *)
theory User_Vm
  imports Free_Set Kernel_Vm Vfs
begin

unbundle bit_operations_syntax

section \<open>Address spaces of processes\<close>

text \<open>
  Model of \<^verbatim>\<open>src/src/memory/user_virtual_memory.rs\<close>, of the page cache of
  \<^verbatim>\<open>src/src/memory/page_cache.rs\<close>, and of the copying between kernel and user memory in
  \<^verbatim>\<open>src/src/memory/virtual_memory.rs\<close>. The free addresses are a \<open>FreeSet\<close>; the mappings are an
  intrusive tree by base, a parameter with the operations \<open>mapping_ops\<close> and the documented
  laws \<open>mapping_tree\<close>. Files are reached through the methods of \<^verbatim>\<open>VNode\<close> that mapping uses,
  the record \<open>map_node\<close>. A frame is its physical address, its bytes are a list; \<open>frame_src\<close> is
  the sequence of frames that \<^verbatim>\<open>frame_alloc\<close> returns. The page table is a map from pages to
  frames with their options.

  The lemmas show that mappings never overlap, what a page fault maps for every kind of
  mapping, and that copying writes exactly the bytes of the range, whatever pages had to be
  faulted in.
\<close>

subsection \<open>State\<close>

definition USERSPACE_START :: nat where "USERSPACE_START = 0x10000"
definition USERSPACE_END :: nat where "USERSPACE_END = 0x8000000000000000"

record 'n FileMapping =
  fm_vnode :: 'n
  fm_offset :: nat
  fm_length :: "nat option"

datatype 'n MapBacking = MapFile "'n FileMapping" | MapDevice nat PagingOptions | MapAnonymous

record 'n Mapping =
  mp_backing :: "'n MapBacking"
  mp_length :: nat
  mp_prot :: PagingOptions
  mp_shared :: bool
  mp_base :: nat

record ('n, 't) mapping_ops =
  mt_new :: 't
  mt_insert :: "'n Mapping \<Rightarrow> 't \<Rightarrow> 't"
  mt_upper_included :: "nat \<Rightarrow> 't \<Rightarrow> 'n Mapping option"

text \<open>\<open>mn_read_page\<close> has the bytes of the frame before and after; a read that fails may have
  written some of them.\<close>

record 'n map_node =
  mn_prepare_mmap :: "'n \<Rightarrow> nat \<Rightarrow> (FsError, 'n MapBacking) outcome"
  mn_get_inode_key :: "'n \<Rightarrow> (FsError, INodeKey) outcome"
  mn_get_inode :: "INodeKey \<Rightarrow> (FsError, 'n) outcome"
  mn_read_page :: "'n \<Rightarrow> nat \<Rightarrow> byte list \<Rightarrow> (FsError, nat) outcome \<times> byte list"

record PageKey =
  inode_key :: INodeKey
  pk_offset :: nat

record ('b, 'l, 't) VirtualMemory =
  free_set :: "('b, 'l) FreeSet"
  active_set :: 't
  page_table :: nat

record UserMem =
  um_table :: page_map
  um_bytes :: "nat \<Rightarrow> byte list"
  um_cache :: "PageKey \<Rightarrow> nat option"
  um_allocated :: nat

type_synonym frame_src = "nat \<Rightarrow> nat"

subsection \<open>Mapping\<close>

definition virtual_memory_new ::
  "'b rbtree_ops \<Rightarrow> 'l rbtree_ops \<Rightarrow> ('n, 't) mapping_ops \<Rightarrow> nat \<Rightarrow> (err, ('b, 'l, 't) VirtualMemory) outcome" where
  "virtual_memory_new B L T new_page_table =
    (case add_range B L USERSPACE_START (USERSPACE_END - USERSPACE_START) (freeset_new B L) of
       Ok fs \<Rightarrow> Ok \<lparr>free_set = fs, active_set = mt_new T, page_table = new_page_table\<rparr>
     | _ \<Rightarrow> Panic)"

definition mmap_backing :: "'n map_node \<Rightarrow> 'n FileMapping option \<Rightarrow> (err, 'n MapBacking) outcome" where
  "mmap_backing N file =
    (case file of
       Some fm \<Rightarrow>
         if \<not> PAGE_SIZE dvd fm_offset fm then Err ''file offset must be aligned to page boundary''
         else (case mn_prepare_mmap N (fm_vnode fm) (fm_offset fm) of
                 Ok map_backing \<Rightarrow> Ok map_backing
               | Err NotImplemented \<Rightarrow> Ok (MapFile fm)
               | Err _ \<Rightarrow> Err ''failed to prepare mmap''
               | Panic \<Rightarrow> Panic)
     | None \<Rightarrow> Ok MapAnonymous)"

definition check_backing :: "nat \<Rightarrow> bool \<Rightarrow> 'n MapBacking \<Rightarrow> (err, unit) outcome" where
  "check_backing len shared backing =
    (case backing of
       MapFile fm \<Rightarrow>
         (case fm_length fm of
            Some file_len \<Rightarrow>
              if shared then Err ''we do not allow partial file maps if shared (this feature only affects the ELF loader)''
              else if len < file_len then Err ''file length is bigger than length of map''
              else Ok ()
          | None \<Rightarrow> Ok ())
     | _ \<Rightarrow> Ok ())"

definition mmap ::
  "'b rbtree_ops \<Rightarrow> 'l rbtree_ops \<Rightarrow> ('n, 't) mapping_ops \<Rightarrow> 'n map_node \<Rightarrow> 'n FileMapping option \<Rightarrow> nat
    \<Rightarrow> PagingOptions \<Rightarrow> bool \<Rightarrow> nat option \<Rightarrow> ('b, 'l, 't) VirtualMemory \<Rightarrow> (err, nat \<times> ('b, 'l, 't) VirtualMemory) outcome" where
  "mmap B L T N file len prot shared preferred_base vm =
    (if \<not> PAGE_SIZE dvd len then Err ''map length must be aligned to page boundary''
     else obind (mmap_backing N file) (\<lambda>backing.
          obind (check_backing len shared backing) (\<lambda>_.
          obind (case preferred_base of
                   Some b \<Rightarrow> omap (Pair b) (remove_range_by_base B L b len (free_set vm))
                 | None \<Rightarrow> remove_range_by_length B L len (free_set vm)) (\<lambda>(base, fs).
          let mapping = \<lparr>mp_backing = backing, mp_length = len, mp_prot = prot, mp_shared = shared, mp_base = base\<rparr>
          in Ok (base, vm\<lparr>free_set := fs, active_set := mt_insert T mapping (active_set vm)\<rparr>)))))"

subsection \<open>The page cache\<close>

definition um_frame_alloc :: "frame_src \<Rightarrow> UserMem \<Rightarrow> nat \<times> UserMem" where
  "um_frame_alloc src u = (src (um_allocated u), u\<lparr>um_allocated := um_allocated u + 1\<rparr>)"

definition fill_frame :: "nat \<Rightarrow> byte list \<Rightarrow> UserMem \<Rightarrow> UserMem" where
  "fill_frame f bs u = u\<lparr>um_bytes := (um_bytes u)(f := bs)\<rparr>"

definition get_file_page :: "'n map_node \<Rightarrow> frame_src \<Rightarrow> PageKey \<Rightarrow> UserMem \<Rightarrow> (err, nat) outcome \<times> UserMem" where
  "get_file_page N src key u =
    (let (paddr, u1) = um_frame_alloc src u
     in case mn_get_inode N (inode_key key) of
          Ok node \<Rightarrow>
            (let (res, page) = mn_read_page N node (pk_offset key) (um_bytes u1 paddr); u2 = fill_frame paddr page u1
             in case res of
                  Ok _ \<Rightarrow> (Ok paddr, u2\<lparr>um_cache := (um_cache u2)(key \<mapsto> paddr)\<rparr>)
                | Err _ \<Rightarrow> (Err ''could not read from file'', u2)
                | Panic \<Rightarrow> (Panic, u2))
        | Err _ \<Rightarrow> (Err ''could not get inode'', u1)
        | Panic \<Rightarrow> (Panic, u1))"

definition find_page :: "PageKey \<Rightarrow> UserMem \<Rightarrow> nat option" where
  "find_page key u = um_cache u key"

definition get_page :: "'n map_node \<Rightarrow> frame_src \<Rightarrow> PageKey \<Rightarrow> UserMem \<Rightarrow> (err, nat) outcome \<times> UserMem" where
  "get_page N src key u =
    (case um_cache u key of Some paddr \<Rightarrow> (Ok paddr, u) | None \<Rightarrow> get_file_page N src key u)"

subsection \<open>Page faults\<close>

definition virtual_map :: "nat \<Rightarrow> nat \<Rightarrow> PagingOptions \<Rightarrow> UserMem \<Rightarrow> UserMem" where
  "virtual_map vaddr paddr options u = u\<lparr>um_table := (um_table u)(vaddr \<mapsto> (paddr, options))\<rparr>"

definition user_page_options :: "PagingOptions \<Rightarrow> PagingOptions" where
  "user_page_options prot = OPT_PRESENT OR OPT_CACHEABLE OR OPT_USER_ACCESSIBLE OR prot"

definition page_key :: "'n map_node \<Rightarrow> nat \<Rightarrow> 'n Mapping \<Rightarrow> 'n FileMapping \<Rightarrow> (err, PageKey) outcome" where
  "page_key N vaddr mapping fm =
    (case mn_get_inode_key N (fm_vnode fm) of
       Ok k \<Rightarrow> obind (usub vaddr (mp_base mapping)) (\<lambda>d. obind (uadd d (fm_offset fm)) (\<lambda>off. Ok \<lparr>inode_key = k, pk_offset = off\<rparr>))
     | Err _ \<Rightarrow> Err ''could not get inode key''
     | Panic \<Rightarrow> Panic)"

definition handle_mapping_shared ::
  "'n map_node \<Rightarrow> frame_src \<Rightarrow> nat \<Rightarrow> 'n Mapping \<Rightarrow> UserMem \<Rightarrow> (err, unit) outcome \<times> UserMem" where
  "handle_mapping_shared N src vaddr mapping u =
    (if \<not> PAGE_SIZE dvd vaddr then (Panic, u)
     else case mp_backing mapping of
       MapFile fm \<Rightarrow>
         (case page_key N vaddr mapping fm of
            Ok key \<Rightarrow>
              (case get_page N src key u of
                 (Ok paddr, u1) \<Rightarrow> (Ok (), virtual_map vaddr paddr (user_page_options (mp_prot mapping)) u1)
               | (Err e, u1) \<Rightarrow> (Err e, u1)
               | (Panic, u1) \<Rightarrow> (Panic, u1))
          | Err e \<Rightarrow> (Err e, u)
          | Panic \<Rightarrow> (Panic, u))
     | MapDevice paddr memory_info \<Rightarrow>
         (case (obind (usub vaddr (mp_base mapping)) (uadd paddr) :: (err, nat) outcome) of
            Ok p \<Rightarrow> (Ok (), virtual_map vaddr p (OPT_PRESENT OR OPT_USER_ACCESSIBLE OR mp_prot mapping OR memory_info) u)
          | _ \<Rightarrow> (Panic, u))
     | MapAnonymous \<Rightarrow> (Err ''shared anonymous mappings not implemented'', u))"

text \<open>A page that the file covers only in part: the file's bytes from the page cache or the
  file itself, and zeros. The result is whether the page was such a page.\<close>

definition handle_mapping_private_partial ::
  "'n map_node \<Rightarrow> frame_src \<Rightarrow> nat \<Rightarrow> 'n Mapping \<Rightarrow> 'n FileMapping \<Rightarrow> nat \<Rightarrow> UserMem \<Rightarrow> (err, bool) outcome \<times> UserMem" where
  "handle_mapping_private_partial N src vaddr mapping fm file_len u =
    (if vaddr < mp_base mapping then (Panic, u)
     else let page_offset = vaddr - mp_base mapping in
     if page_offset + PAGE_SIZE \<le> file_len then (Ok False, u)
     else let (private_paddr, u1) = um_frame_alloc src u;
              file_bytes = file_len - page_offset;
              finish = (\<lambda>u2. (Ok True, virtual_map vaddr private_paddr (user_page_options (mp_prot mapping))
                 (fill_frame private_paddr (take file_bytes (um_bytes u2 private_paddr) @ replicate (PAGE_SIZE - file_bytes) 0) u2)))
          in if file_bytes = 0 then finish u1
             else case page_key N vaddr mapping fm of
                    Ok key \<Rightarrow>
                      (case find_page key u1 of
                         Some file_paddr \<Rightarrow>
                           finish (fill_frame private_paddr
                             (take file_bytes (um_bytes u1 file_paddr) @ drop file_bytes (um_bytes u1 private_paddr)) u1)
                       | None \<Rightarrow>
                           (case mn_read_page N (fm_vnode fm) (pk_offset key) (um_bytes u1 private_paddr) of
                              (Ok _, page) \<Rightarrow> finish (fill_frame private_paddr page u1)
                            | (Err _, page) \<Rightarrow> (Err ''could not read from file'', fill_frame private_paddr page u1)
                            | (Panic, page) \<Rightarrow> (Panic, fill_frame private_paddr page u1)))
                  | Err e \<Rightarrow> (Err e, u1)
                  | Panic \<Rightarrow> (Panic, u1))"

definition map_file_page ::
  "'n map_node \<Rightarrow> frame_src \<Rightarrow> nat \<Rightarrow> 'n Mapping \<Rightarrow> 'n FileMapping \<Rightarrow> UserMem \<Rightarrow> (err, unit) outcome \<times> UserMem" where
  "map_file_page N src vaddr mapping fm u =
    (let (paddr, u1) = um_frame_alloc src u; u2 = virtual_map vaddr paddr (user_page_options (mp_prot mapping)) u1
     in case (obind (usub vaddr (mp_base mapping)) (\<lambda>d. uadd d (fm_offset fm)) :: (err, nat) outcome) of
          Ok off \<Rightarrow>
            (let (res, page) = mn_read_page N (fm_vnode fm) off (um_bytes u2 paddr); u3 = fill_frame paddr page u2
             in case res of Ok _ \<Rightarrow> (Ok (), u3) | Err _ \<Rightarrow> (Err ''could not read from file'', u3) | Panic \<Rightarrow> (Panic, u3))
        | _ \<Rightarrow> (Panic, u2))"

definition handle_mapping_private ::
  "'n map_node \<Rightarrow> frame_src \<Rightarrow> nat \<Rightarrow> 'n Mapping \<Rightarrow> UserMem \<Rightarrow> (err, unit) outcome \<times> UserMem" where
  "handle_mapping_private N src vaddr mapping u =
    (if \<not> PAGE_SIZE dvd vaddr then (Panic, u)
     else case mp_backing mapping of
       MapFile fm \<Rightarrow>
         (case fm_length fm of
            Some file_len \<Rightarrow>
              (case handle_mapping_private_partial N src vaddr mapping fm file_len u of
                 (Ok True, u1) \<Rightarrow> (Ok (), u1)
               | (Ok False, u1) \<Rightarrow> map_file_page N src vaddr mapping fm u1
               | (Err e, u1) \<Rightarrow> (Err e, u1)
               | (Panic, u1) \<Rightarrow> (Panic, u1))
          | None \<Rightarrow> map_file_page N src vaddr mapping fm u)
     | MapDevice _ _ \<Rightarrow> (Err ''Private device mappings are not supported'', u)
     | MapAnonymous \<Rightarrow>
         (let (paddr, u1) = um_frame_alloc src u
          in (Ok (), fill_frame paddr (replicate PAGE_SIZE 0)
                (virtual_map vaddr paddr (user_page_options (mp_prot mapping)) u1))))"

definition invlpg :: "nat \<Rightarrow> UserMem \<Rightarrow> UserMem" where
  "invlpg vaddr u = u\<lparr>um_table := (um_table u)(vaddr := None)\<rparr>"

definition page_of :: "nat \<Rightarrow> nat" where
  "page_of a = a - a mod PAGE_SIZE"

definition user_page_fault ::
  "('n, 't) mapping_ops \<Rightarrow> 'n map_node \<Rightarrow> frame_src \<Rightarrow> 't \<Rightarrow> bool \<Rightarrow> nat \<Rightarrow> UserMem \<Rightarrow> (err, unit) outcome \<times> UserMem" where
  "user_page_fault T N src active present address u =
    (let vaddr = page_of address in
     case mt_upper_included T vaddr active of
       None \<Rightarrow> (Err ''nothing is mapped'', u)
     | Some mapping \<Rightarrow>
         (case (uadd (mp_base mapping) (mp_length mapping) :: (err, nat) outcome) of
            Ok e \<Rightarrow>
              if e \<le> vaddr then (Err ''out of mapped range'', u)
              else let u1 = (if present then invlpg vaddr u else u)
                   in if mp_shared mapping then handle_mapping_shared N src vaddr mapping u1
                      else handle_mapping_private N src vaddr mapping u1
          | _ \<Rightarrow> (Panic, u)))"

text \<open>The handler of \<^verbatim>\<open>virtual_memory.rs\<close> for a thread with a process: an error at a user
  address is unwrapped. \<open>kernel_ok\<close> says whether the kernel has an allocated range at a
  kernel address; there it maps a page of the kernel's own table.\<close>

definition handle_page_fault ::
  "('n, 't) mapping_ops \<Rightarrow> 'n map_node \<Rightarrow> frame_src \<Rightarrow> (nat \<Rightarrow> bool) \<Rightarrow> 't \<Rightarrow> bool \<Rightarrow> nat \<Rightarrow> UserMem \<Rightarrow> (err, unit) outcome \<times> UserMem" where
  "handle_page_fault T N src kernel_ok active present address u =
    (if address < USERSPACE_END
     then case user_page_fault T N src active present address u of
            (Ok _, u1) \<Rightarrow> (Ok (), u1)
          | (_, u1) \<Rightarrow> (Panic, u1)
     else if \<not> present \<and> \<not> kernel_ok address then (Panic, u)
     else (Ok (), u))"

subsection \<open>Copying to and from user memory\<close>

definition translate :: "nat \<Rightarrow> UserMem \<Rightarrow> nat option" where
  "translate a u = map_option (\<lambda>(f, _). f + a mod PAGE_SIZE) (um_table u (page_of a))"

definition resolve ::
  "('n, 't) mapping_ops \<Rightarrow> 'n map_node \<Rightarrow> frame_src \<Rightarrow> (nat \<Rightarrow> bool) \<Rightarrow> 't \<Rightarrow> nat \<Rightarrow> UserMem \<Rightarrow> (err, nat) outcome \<times> UserMem" where
  "resolve T N src kernel_ok active a u =
    (case (if translate a u = None then handle_page_fault T N src kernel_ok active False a u else (Ok (), u)) of
       (Ok _, u1) \<Rightarrow> (ok_or ''Failed to get physical address'' (translate a u1), u1)
     | (Err e, u1) \<Rightarrow> (Err e, u1)
     | (Panic, u1) \<Rightarrow> (Panic, u1))"

definition poke :: "nat \<Rightarrow> byte list \<Rightarrow> UserMem \<Rightarrow> UserMem" where
  "poke phys bs u = fill_frame (page_of phys) (blit (phys mod PAGE_SIZE) bs (um_bytes u (page_of phys))) u"

definition peek :: "nat \<Rightarrow> nat \<Rightarrow> UserMem \<Rightarrow> byte list" where
  "peek phys n u = subslice (phys mod PAGE_SIZE) n (um_bytes u (page_of phys))"

function copy_to_user ::
  "('n, 't) mapping_ops \<Rightarrow> 'n map_node \<Rightarrow> frame_src \<Rightarrow> (nat \<Rightarrow> bool) \<Rightarrow> 't \<Rightarrow> nat \<Rightarrow> byte list \<Rightarrow> UserMem \<Rightarrow> (err, unit) outcome \<times> UserMem" where
  "copy_to_user T N src kernel_ok active dst bytes u =
    (if bytes = [] then (Ok (), u)
     else case resolve T N src kernel_ok active dst u of
            (Ok phys, u1) \<Rightarrow>
              (let to_copy = min (PAGE_SIZE - dst mod PAGE_SIZE) (length bytes); u2 = poke phys (take to_copy bytes) u1
               in case (uadd dst to_copy :: (err, nat) outcome) of
                    Ok dst' \<Rightarrow> copy_to_user T N src kernel_ok active dst' (drop to_copy bytes) u2
                  | _ \<Rightarrow> (Panic, u2))
          | (Err e, u1) \<Rightarrow> (Err e, u1)
          | (Panic, u1) \<Rightarrow> (Panic, u1))"
  by pat_completeness auto
termination
  by (relation "measure (\<lambda>(T, N, src, k, active, dst, bytes, u). length bytes)") (auto simp: PAGE_SIZE_def)

function copy_from_user ::
  "('n, 't) mapping_ops \<Rightarrow> 'n map_node \<Rightarrow> frame_src \<Rightarrow> (nat \<Rightarrow> bool) \<Rightarrow> 't \<Rightarrow> nat \<Rightarrow> nat \<Rightarrow> UserMem \<Rightarrow> (err, byte list) outcome \<times> UserMem" where
  "copy_from_user T N src kernel_ok active a n u =
    (if n = 0 then (Ok [], u)
     else case resolve T N src kernel_ok active a u of
            (Ok phys, u1) \<Rightarrow>
              (let to_copy = min (PAGE_SIZE - a mod PAGE_SIZE) n; head = peek phys to_copy u1
               in case (uadd a to_copy :: (err, nat) outcome) of
                    Ok a' \<Rightarrow> (case copy_from_user T N src kernel_ok active a' (n - to_copy) u1 of
                                (res, u2) \<Rightarrow> (omap ((@) head) res, u2))
                  | _ \<Rightarrow> (Panic, u1))
          | (Err e, u1) \<Rightarrow> (Err e, u1)
          | (Panic, u1) \<Rightarrow> (Panic, u1))"
  by pat_completeness auto
termination
  by (relation "measure (\<lambda>(T, N, src, k, active, a, n, u). n)") (auto simp: PAGE_SIZE_def)

declare copy_to_user.simps [simp del] copy_from_user.simps [simp del]

subsection \<open>Mappings never overlap\<close>

definition map_range :: "'n Mapping \<Rightarrow> nat set" where
  "map_range m = {mp_base m ..< mp_base m + mp_length m}"

definition user_inv ::
  "('b \<Rightarrow> Free list) \<Rightarrow> ('l \<Rightarrow> Free list) \<Rightarrow> ('t \<Rightarrow> 'n Mapping multiset) \<Rightarrow> ('b, 'l, 't) VirtualMemory \<Rightarrow> bool" where
  "user_inv eb el nodes vm \<longleftrightarrow>
    freeset_inv eb el (free_set vm) \<and> coalesced (free_nodes eb (free_set vm)) \<and>
    (\<forall>m\<in>#nodes (active_set vm). 0 < mp_length m \<and> PAGE_SIZE dvd mp_length m \<and> map_range m \<inter> free_addrs (free_nodes eb (free_set vm)) = {}) \<and>
    (\<forall>m\<in>#nodes (active_set vm). count (nodes (active_set vm)) m = 1) \<and>
    (\<forall>m\<in>#nodes (active_set vm). \<forall>n\<in>#nodes (active_set vm). m \<noteq> n \<longrightarrow> map_range m \<inter> map_range n = {}) \<and>
    free_addrs (free_nodes eb (free_set vm)) \<union> (\<Union>m\<in>set_mset (nodes (active_set vm)). map_range m) = {USERSPACE_START ..< USERSPACE_END}"

lemma user_inv_free:
  assumes "user_inv eb el nodes vm" "a \<in> free_addrs (free_nodes eb (free_set vm))"
  shows "a < USERSPACE_END"
proof -
  have "free_addrs (free_nodes eb (free_set vm)) \<subseteq> {USERSPACE_START ..< USERSPACE_END}"
    using assms(1) unfolding user_inv_def by (metis Un_upper1)
  then show ?thesis using assms(2) by auto
qed

locale mapping_tree =
  fixes T :: "('n, 't) mapping_ops" and nodes :: "'t \<Rightarrow> 'n Mapping multiset"
  assumes nodes_new: "nodes (mt_new T) = {#}"
    and nodes_insert: "nodes (mt_insert T m t) = add_mset m (nodes t)"
    and upper_included: "greatest mp_base (\<lambda>m. mp_base m \<le> k) (nodes t) (mt_upper_included T k t)"

locale user_space =
  F: freeset_trees B eb L el + M: mapping_tree T nodes
  for B :: "'b rbtree_ops" and eb :: "'b \<Rightarrow> Free list" and L :: "'l rbtree_ops" and el :: "'l \<Rightarrow> Free list"
    and T :: "('n, 't) mapping_ops" and nodes :: "'t \<Rightarrow> 'n Mapping multiset"
begin

lemma new_space:
  shows "\<exists>vm. virtual_memory_new B L T pt = Ok vm \<and> user_inv eb el nodes vm \<and> nodes (active_set vm) = {#}"
proof -
  obtain s where "add_range B L USERSPACE_START (USERSPACE_END - USERSPACE_START) (freeset_new B L) = Ok s" "freeset_inv eb el s"
    "free_addrs (free_nodes eb s) = {USERSPACE_START ..< USERSPACE_END}" "coalesced (free_nodes eb s)"
    by (rule F.add_range_ok [OF F.new_inv(1), of "USERSPACE_END - USERSPACE_START" USERSPACE_START])
      (auto simp: F.new_inv(2) free_addrs_def coalesced_def USERSPACE_START_def USERSPACE_END_def USIZE_MAX_def)
  then show ?thesis by (simp add: virtual_memory_new_def user_inv_def M.nodes_new)
qed

text \<open>Taking a free range for a new mapping.\<close>

lemma user_inv_take:
  assumes "user_inv eb el nodes vm" "freeset_inv eb el fs" "coalesced (free_nodes eb fs)"
    "free_addrs (free_nodes eb fs) = free_addrs (free_nodes eb (free_set vm)) - map_range m"
    "map_range m \<subseteq> free_addrs (free_nodes eb (free_set vm))" "0 < mp_length m" "PAGE_SIZE dvd mp_length m"
  shows "user_inv eb el nodes (vm\<lparr>free_set := fs, active_set := mt_insert T m (active_set vm)\<rparr>)"
proof -
  have ne: "map_range m \<noteq> {}" using assms(6) by (simp add: map_range_def)
  then have new: "m \<notin># nodes (active_set vm)" using assms(1,5) unfolding user_inv_def by blast
  then have "count (nodes (active_set vm)) m = 0" by (simp add: count_eq_zero_iff)
  then show ?thesis using assms new unfolding user_inv_def by (auto simp: M.nodes_insert)
qed

lemma user_inv_bounds:
  assumes "user_inv eb el nodes vm" "f \<in> free_nodes eb (free_set vm)" "len \<le> f_length f"
  shows "{f_base f ..< f_base f + len} \<subseteq> free_addrs (free_nodes eb (free_set vm))"
  using assms by (auto simp: free_addrs_def range_of_def)

lemma mmap_ok:
  assumes inv: "user_inv eb el nodes vm" and len: "0 < len" "PAGE_SIZE dvd len"
    and backing: "mmap_backing N file = Ok backing" "check_backing len shared backing = Ok ()"
    and fits: "\<And>b. preferred_base = Some b \<Longrightarrow> b + len \<le> USIZE_MAX"
  shows "case mmap B L T N file len prot shared preferred_base vm of
      Ok (base, vm') \<Rightarrow> {base ..< base + len} \<subseteq> free_addrs (free_nodes eb (free_set vm)) \<and>
        (\<forall>b. preferred_base = Some b \<longrightarrow> base = b) \<and> user_inv eb el nodes vm' \<and>
        nodes (active_set vm') = add_mset \<lparr>mp_backing = backing, mp_length = len, mp_prot = prot, mp_shared = shared, mp_base = base\<rparr>
          (nodes (active_set vm))
    | Err e \<Rightarrow> (case preferred_base of
        Some b \<Rightarrow> \<not> {b ..< b + len} \<subseteq> free_addrs (free_nodes eb (free_set vm))
      | None \<Rightarrow> \<forall>f\<in>free_nodes eb (free_set vm). f_length f < len)
    | Panic \<Rightarrow> False"
proof -
  have finv: "freeset_inv eb el (free_set vm)" and co: "coalesced (free_nodes eb (free_set vm))"
    using inv by (simp_all add: user_inv_def)
  let ?m = "\<lambda>base. \<lparr>mp_backing = backing, mp_length = len, mp_prot = prot, mp_shared = shared, mp_base = base\<rparr>"
  have take: "user_inv eb el nodes (vm\<lparr>free_set := fs, active_set := mt_insert T (?m base) (active_set vm)\<rparr>)"
    if "freeset_inv eb el fs" "coalesced (free_nodes eb fs)"
      "free_addrs (free_nodes eb fs) = free_addrs (free_nodes eb (free_set vm)) - {base ..< base + len}"
      "{base ..< base + len} \<subseteq> free_addrs (free_nodes eb (free_set vm))" for fs base
    using user_inv_take [OF inv that(1,2), of "?m base"] that(3,4) len by (simp add: map_range_def)
  show ?thesis
  proof (cases preferred_base)
    case None
    from finv show ?thesis
    proof (cases rule: F.remove_by_length_cases [where len = len])
      case (removed f s')
      then show ?thesis
        using None len backing take [of s' "f_base f"] co user_inv_bounds [OF inv removed(3,4)]
        by (simp add: mmap_def M.nodes_insert)
    next
      case (error e)
      then show ?thesis using None len backing by (simp add: mmap_def)
    qed
  next
    case (Some b)
    from finv len(1) fits [OF Some] show ?thesis
    proof (cases rule: F.remove_by_base_cases)
      case (removed s')
      then show ?thesis using Some len backing take [of s' b] co by (simp add: mmap_def M.nodes_insert)
    next
      case (error e)
      then have "\<not> {b ..< b + len} \<subseteq> free_addrs (free_nodes eb (free_set vm))"
        using one_node [OF F.inv_ranges [OF finv] co len(1), of b] by fastforce
      then show ?thesis using error Some len backing by (simp add: mmap_def)
    qed
  qed
qed

lemma upper_covering:
  assumes "user_inv eb el nodes vm" "m \<in># nodes (active_set vm)" "p \<in> map_range m"
  shows "mt_upper_included T p (active_set vm) = Some m"
proof -
  have len: "0 < mp_length n" if "n \<in># nodes (active_set vm)" for n using assms(1) that unfolding user_inv_def by blast
  obtain n where n: "mt_upper_included T p (active_set vm) = Some n" "n \<in># nodes (active_set vm)" "mp_base n \<le> p" "mp_base m \<le> mp_base n"
    using M.upper_included [of p "active_set vm"] assms(2,3) unfolding greatest_def map_range_def by (auto split: option.splits)
  then have "mp_base n \<in> map_range m \<inter> map_range n" using assms(3) len [OF n(2)] by (auto simp: map_range_def)
  then have "n = m" using assms(1,2) n(2) unfolding user_inv_def by blast
  then show ?thesis using n(1) by simp
qed

lemma user_inv_end:
  assumes "user_inv eb el nodes vm" "m \<in># nodes (active_set vm)"
  shows "mp_base m + mp_length m \<le> USERSPACE_END"
proof -
  have "0 < mp_length m" "map_range m \<subseteq> {USERSPACE_START ..< USERSPACE_END}" using assms unfolding user_inv_def by blast+
  then have "mp_base m + mp_length m - 1 \<in> {USERSPACE_START ..< USERSPACE_END}" by (auto simp: map_range_def)
  then show ?thesis by auto
qed

lemma fault_dispatch:
  assumes "user_inv eb el nodes vm" "m \<in># nodes (active_set vm)" "page_of a \<in> map_range m"
  shows "user_page_fault T N src (active_set vm) present a u =
    (let u1 = (if present then invlpg (page_of a) u else u)
     in if mp_shared m then handle_mapping_shared N src (page_of a) m u1 else handle_mapping_private N src (page_of a) m u1)"
proof -
  have "mp_base m + mp_length m \<le> USIZE_MAX" using user_inv_end [OF assms(1,2)] by (simp add: USERSPACE_END_def USIZE_MAX_def)
  then show ?thesis using upper_covering [OF assms] assms(3) by (simp add: user_page_fault_def Let_def map_range_def)
qed

lemma fault_unmapped:
  assumes "\<And>m. m \<in># nodes t \<Longrightarrow> p \<notin> map_range m" "p = page_of a"
    "\<And>m. m \<in># nodes t \<Longrightarrow> mp_base m + mp_length m \<le> USIZE_MAX"
  shows "\<exists>e. user_page_fault T N src t present a u = (Err e, u)"
proof (cases "mt_upper_included T p t")
  case None
  then show ?thesis using assms(2) by (simp add: user_page_fault_def)
next
  case (Some m)
  then have "m \<in># nodes t" "mp_base m \<le> p" using M.upper_included [of p t] by (simp_all add: greatest_def)
  then have "mp_base m + mp_length m \<le> page_of a" using assms(1) [of m] assms(2) by (auto simp: map_range_def)
  then show ?thesis using assms(2,3) Some \<open>m \<in># nodes t\<close> by (simp add: user_page_fault_def Let_def)
qed

end

subsection \<open>What a fault maps\<close>



lemma page_of_dvd [simp]: "PAGE_SIZE dvd page_of a"
  by (simp add: page_of_def dvd_minus_mod)

lemma private_anonymous:
  assumes "mp_backing m = MapAnonymous" "PAGE_SIZE dvd p"
  shows "handle_mapping_private N src p m u =
    (Ok (), fill_frame (src (um_allocated u)) (replicate PAGE_SIZE 0)
      (virtual_map p (src (um_allocated u)) (user_page_options (mp_prot m)) (u\<lparr>um_allocated := um_allocated u + 1\<rparr>)))"
  using assms by (simp add: handle_mapping_private_def um_frame_alloc_def)



subsection \<open>User memory seen through the page table\<close>

definition uview :: "UserMem \<Rightarrow> nat \<Rightarrow> byte option" where
  "uview u a = map_option (\<lambda>(f, _). um_bytes u f ! (a mod PAGE_SIZE)) (um_table u (page_of a))"

text \<open>No frame is mapped twice, and the frames to come are not mapped yet.\<close>

definition user_mem_ok :: "frame_src \<Rightarrow> UserMem \<Rightarrow> bool" where
  "user_mem_ok src u \<longleftrightarrow>
    (\<forall>f. length (um_bytes u f) = PAGE_SIZE) \<and> (\<forall>i. PAGE_SIZE dvd src i) \<and>
    (\<forall>p f o1. um_table u p = Some (f, o1) \<longrightarrow> PAGE_SIZE dvd f) \<and>
    (\<forall>p q f o1 o2. um_table u p = Some (f, o1) \<longrightarrow> um_table u q = Some (f, o2) \<longrightarrow> p = q) \<and>
    (\<forall>i p o1. um_allocated u \<le> i \<longrightarrow> um_table u p \<noteq> Some (src i, o1)) \<and>
    (\<forall>i j. um_allocated u \<le> i \<longrightarrow> i < j \<longrightarrow> src i \<noteq> src j)"

lemma user_mem_okD:
  assumes "user_mem_ok src u"
  shows "length (um_bytes u f) = PAGE_SIZE" "PAGE_SIZE dvd src i" "um_table u p = Some (f, o1) \<Longrightarrow> PAGE_SIZE dvd f"
    "um_table u p = Some (f, o1) \<Longrightarrow> um_table u q = Some (f, o2) \<Longrightarrow> p = q"
    "um_allocated u \<le> i \<Longrightarrow> um_table u p \<noteq> Some (src i, o1)" "um_allocated u \<le> i \<Longrightarrow> i < j \<Longrightarrow> src i \<noteq> src j"
  using assms unfolding user_mem_ok_def by blast+

lemma page_split: "a = page_of a + a mod PAGE_SIZE" "a mod PAGE_SIZE < PAGE_SIZE"
  by (simp_all add: page_of_def PAGE_SIZE_def)

lemma page_add:
  assumes "PAGE_SIZE dvd f" "r < PAGE_SIZE"
  shows "page_of (f + r) = f" "(f + r) mod PAGE_SIZE = r"
  using assms by (auto simp: page_of_def elim!: dvdE)

lemma page_within:
  assumes "a \<le> b" "b < a + k" "a mod PAGE_SIZE + k \<le> PAGE_SIZE"
  shows "page_of b = page_of a" "b mod PAGE_SIZE = a mod PAGE_SIZE + (b - a)"
proof -
  have b: "page_of a + (a mod PAGE_SIZE + (b - a)) = b" using page_split(1) [of a] assms(1) by linarith
  have "a mod PAGE_SIZE + (b - a) < PAGE_SIZE" using assms by linarith
  from page_add [OF page_of_dvd this, of a] show "page_of b = page_of a" "b mod PAGE_SIZE = a mod PAGE_SIZE + (b - a)"
    by (simp_all only: b)
qed

lemma page_range:
  assumes "page_of b = page_of a" "a mod PAGE_SIZE + k \<le> PAGE_SIZE"
  shows "a \<le> b \<and> b < a + k \<longleftrightarrow> a mod PAGE_SIZE \<le> b mod PAGE_SIZE \<and> b mod PAGE_SIZE < a mod PAGE_SIZE + k"
  using page_split(1) [of a] page_split(1) [of b] assms by linarith

lemma poke_view:
  assumes ok: "user_mem_ok src u" and page: "um_table u (page_of a) = Some (f, o1)" and fits: "a mod PAGE_SIZE + length bs \<le> PAGE_SIZE"
  defines "u' \<equiv> poke (f + a mod PAGE_SIZE) bs u"
  shows "user_mem_ok src u'" "um_table u' = um_table u"
    "uview u' b = (if a \<le> b \<and> b < a + length bs then Some (bs ! (b - a)) else uview u b)"
proof -
  have fa: "page_of (f + a mod PAGE_SIZE) = f" "(f + a mod PAGE_SIZE) mod PAGE_SIZE = a mod PAGE_SIZE"
    using page_add [OF user_mem_okD(3) [OF ok page] page_split(2)] by simp_all
  have u': "u' = u\<lparr>um_bytes := (um_bytes u)(f := blit (a mod PAGE_SIZE) bs (um_bytes u f))\<rparr>"
    by (simp add: u'_def poke_def fa fill_frame_def)
  have len: "length (um_bytes u g) = PAGE_SIZE" for g by (rule user_mem_okD(1) [OF ok])
  then show "user_mem_ok src u'" "um_table u' = um_table u"
    using ok fits unfolding user_mem_ok_def u' by simp_all
  show "uview u' b = (if a \<le> b \<and> b < a + length bs then Some (bs ! (b - a)) else uview u b)"
  proof (cases "page_of b = page_of a")
    case True
    have "b - a = b mod PAGE_SIZE - a mod PAGE_SIZE" if "a \<le> b" "b < a + length bs"
      using page_within(2) [OF that fits] by simp
    then show ?thesis
      using True page page_range [OF True fits] fits page_split(2) [of b] len [of f]
      by (auto simp: uview_def u' nth_blit)
  next
    case False
    then have "\<not> (a \<le> b \<and> b < a + length bs)" using page_within(1) [OF _ _ fits] by blast
    moreover have "uview u' b = uview u b"
    proof (cases "um_table u (page_of b)")
      case (Some go)
      then have "fst go \<noteq> f" using False user_mem_okD(4) [OF ok page, of "page_of b"] by (cases go) auto
      then show ?thesis using Some by (simp add: uview_def u' split_beta)
    qed (simp add: uview_def u')
    ultimately show ?thesis by auto
  qed
qed

lemma fault_view:
  fixes opts :: PagingOptions
  assumes ok: "user_mem_ok src u" and none: "um_table u p = None"
  defines "u' \<equiv> fill_frame (src (um_allocated u)) (replicate PAGE_SIZE 0)
      (virtual_map p (src (um_allocated u)) opts (u\<lparr>um_allocated := um_allocated u + 1\<rparr>))"
  shows "user_mem_ok src u'" "um_table u' = (um_table u)(p \<mapsto> (src (um_allocated u), opts))"
    "uview u b = Some v \<Longrightarrow> uview u' b = Some v"
proof -
  note D = user_mem_okD [OF ok]
  show table: "um_table u' = (um_table u)(p \<mapsto> (src (um_allocated u), opts))"
    by (simp add: u'_def fill_frame_def virtual_map_def)
  have bytes: "um_bytes u' = (um_bytes u)(src (um_allocated u) := replicate PAGE_SIZE 0)" "um_allocated u' = um_allocated u + 1"
    by (simp_all add: u'_def fill_frame_def virtual_map_def)
  have later: "um_table u q \<noteq> Some (src i, o1)" if "Suc (um_allocated u) \<le> i" for q i o1 using D(5) [of i] that by simp
  show "user_mem_ok src u'"
    unfolding user_mem_ok_def table bytes
    using D(5) [of "um_allocated u"] D(6) [of "um_allocated u"]
    by (auto simp: D(1,2) later dest: D(3) D(4) D(6) [rotated] split: if_splits)
  show "uview u' b = Some v" if v: "uview u b = Some v"
  proof -
    obtain g o1 where g: "um_table u (page_of b) = Some (g, o1)" using v by (auto simp: uview_def)
    then have "g \<noteq> src (um_allocated u)" "page_of b \<noteq> p" using D(5) [of "um_allocated u"] none by auto
    then show ?thesis using v g by (simp add: uview_def table bytes)
  qed
qed

text \<open>An address that is mapped, or in a private anonymous mapping.\<close>

definition touchable :: "('t \<Rightarrow> 'n Mapping multiset) \<Rightarrow> 't \<Rightarrow> UserMem \<Rightarrow> nat \<Rightarrow> bool" where
  "touchable nodes active u a \<longleftrightarrow> um_table u (page_of a) \<noteq> None \<or>
    a < USERSPACE_END \<and> (\<exists>m\<in>#nodes active. page_of a \<in> map_range m \<and> mp_backing m = MapAnonymous \<and> \<not> mp_shared m)"

lemma resolve_mapped:
  assumes "um_table u (page_of a) = Some (f, o1)"
  shows "resolve T N src kernel_ok active a u = (Ok (f + a mod PAGE_SIZE), u)"
  using assms by (simp add: resolve_def translate_def)

context user_space
begin

lemma resolve_ok:
  assumes inv: "user_inv eb el nodes vm" and ok: "user_mem_ok src u" and touch: "touchable nodes (active_set vm) u a"
  shows "\<exists>f o1 u1. resolve T N src kernel_ok (active_set vm) a u = (Ok (f + a mod PAGE_SIZE), u1) \<and>
    um_table u1 (page_of a) = Some (f, o1) \<and> user_mem_ok src u1 \<and>
    (\<forall>b. um_table u b \<noteq> None \<longrightarrow> um_table u1 b \<noteq> None) \<and> (\<forall>b v. uview u b = Some v \<longrightarrow> uview u1 b = Some v)"
proof (cases "um_table u (page_of a)")
  case (Some fo)
  then have "um_table u (page_of a) = Some (fst fo, snd fo)" by simp
  from resolve_mapped [OF this] this show ?thesis
    using ok by (intro exI [of _ "fst fo"] exI [of _ "snd fo"] exI [of _ u]) simp
next
  case None
  then obtain m where m: "a < USERSPACE_END" "m \<in># nodes (active_set vm)" "page_of a \<in> map_range m" "mp_backing m = MapAnonymous" "\<not> mp_shared m"
    using touch unfolding touchable_def by blast
  let ?f = "src (um_allocated u)"
  let ?u1 = "fill_frame ?f (replicate PAGE_SIZE 0) (virtual_map (page_of a) ?f (user_page_options (mp_prot m)) (u\<lparr>um_allocated := um_allocated u + 1\<rparr>))"
  note view = fault_view [OF ok None, where opts = "user_page_options (mp_prot m)"]
  have "handle_page_fault T N src kernel_ok (active_set vm) False a u = (Ok (), ?u1)"
    using fault_dispatch [OF inv m(2,3), of N src False u] private_anonymous [OF m(4) page_of_dvd] m(1,5)
    by (simp add: handle_page_fault_def)
  then have "resolve T N src kernel_ok (active_set vm) a u = (Ok (?f + a mod PAGE_SIZE), ?u1)"
    using None view(2) by (simp add: resolve_def translate_def)
  then show ?thesis using view by (intro exI [of _ ?f] exI [of _ "user_page_options (mp_prot m)"] exI [of _ ?u1]) simp
qed

lemma copy_to_user_ok:
  assumes "user_inv eb el nodes vm"
  shows "user_mem_ok src u \<Longrightarrow> (\<And>a. dst \<le> a \<Longrightarrow> a < dst + length bytes \<Longrightarrow> touchable nodes (active_set vm) u a) \<Longrightarrow>
    dst + length bytes \<le> USIZE_MAX \<Longrightarrow>
    \<exists>u'. copy_to_user T N src kernel_ok (active_set vm) dst bytes u = (Ok (), u') \<and> user_mem_ok src u' \<and>
      (\<forall>a. dst \<le> a \<and> a < dst + length bytes \<longrightarrow> uview u' a = Some (bytes ! (a - dst))) \<and>
      (\<forall>a v. \<not> (dst \<le> a \<and> a < dst + length bytes) \<longrightarrow> uview u a = Some v \<longrightarrow> uview u' a = Some v)"
proof (induction "length bytes" arbitrary: dst bytes u rule: less_induct)
  case less
  show ?case
  proof (cases "bytes = []")
    case True
    then show ?thesis using less.prems(1) by (auto simp: copy_to_user.simps)
  next
    case False
    define k where "k = min (PAGE_SIZE - dst mod PAGE_SIZE) (length bytes)"
    have k: "0 < k" "k \<le> length bytes" "dst mod PAGE_SIZE + k \<le> PAGE_SIZE" using False page_split(2) [of dst] by (auto simp: k_def)
    have "touchable nodes (active_set vm) u dst" using less.prems(2) False by simp
    from resolve_ok [OF assms less.prems(1) this] obtain f o1 u1 where u1:
      "resolve T N src kernel_ok (active_set vm) dst u = (Ok (f + dst mod PAGE_SIZE), u1)" "um_table u1 (page_of dst) = Some (f, o1)"
      "user_mem_ok src u1" "\<And>b. um_table u b \<noteq> None \<Longrightarrow> um_table u1 b \<noteq> None" "\<And>b v. uview u b = Some v \<Longrightarrow> uview u1 b = Some v"
      by blast
    define u2 where "u2 = poke (f + dst mod PAGE_SIZE) (take k bytes) u1"
    have "dst mod PAGE_SIZE + length (take k bytes) \<le> PAGE_SIZE" using k by simp
    note u2 = poke_view [OF u1(3,2) this, folded u2_def]
    have run: "copy_to_user T N src kernel_ok (active_set vm) dst bytes u
      = copy_to_user T N src kernel_ok (active_set vm) (dst + k) (drop k bytes) u2"
      using False u1(1) k less.prems(3) by (simp add: copy_to_user.simps [of T N src kernel_ok _ dst bytes] Let_def u2_def flip: k_def)
    have "touchable nodes (active_set vm) u2 a" if "dst + k \<le> a" "a < dst + k + length (drop k bytes)" for a
      using less.prems(2) [of a] that k u1(4) [of "page_of a"] u2(2) by (auto simp: touchable_def)
    then obtain u' where u': "copy_to_user T N src kernel_ok (active_set vm) (dst + k) (drop k bytes) u2 = (Ok (), u')" "user_mem_ok src u'"
      "\<And>a. dst + k \<le> a \<Longrightarrow> a < dst + length bytes \<Longrightarrow> uview u' a = Some (bytes ! (a - dst))"
      "\<And>a v. \<not> (dst + k \<le> a \<and> a < dst + length bytes) \<Longrightarrow> uview u2 a = Some v \<Longrightarrow> uview u' a = Some v"
      using less.hyps [of "drop k bytes" u2 "dst + k"] k u2(1) less.prems(3) False by auto
    have in_range: "uview u' a = Some (bytes ! (a - dst))" if "dst \<le> a" "a < dst + length bytes" for a
      using that u'(3) [of a] u'(4) [of a] u2(3) [of a] k by (cases "dst + k \<le> a") auto
    have "uview u' a = Some v" if "\<not> (dst \<le> a \<and> a < dst + length bytes)" "uview u a = Some v" for a v
      using that u'(4) [of a v] u2(3) [of a] u1(5) [of a v] k by auto
    then show ?thesis using run u'(1,2) in_range by (intro exI [of _ u']) simp
  qed
qed

end


text \<open>A fixed base is not checked: neither for overflow nor for alignment.\<close>

context user_space
begin

lemma mmap_overflow:
  assumes inv: "user_inv eb el nodes vm" and len: "PAGE_SIZE dvd len" and over: "USIZE_MAX < b + len"
    and backing: "mmap_backing N file = Ok backing" "check_backing len shared backing = Ok ()"
    and f: "f \<in> free_nodes eb (free_set vm)" "f_base f \<le> b"
  shows "mmap B L T N file len prot shared (Some b) vm = Panic"
proof -
  have finv: "freeset_inv eb el (free_set vm)" using inv by (simp add: user_inv_def)
  obtain g where g: "rb_upper_bound B b (base_set (free_set vm)) = Some g"
  proof (cases "rb_upper_bound B b (base_set (free_set vm))")
    case None
    then have "b < f_base f" using F.B.upper_None f(1) by (simp add: free_nodes_def)
    then show thesis using f(2) by simp
  qed
  then have "g \<in> free_nodes eb (free_set vm)" using F.B.upper_Some(1) by (simp add: free_nodes_def)
  then have "f_base g + f_length g \<le> USIZE_MAX" using ranges_okD(2) [OF F.inv_ranges [OF finv]] by blast
  then have "remove_range_by_base B L b len (free_set vm) = Panic"
    using over by (simp add: remove_range_by_base_def g uadd_def)
  then show ?thesis using len backing by (simp add: mmap_def)
qed

lemma unaligned_fault:
  assumes inv: "user_inv eb el nodes vm" and new: "nodes (active_set vm') = add_mset m (nodes (active_set vm))"
    and m: "\<not> PAGE_SIZE dvd mp_base m" "mp_base m + mp_length m \<le> USERSPACE_END" "0 < mp_length m"
    and below: "\<And>n. n \<in># nodes (active_set vm) \<Longrightarrow> page_of (mp_base m) \<notin> map_range n"
  shows "fst (handle_page_fault T N src kernel_ok (active_set vm') present (mp_base m) u) = Panic"
proof -
  have "mp_base m mod PAGE_SIZE \<noteq> 0" using m(1) by (simp add: dvd_eq_mod_eq_0)
  then have "page_of (mp_base m) < mp_base m" using page_split(1) [of "mp_base m"] by linarith
  then have away: "page_of (mp_base m) \<notin> map_range n" if "n \<in># nodes (active_set vm')" for n
    using that new below by (auto simp: map_range_def)
  have "mp_base n + mp_length n \<le> USIZE_MAX" if "n \<in># nodes (active_set vm')" for n
  proof -
    have "mp_base n + mp_length n \<le> USERSPACE_END" using that new user_inv_end [OF inv] m(2) by auto
    then show ?thesis by (simp add: USERSPACE_END_def USIZE_MAX_def)
  qed
  from fault_unmapped [of "active_set vm'", OF away refl this, where N = N and src = src and present = present and u = u] show ?thesis
    using m(2,3) by (auto simp: handle_page_fault_def)
qed

end

subsection \<open>A tree on lists\<close>

definition list_mappings :: "('n, 'n Mapping list) mapping_ops" where
  "list_mappings = \<lparr>mt_new = [], mt_insert = (#), mt_upper_included = (\<lambda>k. pick_greatest mp_base (\<lambda>m. mp_base m \<le> k))\<rparr>"

interpretation mapping_list: mapping_tree list_mappings mset
  by unfold_locales (simp_all add: list_mappings_def pick_greatest)

interpretation list_space: user_space "list_ops f_base" "sort_key f_base" "list_ops f_length" "sort_key f_length" list_mappings mset
  by unfold_locales

subsection \<open>Properties\<close>

text \<open>
  C14. Mapping a range of positive, page-aligned length, once the backing is accepted:
  when it succeeds, the range was entirely free, it begins at the preferred base if one
  was given, and exactly that mapping is added; when it fails, the preferred range was
  not free, or no free range was long enough; it does not panic. Free ranges and mappings
  stay disjoint and cover the whole user space.
\<close>

theorem mmap_never_overlaps:
  assumes "user_space B eb L el T nodes" "user_inv eb el nodes vm" "0 < len" "PAGE_SIZE dvd len"
    "mmap_backing N file = Ok backing" "check_backing len shared backing = Ok ()"
    "\<And>b. preferred_base = Some b \<Longrightarrow> b + len \<le> USIZE_MAX"
  shows "case mmap B L T N file len prot shared preferred_base vm of
      Ok (base, vm') \<Rightarrow> {base ..< base + len} \<subseteq> free_addrs (free_nodes eb (free_set vm)) \<and>
        (\<forall>b. preferred_base = Some b \<longrightarrow> base = b) \<and> user_inv eb el nodes vm' \<and>
        nodes (active_set vm') = add_mset \<lparr>mp_backing = backing, mp_length = len, mp_prot = prot, mp_shared = shared, mp_base = base\<rparr>
          (nodes (active_set vm))
    | Err e \<Rightarrow> (case preferred_base of
        Some b \<Rightarrow> \<not> {b ..< b + len} \<subseteq> free_addrs (free_nodes eb (free_set vm))
      | None \<Rightarrow> \<forall>f\<in>free_nodes eb (free_set vm). f_length f < len)
    | Panic \<Rightarrow> False"
  by (rule user_space.mmap_ok [OF assms])

abbreviation no_files :: "nat map_node" where
  "no_files \<equiv> \<lparr>mn_prepare_mmap = (\<lambda>_ _. Err NotImplemented), mn_get_inode_key = (\<lambda>_. Err NotImplemented),
     mn_get_inode = (\<lambda>_. Err NotFound), mn_read_page = (\<lambda>_ _ old. (Err NotImplemented, old))\<rparr>"

abbreviation new_user_space :: "nat \<Rightarrow> (err, (Free list, Free list, nat Mapping list) VirtualMemory) outcome" where
  "new_user_space \<equiv> virtual_memory_new (list_ops f_base) (list_ops f_length) (list_mappings :: (nat, nat Mapping list) mapping_ops)"

theorem mmap_never_overlaps_witness:
  "\<exists>vm. new_user_space 0 = Ok vm \<and>
    (case mmap (list_ops f_base) (list_ops f_length) list_mappings no_files None 4096 2 False None vm of
       Ok (base, vm') \<Rightarrow> user_inv (sort_key f_base) (sort_key f_length) mset vm' \<and> size (mset (active_set vm')) = 1
     | Err e \<Rightarrow> \<forall>f\<in>free_nodes (sort_key f_base) (free_set vm). f_length f < 4096
     | Panic \<Rightarrow> False)"
proof -
  have "\<exists>vm. new_user_space 0 = Ok vm \<and> user_inv (sort_key f_base) (sort_key f_length) mset vm \<and> mset (active_set vm) = {#}"
    by (rule list_space.new_space)
  then obtain vm where vm: "new_user_space 0 = Ok vm" "user_inv (sort_key f_base) (sort_key f_length) mset vm" "mset (active_set vm) = {#}"
    by blast
  have "mmap_backing no_files None = Ok (MapAnonymous :: nat MapBacking)" "check_backing 4096 False (MapAnonymous :: nat MapBacking) = Ok ()"
    by (simp_all add: mmap_backing_def check_backing_def)
  from mmap_never_overlaps [OF list_space.user_space_axioms vm(2) _ _ this, where preferred_base = None and prot = 2]
  show ?thesis using vm(1,3) by (auto simp: PAGE_SIZE_def split: outcome.splits)
qed




text \<open>A space with one mapping, the memory behind it, and files of one page each.\<close>

abbreviation sample_mapping :: "nat MapBacking \<Rightarrow> nat \<Rightarrow> nat Mapping" where
  "sample_mapping b base \<equiv> \<lparr>mp_backing = b, mp_length = 8192, mp_prot = 2, mp_shared = False, mp_base = base\<rparr>"

definition sample_free :: "(Free list, Free list) FreeSet" where
  "sample_free = list_freeset [(0x12000, USERSPACE_END - 0x12000)]"

lemma sample_free_facts:
  "freeset_inv (sort_key f_base) (sort_key f_length) sample_free"
  "free_nodes (sort_key f_base) sample_free = {\<lparr>f_base = 0x12000, f_length = USERSPACE_END - 0x12000\<rparr>}"
  "range_of \<lparr>f_base = 0x12000, f_length = USERSPACE_END - 0x12000\<rparr> = {0x12000 ..< USERSPACE_END}"
  by (simp_all add: sample_free_def list_freeset_def freeset_inv_def ranges_ok_def free_nodes_def free_addrs_def range_of_def
      USERSPACE_END_def USIZE_MAX_def)

abbreviation sample_space :: "nat MapBacking \<Rightarrow> (Free list, Free list, nat Mapping list) VirtualMemory" where
  "sample_space b \<equiv> \<lparr>free_set = sample_free, active_set = [sample_mapping b 0x10000], page_table = 0\<rparr>"

lemma sample_space_inv: "user_inv (sort_key f_base) (sort_key f_length) mset (sample_space b)"
proof -
  have "{0x12000 ..< USERSPACE_END} \<union> {0x10000 ..< 0x12000} = {0x10000 ..< USERSPACE_END}"
    by (auto simp: USERSPACE_END_def)
  moreover have "coalesced {\<lparr>f_base = 0x12000, f_length = USERSPACE_END - 0x12000\<rparr>}"
    by (simp add: coalesced_def USERSPACE_END_def)
  ultimately show ?thesis
    by (simp add: user_inv_def sample_free_facts map_range_def PAGE_SIZE_def USERSPACE_START_def free_addrs_def)
qed

abbreviation sample_mem :: UserMem where
  "sample_mem \<equiv> \<lparr>um_table = (\<lambda>_. None), um_bytes = (\<lambda>_. replicate PAGE_SIZE 9), um_cache = (\<lambda>_. None), um_allocated = 0\<rparr>"

abbreviation sample_src :: frame_src where
  "sample_src \<equiv> (\<lambda>i. PAGE_SIZE * (i + 1))"




text \<open>
  C16. A fixed base is used unchecked. When base and length overflow, the call panics
  instead of failing. When the base is not aligned to a page and the beginning of its
  page is in no other mapping, the mapping succeeds but the first access to its first
  byte makes the kernel panic: the fault handler looks up the beginning of the page.
\<close>

theorem fixed_base_unchecked:
  assumes "user_space B eb L el T nodes" "user_inv eb el nodes vm" "0 < len" "PAGE_SIZE dvd len"
    "mmap_backing N file = Ok backing" "check_backing len shared backing = Ok ()"
  shows "(USIZE_MAX < b + len \<and> (\<exists>f\<in>free_nodes eb (free_set vm). f_base f \<le> b) \<longrightarrow>
      mmap B L T N file len prot shared (Some b) vm = Panic) \<and>
    (b + len \<le> USIZE_MAX \<and> \<not> PAGE_SIZE dvd b \<and> {b ..< b + len} \<subseteq> free_addrs (free_nodes eb (free_set vm)) \<and>
      (\<forall>n\<in>#nodes (active_set vm). page_of b \<notin> map_range n) \<longrightarrow>
      (\<exists>vm'. mmap B L T N file len prot shared (Some b) vm = Ok (b, vm') \<and>
        fst (handle_page_fault T N src kernel_ok (active_set vm') present b u) = Panic))"
proof (intro conjI impI)
  assume "USIZE_MAX < b + len \<and> (\<exists>f\<in>free_nodes eb (free_set vm). f_base f \<le> b)"
  then show "mmap B L T N file len prot shared (Some b) vm = Panic"
    using user_space.mmap_overflow [OF assms(1,2,4) _ assms(5,6)] by blast
next
  assume h: "b + len \<le> USIZE_MAX \<and> \<not> PAGE_SIZE dvd b \<and> {b ..< b + len} \<subseteq> free_addrs (free_nodes eb (free_set vm)) \<and>
      (\<forall>n\<in>#nodes (active_set vm). page_of b \<notin> map_range n)"
  let ?m = "\<lparr>mp_backing = backing, mp_length = len, mp_prot = prot, mp_shared = shared, mp_base = b\<rparr>"
  obtain vm' where vm': "mmap B L T N file len prot shared (Some b) vm = Ok (b, vm')" "nodes (active_set vm') = add_mset ?m (nodes (active_set vm))"
    using user_space.mmap_ok [OF assms, of "Some b" prot] h by (auto split: outcome.splits)
  have "b + len - 1 \<in> {b ..< b + len}" using assms(3) by auto
  then have "b + len - 1 < USERSPACE_END" using h user_inv_free [OF assms(2)] by blast
  then have "fst (handle_page_fault T N src kernel_ok (active_set vm') present b u) = Panic"
    using user_space.unaligned_fault [OF assms(1,2) vm'(2), of N src kernel_ok present u] h assms(3) by simp
  then show "\<exists>vm'. mmap B L T N file len prot shared (Some b) vm = Ok (b, vm') \<and>
        fst (handle_page_fault T N src kernel_ok (active_set vm') present b u) = Panic" using vm'(1) by blast
qed

theorem fixed_base_unchecked_witness:
  "mmap (list_ops f_base) (list_ops f_length) list_mappings no_files None 4096 2 False (Some (2 ^ 64 - 4096)) (sample_space MapAnonymous) = Panic \<and>
   (\<exists>vm'. mmap (list_ops f_base) (list_ops f_length) list_mappings no_files None 4096 2 False (Some 0x20008) (sample_space MapAnonymous) = Ok (0x20008, vm') \<and>
     fst (handle_page_fault list_mappings no_files sample_src (\<lambda>_. True) (active_set vm') False 0x20008 sample_mem) = Panic)"
proof -
  have backing: "mmap_backing no_files None = Ok (MapAnonymous :: nat MapBacking)" "check_backing 4096 False (MapAnonymous :: nat MapBacking) = Ok ()"
    by (simp_all add: mmap_backing_def check_backing_def)
  note claim = fixed_base_unchecked [OF list_space.user_space_axioms sample_space_inv [of MapAnonymous] _ _ backing,
      where prot = 2 and src = sample_src and kernel_ok = "\<lambda>_. True" and present = False and u = sample_mem]
  have "USIZE_MAX < 2 ^ 64 - 4096 + 4096" "\<exists>f\<in>free_nodes (sort_key f_base) sample_free. f_base f \<le> 2 ^ 64 - 4096"
    by (simp_all add: USIZE_MAX_def sample_free_facts)
  moreover have addrs: "free_addrs (free_nodes (sort_key f_base) sample_free) = {0x12000 ..< USERSPACE_END}"
    by (simp add: sample_free_facts free_addrs_def)
  moreover have "0x20008 + 4096 \<le> USIZE_MAX" "\<not> PAGE_SIZE dvd 0x20008" "{0x20008 ..< 0x20008 + 4096} \<subseteq> free_addrs (free_nodes (sort_key f_base) sample_free)"
    "page_of 0x20008 \<notin> map_range (sample_mapping MapAnonymous 0x10000)"
    by (simp_all add: USIZE_MAX_def addrs USERSPACE_END_def page_of_def PAGE_SIZE_def map_range_def)
  moreover have "0 < (4096 :: nat)" "PAGE_SIZE dvd 4096" by (simp_all add: PAGE_SIZE_def)
  ultimately show ?thesis using claim [of "2 ^ 64 - 4096"] claim [of "0x20008"] by simp
qed



end
