(* ===== verification/Spec2Isabelle.thy ===== *)
theory Spec2Isabelle
  imports Free_Set Buddy Ramfs Ext2_File Bounded_Buffer Rw_Lock Scheduler Frames Page_Table User_Vm
begin

text \<open>
  Verification of the CabOS kernel (sources under \<^verbatim>\<open>src/src/\<close>), a multicore kernel in
  Rust with a preemptive scheduler, blocking locks, physical and virtual memory
  allocators, a virtual filesystem with a RAM and an ext2 filesystem, and block devices.

  \<^bold>\<open>How the parts interact.\<close> Physical frames come from the frame allocator and, for the
  kernel heap, from the buddy allocator. Kernel addresses come from the complementary
  trees of the kernel address space; the addresses of a process from a free-range set.
  Files are reached through the VFS, which crosses mount points between filesystems; an
  open file adds an offset to a node. The ext2 filesystem reads and writes bytes of a block
  device through the byte-granular methods of its trait. Locks disable interrupts
  through state guards; the semaphore, promise, bounded buffer and reader-writer lock are
  built on the lock, and put threads to sleep in queues that the scheduler owns.

  \<^bold>\<open>Theories.\<close>
  \<^item> \<open>Cab_Prelude\<close>: results with panics, checked machine arithmetic, bytes.
  \<^item> \<open>Free_Set\<close> (\<^verbatim>\<open>memory/freeset.rs\<close>): every operation is the set operation on addresses
    that its name says, except \<^verbatim>\<open>clone\<close>, which is proved to return an empty set.
  \<^item> \<open>Buddy\<close> (\<^verbatim>\<open>memory/heap.rs\<close>, the buddy allocator): linked free lists in memory refine
    lists of blocks; allocation, release and adding of ranges change the free bytes by
    exactly the block or range. Blocks of the greatest order are lost when merged.
  \<^item> \<open>Frames\<close> (\<^verbatim>\<open>memory/physical_memory.rs\<close>): no frame is handed out twice in any run.
  \<^item> \<open>Kernel_Vm\<close> (\<^verbatim>\<open>memory/virtual_memory.rs\<close>): allocation is best fit and keeps the
    partition of the space into allocated ranges and gaps; releasing an inner range
    merges the gaps; releasing the topmost range leaves overlapping free ranges.
  \<^item> \<open>Page_Table\<close> (\<^verbatim>\<open>arch/aarch64/vmm.rs\<close>): the four levels of tables are a map from pages to
    frames; mapping and unmapping change one page, and no frame of a table is lost.
  \<^item> \<open>User_Vm\<close> (\<^verbatim>\<open>memory/user_virtual_memory.rs\<close>, \<^verbatim>\<open>memory/page_cache.rs\<close>, the copying of
    \<^verbatim>\<open>memory/virtual_memory.rs\<close>): mappings never overlap, each kind of page fault maps what the
    mapping says, copies to user memory are exact; a fixed base is not checked.
  \<^item> \<open>Block_Device\<close> (\<^verbatim>\<open>devices/block/\<close>, \<^verbatim>\<open>fs/ramdisk.rs\<close>): unaligned transfers are exact
    for every device with the contract of the trait; the virtio driver and the RAM disk
    have that contract.
  \<^item> \<open>Vfs\<close> (\<^verbatim>\<open>fs/vfs.rs\<close>), \<open>Open_File\<close> (\<^verbatim>\<open>fs/file.rs\<close>), \<open>Ramfs\<close> (\<^verbatim>\<open>fs/ramfs.rs\<close>):
    mounting, traversal, offsets of open files; the RAM filesystem satisfies the
    contracts of nodes and of files, so the general lemmas hold for it.
  \<^item> \<open>Ext2_Disk\<close>, \<open>Ext2_File\<close> (\<^verbatim>\<open>fs/ext2.rs\<close>): bitmaps, descriptors and allocation; block
    trees, file reading and writing, directory records and the node methods. The
    optimised bitmap search equals a plain scan, allocation and release are exact, reads
    return the bytes of the file, and several defects of the code are proved.
  \<^item> \<open>Locks\<close> (\<^verbatim>\<open>sync/int_spinlock.rs\<close>, \<^verbatim>\<open>sync/int_mutex.rs\<close>, \<^verbatim>\<open>state.rs\<close>), \<open>Semaphore\<close>
    (\<^verbatim>\<open>sync/semaphore.rs\<close>, \<^verbatim>\<open>sync/promise.rs\<close>), \<open>Bounded_Buffer\<close>
    (\<^verbatim>\<open>sync/bounded_buffer.rs\<close>), \<open>Rw_Lock\<close> (\<^verbatim>\<open>sync/rwlock.rs\<close>): step relations over
    every interleaving of atomic accesses or critical sections, with mutual exclusion,
    exact counting, FIFO order and the absence of lost wake-ups by rule induction.
  \<^item> \<open>Scheduler\<close> (\<^verbatim>\<open>thread.rs\<close>, \<^verbatim>\<open>event.rs\<close>, \<^verbatim>\<open>arch/x86_64/interrupt.rs\<close>): each live thread
    is in exactly one queue or on one core, sleepers wake in time, pinned threads stay;
    traps of threads that cannot be preempted break this.

  \<^bold>\<open>Conventions.\<close> A struct is a record and an enum a datatype with the names of the source.
  A fallible operation returns \<open>Ok\<close>, \<open>Err\<close> or \<open>Panic\<close>. Code of other packages (intrusive
  trees, the virtio driver) is a record of operations with a locale of its documented
  laws; a property over such a parameter has the locale as its hypothesis, and a concrete
  instance on lists satisfies it. Concurrency is an inductive step relation whose steps are
  the atomic accesses or critical sections of the code; counters that the code does not have
  record who is where. The witnesses evaluate the definitions on concrete states.

  \<^bold>\<open>Termination and fuel.\<close> No definition uses fuel. Loops are structural recursion or
  functions with a measure (the remaining bytes, regions or orders); the directory
  search of ext2 has no bound in the code and is a partial function whose result is
  proved to exist on well-formed directories and not to exist on a record of length 0.
  A loop that waits for another core (\<^verbatim>\<open>frame_alloc\<close> without frames, a spinning lock) is one
  round per step. The 2 GiB bound on regions in the release of buddy blocks is where
  the code stops being correct.

  \<^bold>\<open>Not modelled.\<close> The code that is only effects on hardware, or on memory by address, with
  no result that the rest of the kernel computes with: context switching and the
  entry paths of both architectures, TLB flushing, the page tables of x86, which are
  built by a package, interrupt
  controllers, processor start-up, ACPI, PCIe and device-tree discovery, virtio transports,
  UART, framebuffer and logging, DMA. The host tools under \<^verbatim>\<open>buildtool/\<close>, the procedural
  macros, the terminal binding and the integration tests are not part of the running
  kernel. The command line lexer is generated by a package from attributes. ELF
  loading, symbol and DWARF lookup follow formats of other packages. Coroutines are compiler-made state
  machines. Thread bodies other than their scheduling, and the weak memory model of the
  processors, are below the level of the step relations: every atomic access is taken to be
  sequentially consistent.
\<close>

end
